(* ===== verification/Fractal_Prelude.thy ===== *)
theory Fractal_Prelude
  imports Main "HOL-Library.Word" "HOL-Library.Monad_Syntax" "HOL-Library.Multiset"
begin

text \<open>
  Shared vocabulary of the development: the machine types of the Go code, the convention for
  panics, the simp collections the components extend, and generic facts about words, lists and
  maps that several components use.

  A Go operation that can panic (an index out of range, a nil dereference, an explicit
  \<^verbatim>\<open>panic\<close>) returns an \<open>option\<close>: \<open>None\<close> is the panic. An operation that returns a Go
  \<^verbatim>\<open>error\<close> returns either a pair whose first component is an optional error value (as the
  Go code does) or a sum whose left summand is the error.
\<close>

unbundle bit_operations_syntax

section \<open>Machine types\<close>

type_synonym u8 = "8 word"
type_synonym u32 = "32 word"
type_synonym u64 = "64 word"
type_synonym i64 = "64 word"
type_synonym bytes = "u8 list"

text \<open>
  \<^verbatim>\<open>common.Hash\<close> is a 32-byte and \<^verbatim>\<open>common.Address\<close> a 20-byte array; both are values
  compared byte by byte, so they are words of 256 and 160 bits, most significant byte first.
\<close>

type_synonym hash = "256 word"
type_synonym address = "160 word"

section \<open>Simp collections\<close>

named_theorems word_to_nat \<open>rewriting comparisons and arithmetic of words to natural numbers\<close>
named_theorems frame \<open>what an operation leaves unchanged\<close>
named_theorems inv_intros \<open>operations that keep a component's invariant\<close>

section \<open>Words\<close>

lemmas word_order_nat [word_to_nat] = word_less_nat_alt word_le_nat_alt word_unat_eq_iff

lemma unat_sub_le [word_to_nat]: "b \<le> a \<Longrightarrow> unat (a - b) = unat a - unat b"
  by (simp add: unat_sub)

lemma unat_add_no_wrap:
  fixes a b :: "'a::len word"
  shows "unat a + unat b < 2 ^ LENGTH('a) \<Longrightarrow> unat (a + b) = unat a + unat b"
  by (simp add: unat_word_ariths)

lemma no_wrap_if_less_add:
  fixes a b :: "'a::len word"
  assumes "a < a + b"
  shows "unat a + unat b < 2 ^ LENGTH('a)"
proof (rule ccontr)
  assume ge: "\<not> ?thesis"
  have "unat b < 2 ^ LENGTH('a)" by (rule unsigned_less)
  moreover have "unat a < 2 ^ LENGTH('a)" by (rule unsigned_less)
  ultimately have "unat a + unat b - 2 ^ LENGTH('a) < 2 ^ LENGTH('a)"
    using ge by linarith
  with ge have "(unat a + unat b) mod 2 ^ LENGTH('a) = unat a + unat b - 2 ^ LENGTH('a)"
    by (metis le_mod_geq mod_less not_less)
  with assms have "unat a < unat a + unat b - 2 ^ LENGTH('a)"
    by (simp add: word_less_nat_alt unat_word_ariths)
  with \<open>unat b < 2 ^ LENGTH('a)\<close> show False by linarith
qed

lemma unat_u64_bound [simp]: "unat (x :: u64) < 18446744073709551616"
  using unsigned_less [of x, where ?'a = nat] by simp

lemma unat_u32_bound [simp]: "unat (x :: u32) < 4294967296"
  using unsigned_less [of x, where ?'a = nat] by simp

lemma unat_u64_le [simp]: "unat (x :: u64) \<le> 18446744073709551615"
  using unat_u64_bound [of x] by linarith

lemma unat_div_numeral [simp]:
  "unat ((x :: u64) div 8) = unat x div 8"
  by (simp add: unat_div)

lemma unat_mod_numeral [simp]:
  "unat ((x :: u64) mod 8) = unat x mod 8"
  by (simp add: unat_mod)

lemma unat_ucast_u32_u64 [simp]: "unat (ucast (x :: u32) :: u64) = unat x"
  by (simp add: unsigned_ucast_eq take_bit_nat_eq_self less_trans [OF unat_u32_bound])

lemma unat_ucast_u64_u32: "unat (x :: u64) < 2 ^ 32 \<Longrightarrow> unat (ucast x :: u32) = unat x"
  by (simp add: unsigned_ucast_eq take_bit_nat_eq_self)

section \<open>Lists\<close>

lemma nth_append_replicate:
  "i < length xs + n \<Longrightarrow> (xs @ replicate n v) ! i = (if i < length xs then xs ! i else v)"
  by (simp add: nth_append)

end
