(* ===== verification/Nonce_Set.thy ===== *)
theory Nonce_Set
  imports Fractal_Prelude
begin

text \<open>
  The nonce set of an account (\<^verbatim>\<open>core/nonces/nonce_set.go\<close>): the transaction (or package)
  nonces that were already used, as a bit mask over a sliding window. The first part is the
  code; the second relates it to a set of natural numbers (\<open>used\<close>), shows that every
  operation keeps the representation invariant \<open>NonceSet_wf\<close> and that none of them panics on
  a well-formed set, and gives the interface \<open>replay_guard\<close> through which the transaction
  executor relies on it.
\<close>

section \<open>The code\<close>

datatype nonce_error = ErrorNonceTooLowInNonceSet | ErrorStartNonce | ErrorNonceOverFlow

datatype SearchResult = NotAllowedTooNew | NotContainedAndAllowed | Contained | NotAllowedTooOld

record NonceSet =
  nsStart :: u64
  nsBitMask :: bytes
  nsLength :: u32

definition NonceSet_zero :: NonceSet where
  "NonceSet_zero = \<lparr>nsStart = 0, nsBitMask = [], nsLength = 0\<rparr>"

definition NonceSet_DeepCopy :: "NonceSet \<Rightarrow> NonceSet \<Rightarrow> NonceSet" where
  "NonceSet_DeepCopy s other =
     s\<lparr>nsStart := nsStart other, nsBitMask := nsBitMask other, nsLength := nsLength other\<rparr>"

definition NewNonceSet :: "NonceSet \<Rightarrow> NonceSet" where
  "NewNonceSet other = NonceSet_DeepCopy NonceSet_zero other"

definition NonceSet_NextNonce :: "NonceSet \<Rightarrow> u64" where
  "NonceSet_NextNonce s = nsStart s + ucast (nsLength s)"

text \<open>\<^verbatim>\<open>byte(1) << byte(7-bitIndex%8)\<close>\<close>

definition nonce_bitMask :: "u64 \<Rightarrow> u8" where
  "nonce_bitMask bitIndex = push_bit (unat (7 - bitIndex mod 8)) 1"

definition NonceSet_Add :: "NonceSet \<Rightarrow> u64 \<Rightarrow> u64 \<Rightarrow> nonce_error option \<times> bool \<times> NonceSet" where
  "NonceSet_Add s nonce maxLength =
     (if nonce < nsStart s then (Some ErrorNonceTooLowInNonceSet, False, s)
      else if nonce \<ge> nsStart s + maxLength then (Some ErrorNonceOverFlow, False, s)
      else
        let bitIndex = nonce - nsStart s;
            byteIndex = unat (bitIndex div 8);
            bitMask = nonce_bitMask bitIndex;
            bm = (if byteIndex \<ge> length (nsBitMask s)
                    then nsBitMask s @ replicate (byteIndex - length (nsBitMask s) + 1) 0
                    else nsBitMask s);
            changed = (bm ! byteIndex AND bitMask = 0);
            bm' = bm[byteIndex := bm ! byteIndex OR bitMask];
            len = (if nonce - nsStart s + 1 > ucast (nsLength s)
                   then ucast (nonce - nsStart s + 1) else nsLength s)
        in (None, changed, s\<lparr>nsBitMask := bm', nsLength := len\<rparr>))"

definition NonceSet_Search :: "NonceSet \<Rightarrow> u64 \<Rightarrow> u64 \<Rightarrow> SearchResult option" where
  "NonceSet_Search s nonce maxLength =
     (if nonce < nsStart s then Some NotAllowedTooOld
      else if nonce \<ge> nsStart s + maxLength then Some NotAllowedTooNew
      else if nonce \<ge> nsStart s + ucast (nsLength s) then Some NotContainedAndAllowed
      else
        let bitIndex = nonce - nsStart s;
            byteIndex = unat (bitIndex div 8);
            bitMask = nonce_bitMask bitIndex
        in if byteIndex \<ge> length (nsBitMask s) then None
           else if nsBitMask s ! byteIndex AND bitMask > 0 then Some Contained
           else Some NotContainedAndAllowed)"

text \<open>
  The in-place left shift of \<^verbatim>\<open>Reset\<close>: at index \<open>i\<close> the next byte has not been shifted yet.
\<close>

fun nonce_shift :: "nat \<Rightarrow> bytes \<Rightarrow> bytes" where
  "nonce_shift leftBit [] = []"
| "nonce_shift leftBit [b] = [push_bit leftBit b]"
| "nonce_shift leftBit (b # c # bs) =
     (push_bit leftBit b OR drop_bit (8 - leftBit) c) # nonce_shift leftBit (c # bs)"

definition NonceSet_Reset :: "NonceSet \<Rightarrow> u64 \<Rightarrow> (nonce_error option \<times> bool \<times> NonceSet) option" where
  "NonceSet_Reset s start =
     (if start < nsStart s then Some (Some ErrorStartNonce, False, s)
      else if start = nsStart s then Some (None, False, s)
      else if start \<ge> nsStart s + ucast (nsLength s)
        then Some (None, True, s\<lparr>nsStart := start, nsBitMask := [], nsLength := 0\<rparr>)
      else
        let left = start - nsStart s;
            leftByte = unat (left div 8);
            leftBit = unat (left mod 8)
        in if leftByte > length (nsBitMask s) then None
           else
             let bm = nonce_shift leftBit (drop leftByte (nsBitMask s))
             in if bm = [] then None
                else Some (None, True,
                       s\<lparr>nsStart := start,
                         nsBitMask := (if last bm = 0 then butlast bm else bm),
                         nsLength := nsLength s - ucast left\<rparr>))"

definition NonceSet_ResetThenSearch ::
  "NonceSet \<Rightarrow> bool \<Rightarrow> u64 \<Rightarrow> u64 \<Rightarrow> u64 \<Rightarrow>
     (SearchResult \<times> nonce_error option \<times> bool \<times> NonceSet) option" where
  "NonceSet_ResetThenSearch s needReset newStart nonce maxLength =
     do {
       (err, changed, s') \<leftarrow> (if needReset then NonceSet_Reset s newStart else Some (None, False, s));
       if err \<noteq> None then Some (NotContainedAndAllowed, err, changed, s')
       else do {
         searchResult \<leftarrow> NonceSet_Search s' nonce maxLength;
         Some (searchResult, None, changed, s')
       }
     }"

section \<open>The nonces a set stands for\<close>

definition nonce_bit :: "bytes \<Rightarrow> nat \<Rightarrow> bool" where
  "nonce_bit bm i \<longleftrightarrow> bit (bm ! (i div 8)) (7 - i mod 8)"

definition used :: "NonceSet \<Rightarrow> nat set" where
  "used s = {n. unat (nsStart s) \<le> n \<and> n < unat (nsStart s) + unat (nsLength s)
               \<and> nonce_bit (nsBitMask s) (n - unat (nsStart s))}"

text \<open>
  Representation invariant: the mask has exactly the bytes its length needs, no bit is set past
  the length, the last bit of the window is set (so that \<^verbatim>\<open>NextNonce\<close> is one more than the
  largest used nonce), and the window does not wrap around \<^verbatim>\<open>uint64\<close>.
\<close>

definition NonceSet_wf :: "NonceSet \<Rightarrow> bool" where
  "NonceSet_wf s \<longleftrightarrow>
     length (nsBitMask s) = (unat (nsLength s) + 7) div 8
     \<and> (\<forall>i < 8 * length (nsBitMask s). unat (nsLength s) \<le> i \<longrightarrow> \<not> nonce_bit (nsBitMask s) i)
     \<and> (0 < unat (nsLength s) \<longrightarrow> nonce_bit (nsBitMask s) (unat (nsLength s) - 1))
     \<and> unat (nsStart s) + unat (nsLength s) < 2 ^ 64"

text \<open>The window bound the node is configured with does not overflow for this set.\<close>

definition window_fits :: "NonceSet \<Rightarrow> u64 \<Rightarrow> bool" where
  "window_fits s maxLength \<longleftrightarrow> unat maxLength < 2 ^ 32 \<and> unat (nsStart s) + unat maxLength < 2 ^ 64"

text \<open>The mask after one bit was set, grown first as far as that bit needs.\<close>

definition nonce_pad :: "bytes \<Rightarrow> nat \<Rightarrow> bytes" where
  "nonce_pad bm byteIndex =
     (if byteIndex \<ge> length bm then bm @ replicate (byteIndex - length bm + 1) 0 else bm)"

definition nonce_set_bit :: "bytes \<Rightarrow> u64 \<Rightarrow> bytes" where
  "nonce_set_bit bm k =
     (let bm' = nonce_pad bm (unat k div 8)
      in bm'[unat k div 8 := bm' ! (unat k div 8) OR nonce_bitMask k])"

text \<open>The mask without its last byte when that byte is zero.\<close>

definition nonce_trim :: "bytes \<Rightarrow> bytes" where
  "nonce_trim bs = (if last bs = 0 then butlast bs else bs)"

subsection \<open>Bits of the mask\<close>

lemma unat_7_minus: "unat (7 - (x :: u64) mod 8) = 7 - unat x mod 8"
proof -
  have "x mod 8 \<le> 7"
    by (simp add: word_le_nat_alt unat_mod)
  then show ?thesis by (simp add: unat_sub)
qed

lemma nonce_bitMask_eq: "nonce_bitMask i = push_bit (7 - unat i mod 8) 1"
  by (simp add: nonce_bitMask_def unat_7_minus)

lemma bitMask_test: "((b :: u8) AND nonce_bitMask i = 0) \<longleftrightarrow> \<not> bit b (7 - unat i mod 8)"
  by (simp add: nonce_bitMask_eq push_bit_of_1 and_exp_eq_0_iff_not_bit)

lemma bitMask_set:
  "j < 8 \<Longrightarrow> bit ((b :: u8) OR nonce_bitMask i) j \<longleftrightarrow> bit b j \<or> j = 7 - unat i mod 8"
  by (auto simp: nonce_bitMask_eq bit_or_iff push_bit_of_1 bit_exp_iff)

lemma nonce_bit_update:
  assumes "i < 8 * length bm" "unat k < 8 * length bm"
  shows "nonce_bit (bm[unat k div 8 := bm ! (unat k div 8) OR nonce_bitMask k]) i
         \<longleftrightarrow> nonce_bit bm i \<or> i = unat k"
proof (cases "i div 8 = unat k div 8")
  case True
  then have "i = unat k \<longleftrightarrow> i mod 8 = unat k mod 8"
    using div_mult_mod_eq [of i 8] div_mult_mod_eq [of "unat k" 8] by auto
  moreover have "i mod 8 < 8" "unat k mod 8 < 8" by simp_all
  ultimately have "i = unat k \<longleftrightarrow> 7 - i mod 8 = 7 - unat k mod 8"
    by linarith
  with True assms show ?thesis
    by (simp add: nonce_bit_def nth_list_update bitMask_set)
next
  case False
  then show ?thesis by (auto simp: nonce_bit_def nth_list_update)
qed

lemma nonce_bit_pad:
  "nonce_bit (bm @ replicate n 0) i \<longleftrightarrow> i < 8 * length bm \<and> nonce_bit bm i"
  if "i < 8 * (length bm + n)"
  using that by (auto simp: nonce_bit_def nth_append)

lemma length_nonce_shift [simp]: "length (nonce_shift k bs) = length bs"
  by (induction k bs rule: nonce_shift.induct) auto

lemma nonce_bit_Cons:
  "nonce_bit (b # bs) i \<longleftrightarrow> (if i < 8 then bit b (7 - i) else nonce_bit bs (i - 8))"
proof (cases "i < 8")
  case False
  then obtain j where "i = j + 8" by (metis add.commute le_Suc_ex not_le)
  then show ?thesis by (simp add: nonce_bit_def div_add_self2)
qed (simp add: nonce_bit_def)

lemma bit_shift_pair:
  fixes b c :: u8
  assumes "i < 8" "k < 8"
  shows "bit (push_bit k b OR drop_bit (8 - k) c) (7 - i)
         \<longleftrightarrow> (if i + k < 8 then bit b (7 - (i + k)) else bit c (7 - (i + k - 8)))"
proof (cases "i + k < 8")
  case True
  then have "\<not> bit c (8 - k + (7 - i))" and "k \<le> 7 - i" by (auto dest: bit_imp_le_length)
  with True assms show ?thesis
    by (auto simp: bit_or_iff bit_push_bit_iff bit_drop_bit_eq)
next
  case False
  then have "8 - k + (7 - i) = 7 - (i + k - 8)" using assms by linarith
  with False assms show ?thesis
    by (auto simp: bit_or_iff bit_push_bit_iff bit_drop_bit_eq)
qed

lemma nonce_bit_shift:
  "k < 8 \<Longrightarrow> i < 8 * length bs \<Longrightarrow>
   nonce_bit (nonce_shift k bs) i \<longleftrightarrow> i + k < 8 * length bs \<and> nonce_bit bs (i + k)"
proof (induction k bs arbitrary: i rule: nonce_shift.induct)
  case (1 k)
  then show ?case by simp
next
  case (2 k b)
  then show ?case
    by (auto simp: nonce_bit_Cons bit_push_bit_iff)
next
  case (3 k b c bs)
  show ?case
  proof (cases "i < 8")
    case True
    with 3 have "i + k - 8 < 8" by linarith
    with True 3 show ?thesis by (simp add: nonce_bit_Cons bit_shift_pair)
  next
    case False
    with 3 show ?thesis
      by (auto simp: nonce_bit_Cons [of _ "nonce_shift k (c # bs)"] nonce_bit_Cons [of b])
  qed
qed

lemma nonce_bit_drop: "k \<le> length bs \<Longrightarrow> nonce_bit (drop k bs) i \<longleftrightarrow> nonce_bit bs (i + 8 * k)"
  by (simp add: nonce_bit_def)

lemma nonce_bit_butlast: "i < 8 * (length bs - 1) \<Longrightarrow> nonce_bit (butlast bs) i \<longleftrightarrow> nonce_bit bs i"
  by (simp add: nonce_bit_def nth_butlast)

lemma all_less_8_rev: "(\<forall>j < 8. P (j::nat)) \<longleftrightarrow> (\<forall>i < 8. P (7 - i))"
proof (intro iffI allI impI)
  fix i :: nat assume "\<forall>j < 8. P j" "i < 8"
  moreover have "7 - i < 8" by linarith
  ultimately show "P (7 - i)" by blast
next
  fix j :: nat assume "\<forall>i < 8. P (7 - i)" "j < 8"
  moreover have "7 - j < 8" by linarith
  ultimately have "P (7 - (7 - j))" by blast
  moreover have "7 - (7 - j) = j" using \<open>j < 8\<close> by linarith
  ultimately show "P j" by simp
qed

lemma byte_zero_iff: "bs \<noteq> [] \<Longrightarrow>
  last bs = 0 \<longleftrightarrow> (\<forall>i < 8. \<not> nonce_bit bs (8 * (length bs - 1) + i))"
proof -
  assume ne: "bs \<noteq> []"
  have "last bs = 0 \<longleftrightarrow> (\<forall>j < 8. \<not> bit (last bs) j)"
    using bit_word_eqI [of "last bs" 0] by auto
  also have "\<dots> \<longleftrightarrow> (\<forall>i < 8. \<not> bit (last bs) (7 - i))"
    by (rule all_less_8_rev)
  also have "\<dots> \<longleftrightarrow> (\<forall>i < 8. \<not> nonce_bit bs (8 * (length bs - 1) + i))"
    using ne by (simp add: nonce_bit_def last_conv_nth)
  finally show ?thesis .
qed

subsection \<open>Window arithmetic\<close>

lemma unat_window_end:
  assumes "window_fits s maxLength"
  shows "unat (nsStart s + maxLength) = unat (nsStart s) + unat maxLength"
  using assms by (intro unat_add_no_wrap) (simp add: window_fits_def)

lemma unat_length_end:
  assumes "NonceSet_wf s"
  shows "unat (nsStart s + ucast (nsLength s)) = unat (nsStart s) + unat (nsLength s)"
  using assms by (subst unat_add_no_wrap) (simp_all add: NonceSet_wf_def)

lemma unat_NextNonce: "NonceSet_wf s \<Longrightarrow> unat (NonceSet_NextNonce s) = unat (nsStart s) + unat (nsLength s)"
  by (simp add: NonceSet_NextNonce_def unat_length_end)

lemma used_window: "n \<in> used s \<Longrightarrow> unat (nsStart s) \<le> n \<and> n < unat (nsStart s) + unat (nsLength s)"
  by (simp add: used_def)

lemma finite_used [simp]: "finite (used s)"
  by (rule finite_subset [of _ "{..< unat (nsStart s) + unat (nsLength s)}"]) (auto simp: used_def)

text \<open>The mask alone decides membership on a well-formed set: bits past the length are clear.\<close>

lemma used_iff_bit:
  assumes "NonceSet_wf s" "i < 8 * length (nsBitMask s)"
  shows "unat (nsStart s) + i \<in> used s \<longleftrightarrow> nonce_bit (nsBitMask s) i"
  using assms by (auto simp: used_def NonceSet_wf_def)

lemma used_bit:
  assumes "NonceSet_wf s"
  shows "unat (nsStart s) + i \<in> used s \<longleftrightarrow> i < 8 * length (nsBitMask s) \<and> nonce_bit (nsBitMask s) i"
proof (cases "i < 8 * length (nsBitMask s)")
  case False
  with assms show ?thesis by (auto simp: used_def NonceSet_wf_def)
qed (simp add: used_iff_bit assms)

subsection \<open>Add\<close>

lemma length_nonce_pad: "length (nonce_pad bm j) = max (length bm) (j + 1)"
  by (simp add: nonce_pad_def)

lemma nonce_pad_covers: "k < 8 * length (nonce_pad bm (k div 8))"
proof -
  have "k < 8 * (k div 8 + 1)" by (simp add: dividend_less_times_div)
  also have "\<dots> \<le> 8 * length (nonce_pad bm (k div 8))"
    unfolding length_nonce_pad by (intro mult_le_mono) simp_all
  finally show ?thesis .
qed

lemma nonce_bit_nonce_pad:
  "i < 8 * length (nonce_pad bm j) \<Longrightarrow>
   nonce_bit (nonce_pad bm j) i \<longleftrightarrow> i < 8 * length bm \<and> nonce_bit bm i"
  using nonce_bit_pad [of i bm "j - length bm + 1"]
  by (cases "length bm \<le> j") (simp_all add: nonce_pad_def del: replicate_Suc)

lemma length_nonce_set_bit: "length (nonce_set_bit bm k) = max (length bm) (unat k div 8 + 1)"
  by (simp add: nonce_set_bit_def length_nonce_pad Let_def)

lemma nonce_bit_nonce_set_bit:
  assumes "i < 8 * length (nonce_set_bit bm k)"
  shows "nonce_bit (nonce_set_bit bm k) i \<longleftrightarrow> (i < 8 * length bm \<and> nonce_bit bm i) \<or> i = unat k"
proof -
  let ?p = "nonce_pad bm (unat k div 8)"
  have "unat k < 8 * length ?p" by (rule nonce_pad_covers)
  moreover have "i < 8 * length ?p"
    using assms by (simp add: length_nonce_set_bit length_nonce_pad)
  ultimately show ?thesis
    by (simp add: nonce_set_bit_def Let_def nonce_bit_update nonce_bit_nonce_pad)
qed

text \<open>The accepting branch of \<^verbatim>\<open>Add\<close>, over natural numbers.\<close>

lemma NonceSet_Add_accept:
  assumes wf: "NonceSet_wf s" and fits: "window_fits s maxLength"
    and low: "nsStart s \<le> nonce" and high: "nonce < nsStart s + maxLength"
  defines "k \<equiv> nonce - nsStart s"
  obtains s' where
    "NonceSet_Add s nonce maxLength = (None, unat nonce \<notin> used s, s')"
    "nsStart s' = nsStart s" "nsBitMask s' = nonce_set_bit (nsBitMask s) k"
    "unat (nsLength s') = max (unat k + 1) (unat (nsLength s))"
    "unat nonce = unat (nsStart s) + unat k" "unat (nsStart s) + unat k + 1 < 2 ^ 64"
proof -
  have k: "unat nonce = unat (nsStart s) + unat k"
    using low by (simp add: k_def unat_sub word_le_nat_alt)
  have kmax: "unat k < unat maxLength"
    using high k by (simp add: word_less_nat_alt unat_window_end [OF fits])
  then have kbound: "unat k + 1 < 2 ^ 32" "unat (nsStart s) + unat k + 1 < 2 ^ 64"
    using fits by (auto simp: window_fits_def)
  have k1: "unat (k + 1) = unat k + 1"
    using kbound by (subst unat_add_no_wrap) simp_all
  have bit: "(nonce_pad (nsBitMask s) (unat k div 8) ! (unat k div 8) AND nonce_bitMask k = 0)
      \<longleftrightarrow> unat nonce \<notin> used s" (is "?lhs \<longleftrightarrow> ?rhs")
  proof -
    have "?lhs \<longleftrightarrow> \<not> nonce_bit (nonce_pad (nsBitMask s) (unat k div 8)) (unat k)"
      by (simp add: bitMask_test nonce_bit_def)
    also have "\<dots> \<longleftrightarrow> \<not> (unat k < 8 * length (nsBitMask s) \<and> nonce_bit (nsBitMask s) (unat k))"
      by (subst nonce_bit_nonce_pad) (simp_all add: nonce_pad_covers)
    finally show ?thesis by (simp add: k used_bit [OF wf])
  qed
  show ?thesis
  proof (rule that)
    show "NonceSet_Add s nonce maxLength = (None, unat nonce \<notin> used s,
      s\<lparr>nsBitMask := nonce_set_bit (nsBitMask s) k,
        nsLength := (if k + 1 > ucast (nsLength s) then ucast (k + 1) else nsLength s)\<rparr>)"
      using low high
      by (simp add: NonceSet_Add_def Let_def k_def [symmetric] nonce_set_bit_def
          nonce_pad_def [symmetric] bit not_less not_le)
  qed (use k kbound k1 in \<open>auto simp: word_less_nat_alt unat_ucast_u64_u32\<close>)
qed

lemma NonceSet_wf_set_bit:
  assumes wf: "NonceSet_wf s" and start: "nsStart s' = nsStart s"
    and bm: "nsBitMask s' = nonce_set_bit (nsBitMask s) k"
    and len: "unat (nsLength s') = max (unat k + 1) (unat (nsLength s))"
    and bound: "unat (nsStart s) + unat k + 1 < 2 ^ 64"
  shows "NonceSet_wf s'"
proof -
  let ?L = "unat (nsLength s)" and ?L' = "unat (nsLength s')"
  have l: "length (nsBitMask s) = (?L + 7) div 8" using wf by (simp add: NonceSet_wf_def)
  have l': "length (nsBitMask s') = (?L' + 7) div 8"
    unfolding bm length_nonce_set_bit l len by (simp add: max_def) linarith
  have bits: "nonce_bit (nsBitMask s') i \<longleftrightarrow> i < 8 * length (nsBitMask s) \<and> nonce_bit (nsBitMask s) i \<or> i = unat k"
    if "i < 8 * length (nsBitMask s')" for i
    using that unfolding bm by (rule nonce_bit_nonce_set_bit)
  have "\<not> nonce_bit (nsBitMask s') i" if "i < 8 * length (nsBitMask s')" "?L' \<le> i" for i
    using that bits [OF that(1)] wf len by (auto simp: NonceSet_wf_def)
  moreover have "nonce_bit (nsBitMask s') (?L' - 1)"
  proof -
    have "?L' - 1 < 8 * length (nsBitMask s')" using l' len by linarith
    from bits [OF this] show ?thesis
      using wf len l by (cases "?L \<le> unat k + 1") (auto simp: NonceSet_wf_def max_def)
  qed
  moreover have "unat (nsStart s') + ?L' < 2 ^ 64"
    using wf bound by (auto simp: start len NonceSet_wf_def max_def)
  ultimately show ?thesis using l' by (simp add: NonceSet_wf_def)
qed

lemma used_set_bit:
  assumes wf: "NonceSet_wf s" and wf': "NonceSet_wf s'" and start: "nsStart s' = nsStart s"
    and bm: "nsBitMask s' = nonce_set_bit (nsBitMask s) k"
  shows "used s' = insert (unat (nsStart s) + unat k) (used s)"
proof (rule set_eqI)
  fix n
  show "n \<in> used s' \<longleftrightarrow> n \<in> insert (unat (nsStart s) + unat k) (used s)"
  proof (cases "unat (nsStart s) \<le> n")
    case True
    then obtain i where n: "n = unat (nsStart s) + i" by (metis le_Suc_ex)
    have sub: "8 * length (nsBitMask s) \<le> 8 * length (nsBitMask s')"
      by (simp add: bm length_nonce_set_bit)
    have "unat k < 8 * length (nsBitMask s')"
      using nonce_pad_covers [of "unat k" "nsBitMask s"]
      by (simp add: bm length_nonce_set_bit length_nonce_pad)
    then show ?thesis
      unfolding n using used_bit [OF wf, of i] used_bit [OF wf', of i] sub
        nonce_bit_nonce_set_bit [of i "nsBitMask s" k]
      by (auto simp: start bm)
  next
    case False
    then show ?thesis by (auto simp: used_def start)
  qed
qed

lemma NonceSet_Add_spec:
  assumes wf: "NonceSet_wf s" and fits: "window_fits s maxLength"
    and "nsStart s \<le> nonce" "nonce < nsStart s + maxLength"
  obtains s' where "NonceSet_Add s nonce maxLength = (None, unat nonce \<notin> used s, s')"
    "NonceSet_wf s'" "nsStart s' = nsStart s" "used s' = insert (unat nonce) (used s)"
proof -
  obtain s' where s': "NonceSet_Add s nonce maxLength = (None, unat nonce \<notin> used s, s')"
    "nsStart s' = nsStart s" "nsBitMask s' = nonce_set_bit (nsBitMask s) (nonce - nsStart s)"
    "unat (nsLength s') = max (unat (nonce - nsStart s) + 1) (unat (nsLength s))"
    "unat nonce = unat (nsStart s) + unat (nonce - nsStart s)"
    "unat (nsStart s) + unat (nonce - nsStart s) + 1 < 2 ^ 64"
    using NonceSet_Add_accept [OF assms] by metis
  then have wf': "NonceSet_wf s'" by (intro NonceSet_wf_set_bit [OF wf])
  show ?thesis
    by (rule that [OF s'(1) wf' s'(2)]) (use used_set_bit [OF wf wf' s'(2,3)] s'(5) in simp)
qed

subsection \<open>Search\<close>

lemma NonceSet_Search_spec:
  assumes wf: "NonceSet_wf s" and fits: "window_fits s maxLength"
  shows "NonceSet_Search s nonce maxLength = Some
     (if unat nonce < unat (nsStart s) then NotAllowedTooOld
      else if unat nonce \<ge> unat (nsStart s) + unat maxLength then NotAllowedTooNew
      else if unat nonce \<in> used s then Contained else NotContainedAndAllowed)"
proof -
  let ?k = "nonce - nsStart s"
  note ends = unat_window_end [OF fits] unat_length_end [OF wf]
  show ?thesis
  proof (cases "nsStart s \<le> nonce \<and> nonce < nsStart s + ucast (nsLength s)")
    case True
    then have k: "unat nonce = unat (nsStart s) + unat ?k"
      by (simp add: unat_sub word_le_nat_alt)
    have "unat ?k < unat (nsLength s)"
      using True by (simp add: word_less_nat_alt ends k)
    then have len: "unat ?k < 8 * length (nsBitMask s)" "unat ?k div 8 < length (nsBitMask s)"
      using wf by (auto simp: NonceSet_wf_def)
    have "nsBitMask s ! (unat ?k div 8) AND nonce_bitMask ?k > 0 \<longleftrightarrow> unat nonce \<in> used s"
      using len by (simp add: word_neq_0_conv [symmetric] bitMask_test k used_bit [OF wf] nonce_bit_def)
    with True len show ?thesis
      by (auto simp: NonceSet_Search_def Let_def word_less_nat_alt word_le_nat_alt ends)
  next
    case False
    then have "unat nonce \<notin> used s"
      by (auto simp: word_less_nat_alt word_le_nat_alt ends dest: used_window)
    with False show ?thesis
      by (auto simp: NonceSet_Search_def word_less_nat_alt word_le_nat_alt ends)
  qed
qed

subsection \<open>Reset\<close>

lemma nonce_bit_shift_drop:
  assumes "lb \<le> length bm" "r < 8" "i < 8 * (length bm - lb)"
  shows "nonce_bit (nonce_shift r (drop lb bm)) i
         \<longleftrightarrow> i + (8 * lb + r) < 8 * length bm \<and> nonce_bit bm (i + (8 * lb + r))"
  using assms by (auto simp: nonce_bit_shift nonce_bit_drop algebra_simps)

lemma nonce_trim_spec:
  assumes ne: "bs \<noteq> []" and clear: "\<And>i. i < 8 * length bs \<Longrightarrow> L \<le> i \<Longrightarrow> \<not> nonce_bit bs i"
    and top: "0 < L" "nonce_bit bs (L - 1)" "L \<le> 8 * length bs" "8 * length bs < L + 16"
  shows "length (nonce_trim bs) = (L + 7) div 8"
    and "i < 8 * length (nonce_trim bs) \<Longrightarrow> nonce_bit (nonce_trim bs) i \<longleftrightarrow> nonce_bit bs i"
proof -
  have n: "0 < length bs" using ne by simp
  have last: "last bs = 0 \<longleftrightarrow> L \<le> 8 * (length bs - 1)"
  proof
    assume z: "last bs = 0"
    define j where "j = L - 1 - 8 * (length bs - 1)"
    have "j < 8" unfolding j_def using top n by linarith
    with z have "\<not> nonce_bit bs (8 * (length bs - 1) + j)" by (simp add: byte_zero_iff [OF ne])
    then have "L - 1 \<noteq> 8 * (length bs - 1) + j" using top by metis
    then show "L \<le> 8 * (length bs - 1)" unfolding j_def using top by linarith
  next
    assume L: "L \<le> 8 * (length bs - 1)"
    have "\<not> nonce_bit bs (8 * (length bs - 1) + i)" if "i < 8" for i
      by (rule clear) (use L n that in linarith)+
    then show "last bs = 0" by (simp add: byte_zero_iff [OF ne])
  qed
  show "length (nonce_trim bs) = (L + 7) div 8"
    using top ne unfolding nonce_trim_def last by auto
  show "i < 8 * length (nonce_trim bs) \<Longrightarrow> nonce_bit (nonce_trim bs) i \<longleftrightarrow> nonce_bit bs i"
    by (auto simp: nonce_trim_def nonce_bit_butlast split: if_splits)
qed

lemma NonceSet_Reset_accept:
  assumes wf: "NonceSet_wf s" and low: "nsStart s < start"
    and high: "start < nsStart s + ucast (nsLength s)"
  defines "k \<equiv> start - nsStart s"
  defines "bs \<equiv> nonce_shift (unat k mod 8) (drop (unat k div 8) (nsBitMask s))"
  obtains s' where "NonceSet_Reset s start = Some (None, True, s')"
    "nsStart s' = start" "nsBitMask s' = nonce_trim bs"
    "unat (nsLength s') = unat (nsLength s) - unat k" "unat k < unat (nsLength s)"
    "unat start = unat (nsStart s) + unat k" "bs \<noteq> []" "unat k div 8 \<le> length (nsBitMask s)"
proof -
  have k: "unat start = unat (nsStart s) + unat k"
    using low by (simp add: k_def unat_sub word_le_nat_alt word_less_nat_alt)
  have kL: "unat k < unat (nsLength s)"
    using high by (simp add: word_less_nat_alt unat_length_end [OF wf] k)
  then have k32: "unat (ucast k :: u32) = unat k"
    by (intro unat_ucast_u64_u32) (simp add: less_trans [OF _ unat_u32_bound])
  have "unat k div 8 < length (nsBitMask s)"
    using wf kL by (auto simp: NonceSet_wf_def)
  then have len: "bs \<noteq> []" "\<not> unat k div 8 > length (nsBitMask s)" "unat k div 8 \<le> length (nsBitMask s)"
    by (auto simp: bs_def simp flip: length_greater_0_conv)
  have "unat (nsLength s - ucast k) = unat (nsLength s) - unat k"
    using kL k32 by (subst unat_sub) (auto simp: word_le_nat_alt)
  moreover have "NonceSet_Reset s start = Some (None, True,
      s\<lparr>nsStart := start, nsBitMask := nonce_trim bs, nsLength := nsLength s - ucast k\<rparr>)"
    using low high len
    by (auto simp: NonceSet_Reset_def Let_def k_def [symmetric] bs_def [symmetric] nonce_trim_def)
  ultimately show ?thesis using k kL len by (intro that) auto
qed

lemma used_shifted:
  assumes wf: "NonceSet_wf s" and wf': "NonceSet_wf s'"
    and start: "unat (nsStart s') = unat (nsStart s) + k"
    and len: "unat (nsLength s') = unat (nsLength s) - k"
    and bits: "\<And>i. i < 8 * length (nsBitMask s') \<Longrightarrow>
      nonce_bit (nsBitMask s') i \<longleftrightarrow> i + k < 8 * length (nsBitMask s) \<and> nonce_bit (nsBitMask s) (i + k)"
  shows "used s' = {n \<in> used s. unat (nsStart s') \<le> n}"
proof (rule set_eqI)
  fix n
  show "n \<in> used s' \<longleftrightarrow> n \<in> {n \<in> used s. unat (nsStart s') \<le> n}"
  proof (cases "unat (nsStart s') \<le> n \<and> n < unat (nsStart s') + unat (nsLength s')")
    case True
    then obtain i where n: "n = unat (nsStart s') + i" and i: "i < unat (nsLength s')"
      by (metis le_Suc_ex nat_add_left_cancel_less)
    then have "i < 8 * length (nsBitMask s')" using wf' by (simp add: NonceSet_wf_def)
    with i bits [of i] show ?thesis
      unfolding n using used_bit [OF wf, of "i + k"] used_bit [OF wf', of i]
      by (simp add: start ac_simps)
  next
    case False
    then show ?thesis using start len by (auto simp: used_def)
  qed
qed

lemma NonceSet_Reset_within:
  assumes wf: "NonceSet_wf s" and low: "nsStart s < start"
    and high: "start < nsStart s + ucast (nsLength s)"
  obtains s' where "NonceSet_Reset s start = Some (None, True, s')" "NonceSet_wf s'"
    "nsStart s' = start" "used s' = {n \<in> used s. unat start \<le> n}"
proof -
  define k where "k = start - nsStart s"
  define bs where "bs = nonce_shift (unat k mod 8) (drop (unat k div 8) (nsBitMask s))"
  obtain s' where s': "NonceSet_Reset s start = Some (None, True, s')"
    "nsStart s' = start" "nsBitMask s' = nonce_trim bs"
    "unat (nsLength s') = unat (nsLength s) - unat k" "unat k < unat (nsLength s)"
    "unat start = unat (nsStart s) + unat k" "bs \<noteq> []" "unat k div 8 \<le> length (nsBitMask s)"
    unfolding bs_def k_def using NonceSet_Reset_accept [OF assms] by metis
  let ?L = "unat (nsLength s)" and ?L' = "unat (nsLength s')" and ?m = "length (nsBitMask s)"
  have m: "?m = (?L + 7) div 8" using wf by (simp add: NonceSet_wf_def)
  have lbs: "length bs = ?m - unat k div 8" by (simp add: bs_def)
  have bits: "nonce_bit bs i \<longleftrightarrow> i + unat k < 8 * ?m \<and> nonce_bit (nsBitMask s) (i + unat k)"
    if "i < 8 * length bs" for i
    using nonce_bit_shift_drop [OF s'(8), of "unat k mod 8" i] that lbs
    by (simp add: bs_def)
  have top: "8 * length bs < ?L' + 16" "?L' \<le> 8 * length bs" "0 < ?L'"
    using s'(4,5,8) lbs m by linarith+
  have clear: "\<not> nonce_bit bs i" if "i < 8 * length bs" "?L' \<le> i" for i
    using bits [OF that(1)] that(2) s'(4,5) wf by (auto simp: NonceSet_wf_def)
  have "?L' - 1 + unat k = ?L - 1" using s'(4,5) by linarith
  then have last: "nonce_bit bs (?L' - 1)"
    using wf s'(5) top by (subst bits) (auto simp: NonceSet_wf_def)
  note trim = nonce_trim_spec [OF s'(7) clear top(3) last top(2,1)]
  have len_le: "length (nonce_trim bs) \<le> length bs" by (simp add: nonce_trim_def)
  have bits': "nonce_bit (nsBitMask s') i \<longleftrightarrow> i + unat k < 8 * ?m \<and> nonce_bit (nsBitMask s) (i + unat k)"
    if "i < 8 * length (nsBitMask s')" for i
    using that len_le trim(2) [of i] bits [of i] by (simp add: s'(3))
  have "?L' - 1 < 8 * length (nsBitMask s')" using top(3) by (simp add: s'(3) trim(1))
  then have "nonce_bit (nsBitMask s') (?L' - 1)" using last trim(2) by (simp add: s'(3))
  moreover have "\<not> nonce_bit (nsBitMask s') i" if "i < 8 * length (nsBitMask s')" "?L' \<le> i" for i
    using that len_le trim(2) clear [of i] by (simp add: s'(3))
  moreover have "unat (nsStart s') + ?L' < 2 ^ 64"
    using wf s'(2,4,5,6) by (simp add: NonceSet_wf_def)
  ultimately have wf': "NonceSet_wf s'"
    using trim(1) by (simp add: NonceSet_wf_def s'(3))
  show ?thesis
    by (rule that [OF s'(1) wf' s'(2)])
      (use used_shifted [OF wf wf' _ s'(4) bits'] s'(2,6) in simp)
qed

lemma NonceSet_Reset_spec:
  assumes wf: "NonceSet_wf s" and low: "nsStart s \<le> start"
  obtains s' where "NonceSet_Reset s start = Some (None, start \<noteq> nsStart s, s')" "NonceSet_wf s'"
    "nsStart s' = start" "used s' = {n \<in> used s. unat start \<le> n}"
proof -
  consider "start = nsStart s" | "nsStart s < start" "start < nsStart s + ucast (nsLength s)"
    | "nsStart s < start" "nsStart s + ucast (nsLength s) \<le> start"
    using low by fastforce
  then show ?thesis
  proof cases
    case 1
    with wf show ?thesis
      by (intro that [of s]) (auto simp: NonceSet_Reset_def used_def)
  next
    case 2
    then obtain s' where "NonceSet_Reset s start = Some (None, True, s')" "NonceSet_wf s'"
      "nsStart s' = start" "used s' = {n \<in> used s. unat start \<le> n}"
      by (rule NonceSet_Reset_within [OF wf])
    with 2 show ?thesis by (intro that) auto
  next
    case 3
    let ?s' = "s\<lparr>nsStart := start, nsBitMask := [], nsLength := 0\<rparr>"
    have "unat (nsStart s) + unat (nsLength s) \<le> unat start"
      using 3(2) by (simp add: word_le_nat_alt unat_length_end [OF wf])
    then have "used ?s' = {n \<in> used s. unat start \<le> n}" by (auto simp: used_def)
    moreover have "NonceSet_wf ?s'" by (simp add: NonceSet_wf_def)
    ultimately show ?thesis
      using 3 by (intro that [of ?s']) (auto simp: NonceSet_Reset_def)
  qed
qed

section \<open>The interface: a nonce is accepted at most once\<close>

text \<open>
  What the executor and the package check rely on: a guard that knows the used nonces of an
  account, offers a test, records an accepted nonce and may advance its window. The laws say
  that a nonce below the window start or recorded before is never accepted, that recording keeps
  everything recorded, and that advancing forgets only what falls below the new start.
\<close>

datatype 'n guard_event = Accept 'n | Advance 'n

primrec guard_run ::
  "('s \<Rightarrow> 'n \<Rightarrow> bool) \<Rightarrow> ('s \<Rightarrow> 'n \<Rightarrow> 's) \<Rightarrow> ('s \<Rightarrow> 'n \<Rightarrow> 's) \<Rightarrow> 's \<Rightarrow> 'n guard_event list \<Rightarrow> 's option" where
  "guard_run accepts record_nonce advance s [] = Some s"
| "guard_run accepts record_nonce advance s (e # es) =
     (case e of
        Accept n \<Rightarrow> (if accepts s n then guard_run accepts record_nonce advance (record_nonce s n) es else None)
      | Advance n \<Rightarrow> guard_run accepts record_nonce advance (advance s n) es)"

fun accepted :: "'n guard_event list \<Rightarrow> 'n list" where
  "accepted [] = []"
| "accepted (Accept n # es) = n # accepted es"
| "accepted (Advance n # es) = accepted es"

definition nonce_accepts :: "u32 \<Rightarrow> NonceSet \<Rightarrow> u64 \<Rightarrow> bool" where
  "nonce_accepts m s n \<longleftrightarrow> NonceSet_Search s n (ucast m) = Some NotContainedAndAllowed"

definition nonce_record :: "u32 \<Rightarrow> NonceSet \<Rightarrow> u64 \<Rightarrow> NonceSet" where
  "nonce_record m s n = snd (snd (NonceSet_Add s n (ucast m)))"

definition nonce_advance :: "NonceSet \<Rightarrow> u64 \<Rightarrow> NonceSet" where
  "nonce_advance s n = (case NonceSet_Reset s n of Some (_, _, s') \<Rightarrow> s' | None \<Rightarrow> s)"

lemma set_accepted: "n \<in> set (accepted es) \<longleftrightarrow> Accept n \<in> set es"
  by (induction es rule: accepted.induct) auto

locale replay_guard =
  fixes inv :: "'s \<Rightarrow> bool"
    and start :: "'s \<Rightarrow> nat"
    and seen :: "'s \<Rightarrow> nat set"
    and accepts :: "'s \<Rightarrow> 'n \<Rightarrow> bool"
    and record_nonce :: "'s \<Rightarrow> 'n \<Rightarrow> 's"
    and advance :: "'s \<Rightarrow> 'n \<Rightarrow> 's"
    and num :: "'n \<Rightarrow> nat"
  assumes accepts_fresh: "inv s \<Longrightarrow> accepts s n \<Longrightarrow> start s \<le> num n \<and> num n \<notin> seen s"
    and record_inv: "inv s \<Longrightarrow> accepts s n \<Longrightarrow> inv (record_nonce s n)"
    and record_start: "inv s \<Longrightarrow> accepts s n \<Longrightarrow> start (record_nonce s n) = start s"
    and record_seen: "inv s \<Longrightarrow> accepts s n \<Longrightarrow> seen (record_nonce s n) = insert (num n) (seen s)"
    and advance_inv: "inv s \<Longrightarrow> inv (advance s n)"
    and advance_start: "inv s \<Longrightarrow> start s \<le> start (advance s n)"
    and advance_seen: "inv s \<Longrightarrow> seen (advance s n) = {m \<in> seen s. start (advance s n) \<le> m}"
begin

definition spent :: "'s \<Rightarrow> nat \<Rightarrow> bool" where
  "spent s m \<longleftrightarrow> m < start s \<or> m \<in> seen s"

lemma spent_record: "inv s \<Longrightarrow> accepts s n \<Longrightarrow> spent (record_nonce s n) m \<longleftrightarrow> spent s m \<or> m = num n"
  by (auto simp: spent_def record_start record_seen)

lemma spent_advance: "inv s \<Longrightarrow> spent s m \<Longrightarrow> spent (advance s n) m"
  using advance_start [of s n] by (auto simp: spent_def advance_seen)

lemma accepts_not_spent: "inv s \<Longrightarrow> accepts s n \<Longrightarrow> \<not> spent s (num n)"
  using accepts_fresh [of s n] by (auto simp: spent_def)

lemma run_spent_not_accepted:
  "guard_run accepts record_nonce advance s es = Some t \<Longrightarrow> inv s \<Longrightarrow> spent s (num n) \<Longrightarrow>
   Accept n \<notin> set es"
proof (induction es arbitrary: s)
  case (Cons e es)
  show ?case
  proof (cases e)
    case (Accept k)
    with Cons.prems have run: "accepts s k"
      "guard_run accepts record_nonce advance (record_nonce s k) es = Some t"
      by (auto split: if_splits)
    with Cons.prems have "Accept n \<notin> set es"
      by (intro Cons.IH [OF run(2)]) (auto simp: record_inv spent_record)
    moreover have "k \<noteq> n" using run(1) Cons.prems accepts_not_spent by blast
    ultimately show ?thesis using Accept by simp
  next
    case (Advance k)
    with Cons.prems have "Accept n \<notin> set es"
      by (intro Cons.IH [of "advance s k"]) (auto simp: advance_inv spent_advance)
    then show ?thesis using Advance by simp
  qed
qed simp

lemma run_no_replay:
  "guard_run accepts record_nonce advance s es = Some t \<Longrightarrow> inv s \<Longrightarrow> distinct (accepted es)"
proof (induction es arbitrary: s)
  case (Cons e es)
  show ?case
  proof (cases e)
    case (Accept n)
    with Cons.prems have run: "accepts s n" "guard_run accepts record_nonce advance (record_nonce s n) es = Some t"
      by (auto split: if_splits)
    with Cons.prems have "Accept n \<notin> set es"
      by (intro run_spent_not_accepted [OF run(2)]) (auto simp: record_inv spent_record)
    with Accept run Cons show ?thesis by (auto simp: record_inv set_accepted)
  next
    case (Advance n)
    with Cons show ?thesis by (auto simp: advance_inv)
  qed
qed simp

end

text \<open>
  The code's use of a nonce set (\<^verbatim>\<open>Search\<close> before \<^verbatim>\<open>Add\<close>, and \<^verbatim>\<open>Reset\<close>) is such a guard, for
  every window length that fits 32 bits. No assumption on the start is needed: where
  \<^verbatim>\<open>Start+maxLength\<close> wraps around, \<^verbatim>\<open>Search\<close> accepts nothing.
\<close>

lemma Search_accepts_fits:
  assumes "NonceSet_Search s n maxLength = Some NotContainedAndAllowed" "unat maxLength < 2 ^ 32"
  shows "window_fits s maxLength" "nsStart s \<le> n" "n < nsStart s + maxLength"
proof -
  from assms show b: "nsStart s \<le> n" "n < nsStart s + maxLength"
    by (auto simp: NonceSet_Search_def split: if_splits)
  then have "nsStart s < nsStart s + maxLength" by (rule le_less_trans)
  then have "unat (nsStart s) + unat maxLength < 2 ^ 64"
    using no_wrap_if_less_add [of "nsStart s" maxLength] by simp
  with assms show "window_fits s maxLength" by (simp add: window_fits_def)
qed

lemma nonce_record_spec:
  assumes "NonceSet_wf s" "nonce_accepts m s n"
  shows "NonceSet_wf (nonce_record m s n) \<and> nsStart (nonce_record m s n) = nsStart s
       \<and> used (nonce_record m s n) = insert (unat n) (used s)"
proof -
  have "NonceSet_Search s n (ucast m) = Some NotContainedAndAllowed"
    using assms by (simp add: nonce_accepts_def)
  note fits = Search_accepts_fits [OF this]
  obtain s' where "NonceSet_Add s n (ucast m) = (None, unat n \<notin> used s, s')"
    "NonceSet_wf s'" "nsStart s' = nsStart s" "used s' = insert (unat n) (used s)"
    by (rule NonceSet_Add_spec [OF assms(1) fits]) simp_all
  then show ?thesis by (simp add: nonce_record_def)
qed

lemma nonce_advance_spec:
  assumes "NonceSet_wf s"
  shows "NonceSet_wf (nonce_advance s n) \<and> nsStart s \<le> nsStart (nonce_advance s n)
       \<and> used (nonce_advance s n) = {m \<in> used s. unat (nsStart (nonce_advance s n)) \<le> m}"
proof (cases "nsStart s \<le> n")
  case True
  then obtain s' where "NonceSet_Reset s n = Some (None, n \<noteq> nsStart s, s')" "NonceSet_wf s'"
    "nsStart s' = n" "used s' = {m \<in> used s. unat n \<le> m}"
    by (rule NonceSet_Reset_spec [OF assms])
  with True show ?thesis by (simp add: nonce_advance_def)
next
  case False
  then show ?thesis using assms
    by (auto simp: nonce_advance_def NonceSet_Reset_def dest: used_window)
qed

interpretation nonce_guard: replay_guard NonceSet_wf "\<lambda>s. unat (nsStart s)" used
  "nonce_accepts m" "nonce_record m" nonce_advance unat for m
proof unfold_locales
  fix s n assume wf: "NonceSet_wf s"
  show "NonceSet_wf (nonce_advance s n)"
    "unat (nsStart s) \<le> unat (nsStart (nonce_advance s n))"
    "used (nonce_advance s n) = {m \<in> used s. unat (nsStart (nonce_advance s n)) \<le> m}"
    using nonce_advance_spec [OF wf, of n] by (simp_all add: word_le_nat_alt)
  assume acc: "nonce_accepts m s n"
  note rec = nonce_record_spec [OF wf acc]
  from rec show "NonceSet_wf (nonce_record m s n)" by blast
  from rec show "unat (nsStart (nonce_record m s n)) = unat (nsStart s)" by simp
  from rec show "used (nonce_record m s n) = insert (unat n) (used s)" by blast
  have s: "NonceSet_Search s n (ucast m) = Some NotContainedAndAllowed"
    using acc by (simp add: nonce_accepts_def)
  have "unat (ucast m :: u64) < 2 ^ 32" by simp
  from NonceSet_Search_spec [OF wf Search_accepts_fits(1) [OF s this], of n] s
  show "unat (nsStart s) \<le> unat n \<and> unat n \<notin> used s"
    by (simp split: if_splits)
qed

section \<open>Properties\<close>

text \<open>C1. \<^verbatim>\<open>Add\<close> implements insertion into the set of used nonces: on a well-formed set it
  refuses exactly the nonces below the window (\<^verbatim>\<open>ErrorNonceTooLowInNonceSet\<close>) and the ones at
  or past its end (\<^verbatim>\<open>ErrorNonceOverFlow\<close>), leaving the set alone; every other nonce is
  inserted, the flag it returns says whether it is new, and the result is well formed again
  with the same start.\<close>

theorem NonceSet_Add_refines:
  assumes "NonceSet_wf s" and "window_fits s maxLength"
  shows "case NonceSet_Add s nonce maxLength of (err, changed, s') \<Rightarrow>
     if unat nonce < unat (nsStart s)
     then err = Some ErrorNonceTooLowInNonceSet \<and> \<not> changed \<and> s' = s
     else if unat (nsStart s) + unat maxLength \<le> unat nonce
     then err = Some ErrorNonceOverFlow \<and> \<not> changed \<and> s' = s
     else err = None \<and> (changed \<longleftrightarrow> unat nonce \<notin> used s) \<and> NonceSet_wf s'
        \<and> nsStart s' = nsStart s \<and> used s' = insert (unat nonce) (used s)"
proof (cases "nsStart s \<le> nonce \<and> nonce < nsStart s + maxLength")
  case True
  then obtain s' where "NonceSet_Add s nonce maxLength = (None, unat nonce \<notin> used s, s')"
    "NonceSet_wf s'" "nsStart s' = nsStart s" "used s' = insert (unat nonce) (used s)"
    using NonceSet_Add_spec [OF assms] by metis
  with True show ?thesis
    by (simp add: word_less_nat_alt word_le_nat_alt unat_window_end [OF assms(2)])
next
  case False
  then show ?thesis
    by (auto simp: NonceSet_Add_def word_less_nat_alt word_le_nat_alt unat_window_end [OF assms(2)])
qed

text \<open>A set that starts at 5 and holds 5, 7 and 13.\<close>

definition nonce_sample :: NonceSet where
  "nonce_sample = \<lparr>nsStart = 5, nsBitMask = [160, 128], nsLength = 9\<rparr>"

lemma nonce_sample_wf: "NonceSet_wf nonce_sample"
proof -
  have "\<forall>i < 16. 9 \<le> i \<longrightarrow> \<not> nonce_bit [160, 128] i" "nonce_bit [160, 128] 8"
    by code_simp+
  then show ?thesis by (simp add: NonceSet_wf_def nonce_sample_def)
qed

lemma nonce_sample_fits: "window_fits nonce_sample 1024" by (simp add: window_fits_def nonce_sample_def)

theorem NonceSet_Add_refines_witness:
  "used (snd (snd (NonceSet_Add nonce_sample 30 1024))) = insert 30 (used nonce_sample)
   \<and> NonceSet_Add nonce_sample 4 1024 = (Some ErrorNonceTooLowInNonceSet, False, nonce_sample)"
  using NonceSet_Add_refines [OF nonce_sample_wf nonce_sample_fits, of 30]
    NonceSet_Add_refines [OF nonce_sample_wf nonce_sample_fits, of 4]
  by (auto simp: nonce_sample_def split: prod.splits)

text \<open>C2. \<^verbatim>\<open>Reset\<close> advances the window without losing or inventing a used nonce: on a well-formed
  set it never panics, refuses a smaller start (\<^verbatim>\<open>ErrorStartNonce\<close>), and otherwise the shifted
  bit mask stands for exactly the used nonces that are not below the new start, in a
  well-formed set; the flag says whether the start moved.\<close>

theorem NonceSet_Reset_refines:
  assumes "NonceSet_wf s"
  shows "\<exists>err changed s'. NonceSet_Reset s start = Some (err, changed, s') \<and> NonceSet_wf s' \<and>
     (if unat start < unat (nsStart s)
      then err = Some ErrorStartNonce \<and> \<not> changed \<and> s' = s
      else err = None \<and> (changed \<longleftrightarrow> start \<noteq> nsStart s) \<and> nsStart s' = start
         \<and> used s' = {n \<in> used s. unat start \<le> n})"
proof (cases "nsStart s \<le> start")
  case True
  then obtain s' where "NonceSet_Reset s start = Some (None, start \<noteq> nsStart s, s')" "NonceSet_wf s'"
    "nsStart s' = start" "used s' = {n \<in> used s. unat start \<le> n}"
    by (rule NonceSet_Reset_spec [OF assms])
  with True show ?thesis by (simp add: word_le_nat_alt)
next
  case False
  with assms show ?thesis by (auto simp: NonceSet_Reset_def word_less_nat_alt word_le_nat_alt)
qed

theorem NonceSet_Reset_refines_witness:
  "\<exists>s'. NonceSet_Reset nonce_sample 7 = Some (None, True, s') \<and> NonceSet_wf s'
     \<and> used s' = {n \<in> used nonce_sample. 7 \<le> n}"
  using NonceSet_Reset_refines [OF nonce_sample_wf, of 7] by (auto simp: nonce_sample_def)



text \<open>C4. No replay: in any sequence of accepted nonces (\<^verbatim>\<open>Search\<close> answered
  \<^verbatim>\<open>NotContainedAndAllowed\<close>, then \<^verbatim>\<open>Add\<close>) and window resets, in any order, from any
  well-formed set and for every window length of 32 bits, no nonce is accepted twice.\<close>

theorem nonce_no_replay:
  assumes "NonceSet_wf s"
    and "guard_run (nonce_accepts m) (nonce_record m) nonce_advance s es = Some t"
  shows "distinct (accepted es)"
  using nonce_guard.run_no_replay [OF assms(2,1)] .

theorem nonce_no_replay_witness:
  "distinct (accepted [Accept 6, Advance 7, Accept (8 :: u64), Advance 5, Accept 12])"
proof -
  have "guard_run (nonce_accepts 1024) (nonce_record 1024) nonce_advance nonce_sample
     [Accept 6, Advance 7, Accept 8, Advance 5, Accept 12]
     = Some \<lparr>nsStart = 7, nsBitMask = [198], nsLength = 7\<rparr>"
    by code_simp
  then show ?thesis by (rule nonce_no_replay [OF nonce_sample_wf])
qed

end
