(* ===== verification/Go_Stdlib.thy ===== *)
theory Go_Stdlib
  imports Fractal_Prelude
begin

text \<open>
  The parts of the Go standard library the components call: \<^verbatim>\<open>encoding/binary\<close> (big- and
  little-endian words), \<^verbatim>\<open>sort.Search\<close>, \<^verbatim>\<open>copy\<close> into a fixed-size array, and the helpers of
  \<^verbatim>\<open>utils/math.go\<close>.
\<close>

section \<open>encoding/binary\<close>

definition be_bytes :: "nat \<Rightarrow> 'a::len word \<Rightarrow> bytes" where
  "be_bytes n w = map (\<lambda>i. ucast (drop_bit (8 * (n - 1 - i)) w)) [0..<n]"

definition PutUint64_BE :: "u64 \<Rightarrow> bytes" where
  "PutUint64_BE w = be_bytes 8 w"

definition PutUint32_LE :: "u32 \<Rightarrow> bytes" where
  "PutUint32_LE w = rev (be_bytes 4 w)"

definition be_word :: "bytes \<Rightarrow> 'a::len word" where
  "be_word bs = foldl (\<lambda>acc b. push_bit 8 acc OR ucast b) 0 bs"

definition Uint64_BE :: "bytes \<Rightarrow> u64 option" where
  "Uint64_BE bs = (if length bs < 8 then None else Some (be_word (take 8 bs)))"

definition Uint32_LE :: "bytes \<Rightarrow> u32 option" where
  "Uint32_LE bs = (if length bs < 4 then None else Some (be_word (rev (take 4 bs))))"

text \<open>\<^verbatim>\<open>copy(dst[:], src)\<close>: as many bytes as fit.\<close>

definition copy_into :: "'a list \<Rightarrow> 'a list \<Rightarrow> 'a list" where
  "copy_into dst src = take (length dst) src @ drop (length src) dst"

section \<open>sort.Search\<close>

text \<open>
  The smallest index in \<open>[0, n)\<close> at which the predicate holds, or \<open>n\<close>, by bisection; the
  predicate must be false first and then true.
\<close>

function sort_Search_loop :: "(nat \<Rightarrow> bool) \<Rightarrow> nat \<Rightarrow> nat \<Rightarrow> nat" where
  "sort_Search_loop f i j =
     (if i < j then
        let h = (i + j) div 2 in
        if \<not> f h then sort_Search_loop f (h + 1) j else sort_Search_loop f i h
      else i)"
  by pat_completeness auto
termination by (relation "measure (\<lambda>(f, i, j). j - i)") auto

declare sort_Search_loop.simps [simp del]

definition sort_Search :: "nat \<Rightarrow> (nat \<Rightarrow> bool) \<Rightarrow> nat" where
  "sort_Search n f = sort_Search_loop f 0 n"

section \<open>utils/math.go\<close>

definition MinOf :: "int list \<Rightarrow> int option" where
  "MinOf vars = (case vars of [] \<Rightarrow> None | v # _ \<Rightarrow> Some (foldl (\<lambda>mn i. if mn > i then i else mn) v vars))"

definition MaxOf :: "int list \<Rightarrow> int option" where
  "MaxOf vars = (case vars of [] \<Rightarrow> None | v # _ \<Rightarrow> Some (foldl (\<lambda>mx i. if mx < i then i else mx) v vars))"

definition Abs_int64 :: "64 word \<Rightarrow> 64 word" where
  "Abs_int64 v = (if 0 \<le> sint v then v else - v)"

section \<open>Facts\<close>

lemma length_be_bytes [simp]: "length (be_bytes n w) = n"
  by (simp add: be_bytes_def)

lemma length_copy_into [simp]: "length (copy_into dst src) = length dst"
  by (simp add: copy_into_def)

lemma take_copy_into: "length src \<le> length dst \<Longrightarrow> take (length src) (copy_into dst src) = src"
  by (simp add: copy_into_def)

lemma be_bytes_Suc: "be_bytes (Suc n) w = be_bytes n (drop_bit 8 w) @ [ucast w]"
proof -
  have "be_bytes (Suc n) w = map (\<lambda>i. ucast (drop_bit (8 * (n - i)) w)) [0..<n] @ [ucast w]"
    by (simp add: be_bytes_def)
  also have "map (\<lambda>i. ucast (drop_bit (8 * (n - i)) w)) [0..<n] = be_bytes n (drop_bit 8 w)"
    unfolding be_bytes_def
  proof (rule map_cong [OF refl])
    fix i assume "i \<in> set [0..<n]"
    then have "8 * (n - 1 - i) + 8 = 8 * (n - i)" by auto
    then show "ucast (drop_bit (8 * (n - i)) w) = (ucast (drop_bit (8 * (n - 1 - i)) (drop_bit 8 w)) :: u8)"
      by (simp add: ac_simps)
  qed
  finally show ?thesis .
qed

lemma be_word_append1: "be_word (bs @ [b]) = push_bit 8 (be_word bs) OR ucast b"
  by (simp add: be_word_def)

lemma split_low_byte: "push_bit 8 (drop_bit 8 w) OR ucast (ucast w :: u8) = (w :: 'a::len word)"
  by (rule bit_word_eqI) (auto simp: bit_or_iff bit_push_bit_iff bit_drop_bit_eq bit_ucast_iff)

lemma be_word_be_bytes: "drop_bit (8 * n) w = 0 \<Longrightarrow> be_word (be_bytes n w) = (w :: 'a::len word)"
proof (induction n arbitrary: w)
  case 0
  then show ?case by (simp add: be_bytes_def be_word_def)
next
  case (Suc n)
  then have "be_word (be_bytes n (drop_bit 8 w)) = drop_bit 8 w" by (simp add: ac_simps)
  then show ?case by (simp add: be_bytes_Suc be_word_append1 split_low_byte)
qed

lemma Uint64_BE_PutUint64_BE [simp]: "Uint64_BE (PutUint64_BE w @ bs) = Some w"
  by (simp add: Uint64_BE_def PutUint64_BE_def be_word_be_bytes drop_bit_word_beyond)

lemma Uint32_LE_PutUint32_LE [simp]: "Uint32_LE (PutUint32_LE w @ bs) = Some w"
  by (simp add: Uint32_LE_def PutUint32_LE_def be_word_be_bytes drop_bit_word_beyond)

lemma PutUint64_BE_inject [simp]: "PutUint64_BE v = PutUint64_BE w \<longleftrightarrow> v = w"
  by (metis Uint64_BE_PutUint64_BE option.inject)

lemma length_PutUint64_BE [simp]: "length (PutUint64_BE w) = 8"
  by (simp add: PutUint64_BE_def)

lemma length_PutUint32_LE [simp]: "length (PutUint32_LE w) = 4"
  by (simp add: PutUint32_LE_def)

lemma sort_Search_loop_spec:
  assumes "i \<le> j" "\<And>a b. a \<le> b \<Longrightarrow> b < j \<Longrightarrow> f a \<Longrightarrow> f b"
  shows "i \<le> sort_Search_loop f i j \<and> sort_Search_loop f i j \<le> j
         \<and> (\<forall>k. i \<le> k \<and> k < sort_Search_loop f i j \<longrightarrow> \<not> f k)
         \<and> (sort_Search_loop f i j < j \<longrightarrow> f (sort_Search_loop f i j))"
  using assms
proof (induction f i j rule: sort_Search_loop.induct)
  case (1 f i j)
  show ?case
  proof (cases "i < j")
    case True
    define h where "h = (i + j) div 2"
    have h: "i \<le> h" "h < j" using True by (auto simp: h_def)
    have mono: "\<And>a b. a \<le> b \<Longrightarrow> b < j \<Longrightarrow> f a \<Longrightarrow> f b" using 1 by blast
    have mono': "\<And>a b. a \<le> b \<Longrightarrow> b < h \<Longrightarrow> f a \<Longrightarrow> f b" using mono h(2) by (meson less_trans)
    show ?thesis
    proof (cases "f h")
      case True
      define r where "r = sort_Search_loop f i h"
      have eq: "sort_Search_loop f i j = r"
        using \<open>i < j\<close> True by (subst sort_Search_loop.simps) (simp add: h_def r_def Let_def)
      have "i \<le> r \<and> r \<le> h \<and> (\<forall>k. i \<le> k \<and> k < r \<longrightarrow> \<not> f k) \<and> (r < h \<longrightarrow> f r)"
        unfolding r_def by (rule 1(2) [OF \<open>i < j\<close> h_def _ h(1) mono']) (use True in simp)
      then show ?thesis unfolding eq using True h by (cases "r = h") auto
    next
      case False
      define r where "r = sort_Search_loop f (h + 1) j"
      have eq: "sort_Search_loop f i j = r"
        using \<open>i < j\<close> False by (subst sort_Search_loop.simps) (simp add: h_def r_def Let_def)
      have below: "\<not> f k" if "k \<le> h" for k using False mono h(2) that by blast
      have "h + 1 \<le> r \<and> r \<le> j \<and> (\<forall>k. h + 1 \<le> k \<and> k < r \<longrightarrow> \<not> f k) \<and> (r < j \<longrightarrow> f r)"
        unfolding r_def by (rule 1(1) [OF \<open>i < j\<close> h_def False _ mono]) (use h in simp)
      moreover have "\<not> f k" if "k < r" for k
        using below [of k] calculation that by (cases "k \<le> h") (auto simp: not_le)
      ultimately show ?thesis unfolding eq using h by auto
    qed
  next
    case False
    then have "sort_Search_loop f i j = i" by (subst sort_Search_loop.simps) simp
    with False 1(3) show ?thesis by auto
  qed
qed

lemma sort_Search_eq:
  assumes "\<And>a b. a \<le> b \<Longrightarrow> b < n \<Longrightarrow> f a \<Longrightarrow> f b" "k \<le> n" "k < n \<Longrightarrow> f k" "\<And>i. i < k \<Longrightarrow> \<not> f i"
  shows "sort_Search n f = k"
proof -
  have s: "sort_Search n f \<le> n" "\<forall>i < sort_Search n f. \<not> f i" "sort_Search n f < n \<longrightarrow> f (sort_Search n f)"
    using sort_Search_loop_spec [of 0 n f] assms(1) by (auto simp: sort_Search_def)
  show ?thesis
  proof (rule ccontr)
    assume "sort_Search n f \<noteq> k"
    then consider "sort_Search n f < k" | "k < sort_Search n f" by linarith
    then show False
    proof cases
      case 1
      with s(3) assms(2) have "f (sort_Search n f)" by simp
      with assms(4) [OF 1] show False by simp
    next
      case 2
      with s(1) have "f k" by (intro assms(3)) simp
      with s(2) 2 show False by simp
    qed
  qed
qed

end
