(* ===== verification/Names.thy ===== *)
theory Names
  imports Go_Stdlib
begin

text \<open>
  The packing of contract table names into 64 bits (\<^verbatim>\<open>utils/name.go\<close>): twelve characters of five
  bits and a thirteenth of four. Strings are lists of bytes, as Go indexes them.
\<close>

section \<open>The code\<close>

datatype name_error = NameTooLong | CharNotAllowed | ThirteenthTooLarge

definition Char2Value :: "u8 \<Rightarrow> name_error + u8" where
  "Char2Value c =
     (if c = 46 then Inr 0
      else if 49 \<le> c \<and> c \<le> 53 then Inr ((c - 49) + 1)
      else if 97 \<le> c \<and> c \<le> 122 then Inr ((c - 97) + 6)
      else Inl CharNotAllowed)"

fun name_loop :: "bytes \<Rightarrow> u64 \<Rightarrow> name_error + u64" where
  "name_loop [] value = Inr value"
| "name_loop (c # cs) value =
     (case Char2Value c of
        Inl err \<Rightarrow> Inl err
      | Inr v \<Rightarrow> name_loop cs (push_bit 5 value OR ucast v))"

definition String2Uint64 :: "bytes \<Rightarrow> name_error + u64" where
  "String2Uint64 str =
     (if length str > 13 then Inl NameTooLong
      else if length str = 0 then Inr 0
      else
        let n = min (length str) 12
        in case name_loop (take n str) 0 of
             Inl err \<Rightarrow> Inl err
           | Inr value \<Rightarrow>
               let value = push_bit (4 + 5 * (12 - n)) value
               in if length str = 13
                  then (case Char2Value (str ! 12) of
                          Inl err \<Rightarrow> Inl err
                        | Inr v \<Rightarrow> if v > 15 then Inl ThirteenthTooLarge else Inr (value OR ucast v))
                  else Inr value)"

definition charmap :: bytes where
  "charmap = [46, 49, 50, 51, 52, 53, 97, 98, 99, 100, 101, 102, 103, 104, 105, 106, 107, 108, 109,
              110, 111, 112, 113, 114, 115, 116, 117, 118, 119, 120, 121, 122]"

text \<open>The loop of \<^verbatim>\<open>Uint642String\<close>, from the index \<open>i\<close> on; it runs at most thirteen times.\<close>

function name_digits :: "nat \<Rightarrow> u64 \<Rightarrow> bytes" where
  "name_digits i c =
     (if i < 13 then
        (if c = 0 then []
         else
           let index = (if i = 12 then drop_bit 60 (c AND 0xF800000000000000)
                        else drop_bit 59 (c AND 0xF800000000000000))
           in charmap ! unat index # name_digits (i + 1) (push_bit 5 c))
      else [])"
  by pat_completeness auto
termination by (relation "measure (\<lambda>(i, c). 13 - i)") auto

declare name_digits.simps [simp del]

definition Uint642String :: "u64 \<Rightarrow> bytes" where
  "Uint642String c = name_digits 0 c"

section \<open>Round trip\<close>

text \<open>A name in normal form: allowed characters, no trailing dot, the thirteenth in four bits.\<close>

definition char_value :: "u8 \<Rightarrow> nat" where
  "char_value c = (case Char2Value c of Inl _ \<Rightarrow> 0 | Inr v \<Rightarrow> unat v)"

definition valid_name :: "bytes \<Rightarrow> bool" where
  "valid_name str \<longleftrightarrow>
     length str \<le> 13 \<and> list_all (\<lambda>c. \<exists>v. Char2Value c = Inr v) str
     \<and> (str = [] \<or> last str \<noteq> 46) \<and> (length str = 13 \<longrightarrow> char_value (str ! 12) \<le> 15)"

text \<open>The number a name stands for: the digit at index \<open>i\<close> has weight \<open>2 ^ (59 - 5 * i)\<close>.\<close>

fun name_num :: "nat \<Rightarrow> bytes \<Rightarrow> nat" where
  "name_num i [] = 0"
| "name_num i (c # cs) =
     (if i < 12 then char_value c * 2 ^ (59 - 5 * i) else char_value c) + name_num (i + 1) cs"

end
