(* ===== verification/State_DB.thy ===== *)
theory State_DB
  imports Nonce_Set Go_Stdlib
begin

text \<open>
  The account state (\<^verbatim>\<open>core/state\<close>: \<^verbatim>\<open>state_object.go\<close>, \<^verbatim>\<open>statedb.go\<close>, \<^verbatim>\<open>journal.go\<close>): live
  account objects over the account trie, with a journal that lets a snapshot be restored.

  Go pointers to state objects are values here: an object handed out by
  \<^verbatim>\<open>getStateObject\<close> is always the one in the live map, so mutating it is updating the map. The
  account trie and the storage tries are the maps they store (an account under its address, a
  value under its storage key); opening a trie by its root, the hash of a trie, the keys a trie
  iterator yields, the stored contract code and the Keccak hash are the operations of the record
  \<open>Database\<close>, as they are behind the Go interface of that name.
\<close>

section \<open>Storage keys\<close>

definition MaxStorageKeyLength :: nat where
  "MaxStorageKeyLength = 40"

record StorageKey =
  skLength :: u8
  skBytes :: bytes

definition StorageKey_ToSlice :: "StorageKey \<Rightarrow> bytes" where
  "StorageKey_ToSlice k = take (unat (skLength k)) (skBytes k)"

definition LoadStorageKey :: "bytes \<Rightarrow> StorageKey" where
  "LoadStorageKey key =
     \<lparr>skLength = of_nat (min (length key) MaxStorageKeyLength),
      skBytes = copy_into (replicate MaxStorageKeyLength 0) key\<rparr>"

definition GetStorageKey :: "u64 \<Rightarrow> bytes \<Rightarrow> StorageKey" where
  "GetStorageKey table key =
     \<lparr>skLength = of_nat (min (8 + length key) MaxStorageKeyLength),
      skBytes = PutUint64_BE table @ copy_into (replicate (MaxStorageKeyLength - 8) 0) key\<rparr>"

text \<open>The \<open>option\<close> of a stored value is Go's \<open>nil\<close>.\<close>

type_synonym Storage = "StorageKey \<rightharpoonup> bytes option"
type_synonym storage_trie = "StorageKey \<rightharpoonup> bytes"

section \<open>Accounts and state objects\<close>

record Account =
  acTxNonceSet :: NonceSet
  acPackageNonceSet :: NonceSet
  acBalance :: int
  acRoot :: hash
  acCodeHash :: hash
  acContractOwner :: address

record Database =
  dbOpenTrie :: "hash \<rightharpoonup> (address \<rightharpoonup> Account)"
  dbOpenStorageTrie :: "hash \<rightharpoonup> storage_trie"
  dbContractCode :: "hash \<rightharpoonup> bytes"
  dbTrieHash :: "(address \<rightharpoonup> Account) \<Rightarrow> hash"
  dbStorageHash :: "storage_trie \<Rightarrow> hash"
  dbStorageKeys :: "storage_trie \<Rightarrow> StorageKey list"
  dbKeccak :: "bytes \<Rightarrow> hash"

record stateObject =
  soAddress :: address
  soData :: Account
  soDbErr :: bool
  soTrie :: "storage_trie option"
  soCode :: "bytes option"
  soCachedStorage :: Storage
  soDirtyStorage :: Storage
  soDirtyCode :: bool
  soSuicided :: bool
  soDeleted :: bool

definition emptyCodeHash :: "Database \<Rightarrow> hash" where
  "emptyCodeHash db = dbKeccak db []"

definition stateObject_empty :: "Database \<Rightarrow> stateObject \<Rightarrow> bool" where
  "stateObject_empty db s \<longleftrightarrow>
     NonceSet_NextNonce (acTxNonceSet (soData s)) = 0
     \<and> NonceSet_NextNonce (acPackageNonceSet (soData s)) = 0
     \<and> acBalance (soData s) = 0 \<and> acCodeHash (soData s) = emptyCodeHash db"

text \<open>
  \<^verbatim>\<open>Account{}\<close> as \<^verbatim>\<open>newObject\<close> completes it: the \<open>nil\<close> balance becomes zero and the \<open>nil\<close>
  code hash the hash of the empty code.
\<close>

definition Account_zero :: "Database \<Rightarrow> Account" where
  "Account_zero db =
     \<lparr>acTxNonceSet = NonceSet_zero, acPackageNonceSet = NonceSet_zero, acBalance = 0, acRoot = 0,
      acCodeHash = emptyCodeHash db, acContractOwner = 0\<rparr>"

definition newObject :: "address \<Rightarrow> Account \<Rightarrow> stateObject" where
  "newObject addr data =
     \<lparr>soAddress = addr, soData = data, soDbErr = False, soTrie = None, soCode = None,
      soCachedStorage = Map.empty, soDirtyStorage = Map.empty, soDirtyCode = False,
      soSuicided = False, soDeleted = False\<rparr>"

definition stateObject_setError :: "stateObject \<Rightarrow> stateObject" where
  "stateObject_setError s = s\<lparr>soDbErr := True\<rparr>"

definition stateObject_markSuicided :: "stateObject \<Rightarrow> stateObject" where
  "stateObject_markSuicided s = s\<lparr>soSuicided := True\<rparr>"

definition stateObject_getTrie :: "Database \<Rightarrow> stateObject \<Rightarrow> storage_trie \<times> stateObject" where
  "stateObject_getTrie db s =
     (case soTrie s of
        Some t \<Rightarrow> (t, s)
      | None \<Rightarrow>
          (case dbOpenStorageTrie db (acRoot (soData s)) of
             Some t \<Rightarrow> (t, s\<lparr>soTrie := Some t\<rparr>)
           | None \<Rightarrow> (Map.empty, stateObject_setError (s\<lparr>soTrie := Some Map.empty\<rparr>))))"

definition stateObject_GetState :: "Database \<Rightarrow> stateObject \<Rightarrow> StorageKey \<Rightarrow> bytes option \<times> stateObject" where
  "stateObject_GetState db s key =
     (case soCachedStorage s key of
        Some value \<Rightarrow> (value, s)
      | None \<Rightarrow>
          let (t, s') = stateObject_getTrie db s; value = t key
          in (value, s'\<lparr>soCachedStorage := (soCachedStorage s')(key \<mapsto> value)\<rparr>))"

definition stateObject_setState :: "stateObject \<Rightarrow> StorageKey \<Rightarrow> bytes option \<Rightarrow> stateObject" where
  "stateObject_setState s key value =
     s\<lparr>soCachedStorage := (soCachedStorage s)(key \<mapsto> value),
       soDirtyStorage := (soDirtyStorage s)(key \<mapsto> value)\<rparr>"

definition stateObject_HasKey :: "Database \<Rightarrow> stateObject \<Rightarrow> StorageKey \<Rightarrow> bool \<times> stateObject" where
  "stateObject_HasKey db s key =
     (let (v, s') = stateObject_GetState db s key in (v \<noteq> None, s'))"

text \<open>\<^verbatim>\<open>Uint64(Key[0:8])\<close> panics on a key shorter than eight bytes.\<close>

definition storage_table :: "StorageKey \<Rightarrow> u64 option" where
  "storage_table k = Uint64_BE (StorageKey_ToSlice k)"

definition stateObject_HasTable :: "Database \<Rightarrow> stateObject \<Rightarrow> u64 \<Rightarrow> (bool \<times> stateObject) option" where
  "stateObject_HasTable db s table =
     (let (t, s') = stateObject_getTrie db s; ks = dbStorageKeys db t;
          upto = takeWhile (\<lambda>k. storage_table k \<noteq> Some table) ks
      in if None \<in> set (map storage_table upto) then None
         else Some (length upto < length ks, s'))"

definition stateObject_updateTrie :: "Database \<Rightarrow> stateObject \<Rightarrow> stateObject" where
  "stateObject_updateTrie db s =
     (let (t, s') = stateObject_getTrie db s
      in s'\<lparr>soTrie := Some (\<lambda>k. case soDirtyStorage s' k of None \<Rightarrow> t k | Some v \<Rightarrow> v),
            soDirtyStorage := Map.empty\<rparr>)"

definition stateObject_updateRoot :: "Database \<Rightarrow> stateObject \<Rightarrow> stateObject" where
  "stateObject_updateRoot db s =
     (let s' = stateObject_updateTrie db s
      in s'\<lparr>soData := (soData s')\<lparr>acRoot := dbStorageHash db (the (soTrie s'))\<rparr>\<rparr>)"

text \<open>\<^verbatim>\<open>CommitTrie\<close>: \<open>Inl\<close> is the memoised database error.\<close>

definition stateObject_CommitTrie :: "Database \<Rightarrow> stateObject \<Rightarrow> stateObject + stateObject" where
  "stateObject_CommitTrie db s =
     (let s' = stateObject_updateTrie db s
      in if soDbErr s' then Inl s'
         else Inr (s'\<lparr>soData := (soData s')\<lparr>acRoot := dbStorageHash db (the (soTrie s'))\<rparr>\<rparr>))"

definition stateObject_setBalance :: "stateObject \<Rightarrow> int \<Rightarrow> stateObject" where
  "stateObject_setBalance s amount = s\<lparr>soData := (soData s)\<lparr>acBalance := amount\<rparr>\<rparr>"

definition stateObject_deepCopy :: "stateObject \<Rightarrow> stateObject" where
  "stateObject_deepCopy s =
     (newObject (soAddress s) (soData s))
       \<lparr>soTrie := soTrie s, soCode := soCode s, soDirtyStorage := soDirtyStorage s,
        soCachedStorage := soDirtyStorage s, soSuicided := soSuicided s,
        soDirtyCode := soDirtyCode s, soDeleted := soDeleted s\<rparr>"

definition stateObject_Code :: "Database \<Rightarrow> stateObject \<Rightarrow> bytes option \<times> stateObject" where
  "stateObject_Code db s =
     (case soCode s of
        Some c \<Rightarrow> (Some c, s)
      | None \<Rightarrow>
          if acCodeHash (soData s) = emptyCodeHash db then (None, s)
          else
            (case dbContractCode db (acCodeHash (soData s)) of
               None \<Rightarrow> (None, stateObject_setError s)
             | Some c \<Rightarrow> (Some c, s\<lparr>soCode := Some c\<rparr>)))"

definition stateObject_setCode :: "stateObject \<Rightarrow> hash \<Rightarrow> bytes option \<Rightarrow> stateObject" where
  "stateObject_setCode s codeHash code =
     s\<lparr>soCode := code, soData := (soData s)\<lparr>acCodeHash := codeHash\<rparr>, soDirtyCode := True\<rparr>"

definition stateObject_setContractOwner :: "stateObject \<Rightarrow> address \<Rightarrow> stateObject" where
  "stateObject_setContractOwner s owner = s\<lparr>soData := (soData s)\<lparr>acContractOwner := owner\<rparr>\<rparr>"

definition stateObject_Nonce :: "stateObject \<Rightarrow> u64" where
  "stateObject_Nonce s = NonceSet_NextNonce (acTxNonceSet (soData s))"

definition stateObject_PackageNonce :: "stateObject \<Rightarrow> u64" where
  "stateObject_PackageNonce s = NonceSet_NextNonce (acPackageNonceSet (soData s))"

definition stateObject_setTxNonceSet :: "stateObject \<Rightarrow> NonceSet \<Rightarrow> stateObject" where
  "stateObject_setTxNonceSet s ns =
     s\<lparr>soData := (soData s)\<lparr>acTxNonceSet := NonceSet_DeepCopy (acTxNonceSet (soData s)) ns\<rparr>\<rparr>"

definition stateObject_setPackageNonceSet :: "stateObject \<Rightarrow> NonceSet \<Rightarrow> stateObject" where
  "stateObject_setPackageNonceSet s ns = s\<lparr>soData := (soData s)\<lparr>acPackageNonceSet := ns\<rparr>\<rparr>"

section \<open>The journal\<close>

datatype journalEntry =
    createObjectChange address
  | resetObjectChange stateObject
  | suicideChange address bool int
  | balanceChange address int
  | nonceSetChange address NonceSet
  | packageNonceSetChange address
  | storageChange address StorageKey "bytes option"
  | codeChange address "bytes option" hash
  | contractOwnerChange address address
  | refundChange u64
  | addLogChange hash
  | touchChange address

fun dirtied :: "journalEntry \<Rightarrow> address option" where
  "dirtied (createObjectChange a) = Some a"
| "dirtied (resetObjectChange prev) = None"
| "dirtied (suicideChange a _ _) = Some a"
| "dirtied (balanceChange a _) = Some a"
| "dirtied (nonceSetChange a _) = Some a"
| "dirtied (packageNonceSetChange a) = Some a"
| "dirtied (storageChange a _ _) = Some a"
| "dirtied (codeChange a _ _) = Some a"
| "dirtied (contractOwnerChange a _) = Some a"
| "dirtied (refundChange _) = None"
| "dirtied (addLogChange _) = None"
| "dirtied (touchChange a) = Some a"

record journal =
  jEntries :: "journalEntry list"
  jDirties :: "address \<rightharpoonup> int"

definition newJournal :: journal where
  "newJournal = \<lparr>jEntries = [], jDirties = Map.empty\<rparr>"

definition map_count :: "('k \<rightharpoonup> int) \<Rightarrow> 'k \<Rightarrow> int" where
  "map_count m k = (case m k of None \<Rightarrow> 0 | Some n \<Rightarrow> n)"

definition journal_dirty :: "journal \<Rightarrow> address \<Rightarrow> journal" where
  "journal_dirty j addr = j\<lparr>jDirties := (jDirties j)(addr \<mapsto> map_count (jDirties j) addr + 1)\<rparr>"

definition journal_append :: "journal \<Rightarrow> journalEntry \<Rightarrow> journal" where
  "journal_append j e =
     (let j' = j\<lparr>jEntries := jEntries j @ [e]\<rparr>
      in case dirtied e of None \<Rightarrow> j' | Some a \<Rightarrow> journal_dirty j' a)"

definition journal_length :: "journal \<Rightarrow> nat" where
  "journal_length j = length (jEntries j)"

section \<open>The state database\<close>

record Log =
  lgAddress :: address
  lgTopics :: "hash list"
  lgData :: bytes
  lgBlockNumber :: u64
  lgTxHash :: hash
  lgPkgIndex :: u32
  lgTxIndex :: u32
  lgIndex :: u32

record revision =
  rvId :: nat
  rvJournalIndex :: nat

record StateDB =
  sdbDb :: Database
  sdbTrie :: "address \<rightharpoonup> Account"
  sdbStateObjects :: "address \<rightharpoonup> stateObject"
  sdbStateObjectsDirty :: "address set"
  sdbDbErr :: bool
  sdbRefund :: u64
  sdbThash :: hash
  sdbPkgIndex :: u32
  sdbTxIndex :: u32
  sdbLogs :: "hash \<rightharpoonup> Log list"
  sdbLogSize :: u32
  sdbJournal :: journal
  sdbValidRevisions :: "revision list"
  sdbNextRevisionId :: nat

definition StateDB_New :: "hash \<Rightarrow> Database \<Rightarrow> StateDB option" where
  "StateDB_New root db =
     (case dbOpenTrie db root of
        None \<Rightarrow> None
      | Some tr \<Rightarrow> Some
          \<lparr>sdbDb = db, sdbTrie = tr, sdbStateObjects = Map.empty, sdbStateObjectsDirty = {},
           sdbDbErr = False, sdbRefund = 0, sdbThash = 0, sdbPkgIndex = 0, sdbTxIndex = 0,
           sdbLogs = Map.empty, sdbLogSize = 0, sdbJournal = newJournal, sdbValidRevisions = [],
           sdbNextRevisionId = 0\<rparr>)"

definition StateDB_journal :: "StateDB \<Rightarrow> journalEntry \<Rightarrow> StateDB" where
  "StateDB_journal s e = s\<lparr>sdbJournal := journal_append (sdbJournal s) e\<rparr>"

definition StateDB_clearJournalAndRefund :: "StateDB \<Rightarrow> StateDB" where
  "StateDB_clearJournalAndRefund s =
     s\<lparr>sdbJournal := newJournal, sdbValidRevisions := [], sdbRefund := 0\<rparr>"

text \<open>\<open>None\<close> is the error of opening the trie, which leaves the state alone.\<close>

definition StateDB_Reset :: "StateDB \<Rightarrow> hash \<Rightarrow> StateDB option" where
  "StateDB_Reset s root =
     (case dbOpenTrie (sdbDb s) root of
        None \<Rightarrow> None
      | Some tr \<Rightarrow> Some (StateDB_clearJournalAndRefund
          (s\<lparr>sdbTrie := tr, sdbStateObjects := Map.empty, sdbStateObjectsDirty := {},
             sdbThash := 0, sdbTxIndex := 0, sdbLogs := Map.empty, sdbLogSize := 0\<rparr>)))"

definition StateDB_setStateObject :: "StateDB \<Rightarrow> stateObject \<Rightarrow> StateDB" where
  "StateDB_setStateObject s obj =
     s\<lparr>sdbStateObjects := (sdbStateObjects s)(soAddress obj \<mapsto> obj)\<rparr>"

definition StateDB_getStateObject :: "StateDB \<Rightarrow> address \<Rightarrow> stateObject option \<times> StateDB" where
  "StateDB_getStateObject s addr =
     (case sdbStateObjects s addr of
        Some obj \<Rightarrow> if soDeleted obj then (None, s) else (Some obj, s)
      | None \<Rightarrow>
          (case sdbTrie s addr of
             None \<Rightarrow> (None, s)
           | Some data \<Rightarrow> let obj = newObject addr data in (Some obj, StateDB_setStateObject s obj)))"

definition StateDB_createObject :: "StateDB \<Rightarrow> address \<Rightarrow> stateObject \<times> stateObject option \<times> StateDB" where
  "StateDB_createObject s addr =
     (let (prev, s1) = StateDB_getStateObject s addr;
          newobj = newObject addr (Account_zero (sdbDb s));
          s2 = StateDB_journal s1
                 (case prev of None \<Rightarrow> createObjectChange addr | Some p \<Rightarrow> resetObjectChange p)
      in (newobj, prev, StateDB_setStateObject s2 newobj))"

definition StateDB_GetOrNewStateObject :: "StateDB \<Rightarrow> address \<Rightarrow> stateObject \<times> StateDB" where
  "StateDB_GetOrNewStateObject s addr =
     (case StateDB_getStateObject s addr of
        (Some obj, s') \<Rightarrow>
          if soDeleted obj then let (newobj, _, s'') = StateDB_createObject s' addr in (newobj, s'')
          else (obj, s')
      | (None, s') \<Rightarrow> let (newobj, _, s'') = StateDB_createObject s' addr in (newobj, s''))"

definition StateDB_CreateAccount :: "StateDB \<Rightarrow> address \<Rightarrow> StateDB" where
  "StateDB_CreateAccount s addr =
     (let (newobj, prev, s') = StateDB_createObject s addr
      in case prev of
           None \<Rightarrow> s'
         | Some p \<Rightarrow> StateDB_setStateObject s' (stateObject_setBalance newobj (acBalance (soData p))))"

definition StateDB_MarkNonceSetJournal :: "StateDB \<Rightarrow> address \<Rightarrow> NonceSet \<Rightarrow> StateDB" where
  "StateDB_MarkNonceSetJournal s addr prev = StateDB_journal s (nonceSetChange addr (NewNonceSet prev))"

definition StateDB_MarkPackageNonceSetJournal :: "StateDB \<Rightarrow> address \<Rightarrow> StateDB" where
  "StateDB_MarkPackageNonceSetJournal s addr = StateDB_journal s (packageNonceSetChange addr)"

definition StateDB_GetLogs :: "StateDB \<Rightarrow> hash \<Rightarrow> Log list" where
  "StateDB_GetLogs s h = (case sdbLogs s h of None \<Rightarrow> [] | Some ls \<Rightarrow> ls)"

definition StateDB_AddLog :: "StateDB \<Rightarrow> Log \<Rightarrow> StateDB" where
  "StateDB_AddLog s lg =
     (let s1 = StateDB_journal s (addLogChange (sdbThash s));
          lg' = lg\<lparr>lgTxHash := sdbThash s, lgPkgIndex := sdbPkgIndex s, lgTxIndex := sdbTxIndex s,
                   lgIndex := sdbLogSize s\<rparr>
      in s1\<lparr>sdbLogs := (sdbLogs s)(sdbThash s \<mapsto> StateDB_GetLogs s (sdbThash s) @ [lg']),
            sdbLogSize := sdbLogSize s + 1\<rparr>)"

definition StateDB_AddRefund :: "StateDB \<Rightarrow> u64 \<Rightarrow> StateDB" where
  "StateDB_AddRefund s gas =
     (StateDB_journal s (refundChange (sdbRefund s)))\<lparr>sdbRefund := sdbRefund s + gas\<rparr>"

definition StateDB_Exist :: "StateDB \<Rightarrow> address \<Rightarrow> bool \<times> StateDB" where
  "StateDB_Exist s addr = (let (o', s') = StateDB_getStateObject s addr in (o' \<noteq> None, s'))"

definition StateDB_Empty :: "StateDB \<Rightarrow> address \<Rightarrow> bool \<times> StateDB" where
  "StateDB_Empty s addr =
     (case StateDB_getStateObject s addr of
        (None, s') \<Rightarrow> (True, s')
      | (Some obj, s') \<Rightarrow> (stateObject_empty (sdbDb s) obj, s'))"

text \<open>
  The readers below return the value only; the object they load into the live map is the one
  \<^verbatim>\<open>getStateObject\<close> would load again, so the loading is observable by no operation.
\<close>

definition StateDB_GetBalance :: "StateDB \<Rightarrow> address \<Rightarrow> int" where
  "StateDB_GetBalance s addr =
     (case fst (StateDB_getStateObject s addr) of None \<Rightarrow> 0 | Some obj \<Rightarrow> acBalance (soData obj))"

definition StateDB_GetNonce :: "StateDB \<Rightarrow> address \<Rightarrow> u64" where
  "StateDB_GetNonce s addr =
     (case fst (StateDB_getStateObject s addr) of None \<Rightarrow> 0 | Some obj \<Rightarrow> stateObject_Nonce obj)"

definition StateDB_GetPackageNonce :: "StateDB \<Rightarrow> address \<Rightarrow> u64" where
  "StateDB_GetPackageNonce s addr =
     (case fst (StateDB_getStateObject s addr) of None \<Rightarrow> 0 | Some obj \<Rightarrow> stateObject_PackageNonce obj)"

definition StateDB_TxNonceSet :: "StateDB \<Rightarrow> address \<Rightarrow> NonceSet option" where
  "StateDB_TxNonceSet s addr =
     map_option (\<lambda>obj. acTxNonceSet (soData obj)) (fst (StateDB_getStateObject s addr))"

definition StateDB_PackageNonceSet :: "StateDB \<Rightarrow> address \<Rightarrow> NonceSet option" where
  "StateDB_PackageNonceSet s addr =
     map_option (\<lambda>obj. acPackageNonceSet (soData obj)) (fst (StateDB_getStateObject s addr))"

definition StateDB_GetCode :: "StateDB \<Rightarrow> address \<Rightarrow> bytes option" where
  "StateDB_GetCode s addr =
     (case fst (StateDB_getStateObject s addr) of
        None \<Rightarrow> None | Some obj \<Rightarrow> fst (stateObject_Code (sdbDb s) obj))"

definition StateDB_GetContractOwner :: "StateDB \<Rightarrow> address \<Rightarrow> address" where
  "StateDB_GetContractOwner s addr =
     (case fst (StateDB_getStateObject s addr) of None \<Rightarrow> 0 | Some obj \<Rightarrow> acContractOwner (soData obj))"

definition StateDB_GetCodeHash :: "StateDB \<Rightarrow> address \<Rightarrow> hash" where
  "StateDB_GetCodeHash s addr =
     (case fst (StateDB_getStateObject s addr) of None \<Rightarrow> 0 | Some obj \<Rightarrow> acCodeHash (soData obj))"

definition StateDB_GetState :: "StateDB \<Rightarrow> address \<Rightarrow> StorageKey \<Rightarrow> bytes option" where
  "StateDB_GetState s addr key =
     (case fst (StateDB_getStateObject s addr) of
        None \<Rightarrow> None | Some obj \<Rightarrow> fst (stateObject_GetState (sdbDb s) obj key))"

definition StateDB_HasSuicided :: "StateDB \<Rightarrow> address \<Rightarrow> bool" where
  "StateDB_HasSuicided s addr =
     (case fst (StateDB_getStateObject s addr) of None \<Rightarrow> False | Some obj \<Rightarrow> soSuicided obj)"

section \<open>Setters\<close>

definition ripemd :: address where
  "ripemd = 3"

definition StateDB_touch :: "StateDB \<Rightarrow> address \<Rightarrow> StateDB" where
  "StateDB_touch s addr =
     (let s1 = StateDB_journal s (touchChange addr)
      in if addr = ripemd then s1\<lparr>sdbJournal := journal_dirty (sdbJournal s1) addr\<rparr> else s1)"

definition stateObject_SetBalance :: "StateDB \<Rightarrow> stateObject \<Rightarrow> int \<Rightarrow> StateDB" where
  "stateObject_SetBalance s obj amount =
     StateDB_setStateObject
       (StateDB_journal s (balanceChange (soAddress obj) (acBalance (soData obj))))
       (stateObject_setBalance obj amount)"

definition StateDB_SetBalance :: "StateDB \<Rightarrow> address \<Rightarrow> int \<Rightarrow> StateDB" where
  "StateDB_SetBalance s addr amount =
     (let (obj, s') = StateDB_GetOrNewStateObject s addr in stateObject_SetBalance s' obj amount)"

definition StateDB_AddBalance :: "StateDB \<Rightarrow> address \<Rightarrow> int \<Rightarrow> StateDB" where
  "StateDB_AddBalance s addr amount =
     (let (obj, s') = StateDB_GetOrNewStateObject s addr
      in if amount = 0 then
           (if stateObject_empty (sdbDb s) obj then StateDB_touch s' addr else s')
         else stateObject_SetBalance s' obj (acBalance (soData obj) + amount))"

definition StateDB_SubBalance :: "StateDB \<Rightarrow> address \<Rightarrow> int \<Rightarrow> StateDB" where
  "StateDB_SubBalance s addr amount =
     (let (obj, s') = StateDB_GetOrNewStateObject s addr
      in if amount = 0 then s'
         else stateObject_SetBalance s' obj (acBalance (soData obj) - amount))"

definition StateDB_SetCode :: "StateDB \<Rightarrow> address \<Rightarrow> bytes \<Rightarrow> StateDB" where
  "StateDB_SetCode s addr code =
     (let (obj, s') = StateDB_GetOrNewStateObject s addr;
          (prevcode, obj') = stateObject_Code (sdbDb s) obj
      in StateDB_setStateObject
           (StateDB_journal s' (codeChange addr prevcode (acCodeHash (soData obj))))
           (stateObject_setCode obj' (dbKeccak (sdbDb s) code) (Some code)))"

definition StateDB_SetContractOwner :: "StateDB \<Rightarrow> address \<Rightarrow> address \<Rightarrow> StateDB" where
  "StateDB_SetContractOwner s addr owner =
     (let (obj, s') = StateDB_GetOrNewStateObject s addr
      in StateDB_setStateObject
           (StateDB_journal s' (contractOwnerChange addr (acContractOwner (soData obj))))
           (stateObject_setContractOwner obj owner))"

definition StateDB_SetState :: "StateDB \<Rightarrow> address \<Rightarrow> StorageKey \<Rightarrow> bytes option \<Rightarrow> StateDB" where
  "StateDB_SetState s addr key value =
     (let (obj, s') = StateDB_GetOrNewStateObject s addr;
          (prevalue, obj') = stateObject_GetState (sdbDb s) obj key
      in StateDB_setStateObject (StateDB_journal s' (storageChange addr key prevalue))
           (stateObject_setState obj' key value))"

definition StateDB_Suicide :: "StateDB \<Rightarrow> address \<Rightarrow> bool \<times> StateDB" where
  "StateDB_Suicide s addr =
     (case StateDB_getStateObject s addr of
        (None, s') \<Rightarrow> (False, s')
      | (Some obj, s') \<Rightarrow>
          (True, StateDB_setStateObject
             (StateDB_journal s' (suicideChange addr (soSuicided obj) (acBalance (soData obj))))
             (stateObject_setBalance (stateObject_markSuicided obj) 0)))"

text \<open>
  The transaction executor updates the transaction nonce set through the pointer that
  \<^verbatim>\<open>TxNonceSet\<close> returns and journals the previous one: one operation of the state here.
\<close>

definition StateDB_UpdateTxNonceSet :: "StateDB \<Rightarrow> address \<Rightarrow> NonceSet \<Rightarrow> StateDB" where
  "StateDB_UpdateTxNonceSet s addr ns =
     (case StateDB_getStateObject s addr of
        (None, s') \<Rightarrow> s'
      | (Some obj, s') \<Rightarrow>
          StateDB_MarkNonceSetJournal
            (StateDB_setStateObject s' (obj\<lparr>soData := (soData obj)\<lparr>acTxNonceSet := ns\<rparr>\<rparr>))
            addr (acTxNonceSet (soData obj)))"

text \<open>\<^verbatim>\<open>RemoveKey\<close> and \<^verbatim>\<open>RemoveTable\<close> of an object, on the object's account.\<close>

definition StateDB_RemoveKey :: "StateDB \<Rightarrow> address \<Rightarrow> StorageKey \<Rightarrow> StateDB" where
  "StateDB_RemoveKey s addr key = StateDB_SetState s addr key None"

definition StateDB_RemoveTable :: "StateDB \<Rightarrow> address \<Rightarrow> u64 \<Rightarrow> StateDB option" where
  "StateDB_RemoveTable s addr table =
     (let (obj, s') = StateDB_GetOrNewStateObject s addr;
          (t, obj') = stateObject_getTrie (sdbDb s) obj;
          ks = dbStorageKeys (sdbDb s) t;
          s1 = StateDB_setStateObject s' obj'
      in if None \<in> set (map storage_table ks) then None
         else Some (foldl (\<lambda>st k. StateDB_SetState st addr k None) s1
                      [k \<leftarrow> ks. storage_table k = Some table]))"

section \<open>Undoing a journal entry\<close>

text \<open>\<open>None\<close> is the nil dereference when the account is gone.\<close>

definition revert_object :: "StateDB \<Rightarrow> address \<Rightarrow> (stateObject \<Rightarrow> stateObject) \<Rightarrow> StateDB option" where
  "revert_object s addr f =
     (case StateDB_getStateObject s addr of
        (None, _) \<Rightarrow> None
      | (Some obj, s') \<Rightarrow> Some (StateDB_setStateObject s' (f obj)))"

fun journalEntry_revert :: "journalEntry \<Rightarrow> StateDB \<Rightarrow> StateDB option" where
  "journalEntry_revert (createObjectChange a) s =
     Some (s\<lparr>sdbStateObjects := (sdbStateObjects s)(a := None),
             sdbStateObjectsDirty := sdbStateObjectsDirty s - {a}\<rparr>)"
| "journalEntry_revert (resetObjectChange prev) s = Some (StateDB_setStateObject s prev)"
| "journalEntry_revert (suicideChange a prev prevbalance) s =
     (case StateDB_getStateObject s a of
        (None, s') \<Rightarrow> Some s'
      | (Some obj, s') \<Rightarrow>
          Some (StateDB_setStateObject s' (stateObject_setBalance (obj\<lparr>soSuicided := prev\<rparr>) prevbalance)))"
| "journalEntry_revert (touchChange a) s = Some s"
| "journalEntry_revert (balanceChange a prev) s =
     revert_object s a (\<lambda>obj. stateObject_setBalance obj prev)"
| "journalEntry_revert (nonceSetChange a prev) s =
     revert_object s a (\<lambda>obj. stateObject_setTxNonceSet obj prev)"
| "journalEntry_revert (packageNonceSetChange a) s = Some s"
| "journalEntry_revert (codeChange a prevcode prevhash) s =
     revert_object s a (\<lambda>obj. stateObject_setCode obj prevhash prevcode)"
| "journalEntry_revert (contractOwnerChange a prevOwner) s =
     revert_object s a (\<lambda>obj. stateObject_setContractOwner obj prevOwner)"
| "journalEntry_revert (storageChange a key prevalue) s =
     revert_object s a (\<lambda>obj. stateObject_setState obj key prevalue)"
| "journalEntry_revert (refundChange prev) s = Some (s\<lparr>sdbRefund := prev\<rparr>)"
| "journalEntry_revert (addLogChange txhash) s =
     (let logs = StateDB_GetLogs s txhash
      in if length logs = 1
         then Some (s\<lparr>sdbLogs := (sdbLogs s)(txhash := None), sdbLogSize := sdbLogSize s - 1\<rparr>)
         else if logs = [] then None
         else Some (s\<lparr>sdbLogs := (sdbLogs s)(txhash \<mapsto> butlast logs), sdbLogSize := sdbLogSize s - 1\<rparr>))"

definition journal_undirty :: "journal \<Rightarrow> journalEntry \<Rightarrow> journal" where
  "journal_undirty j e =
     (case dirtied e of
        None \<Rightarrow> j
      | Some a \<Rightarrow>
          let n = map_count (jDirties j) a - 1
          in j\<lparr>jDirties := (if n = 0 then (jDirties j)(a := None) else (jDirties j)(a \<mapsto> n))\<rparr>)"

text \<open>The loop of \<^verbatim>\<open>journal.revert\<close>, over the entries in reverse order.\<close>

fun journal_revert_loop :: "journalEntry list \<Rightarrow> StateDB \<Rightarrow> StateDB option" where
  "journal_revert_loop [] s = Some s"
| "journal_revert_loop (e # es) s =
     (case journalEntry_revert e s of
        None \<Rightarrow> None
      | Some s' \<Rightarrow> journal_revert_loop es (s'\<lparr>sdbJournal := journal_undirty (sdbJournal s') e\<rparr>))"

definition journal_revert :: "StateDB \<Rightarrow> nat \<Rightarrow> StateDB option" where
  "journal_revert s snapshot =
     (case journal_revert_loop (rev (drop snapshot (jEntries (sdbJournal s)))) s of
        None \<Rightarrow> None
      | Some s' \<Rightarrow> Some (s'\<lparr>sdbJournal := (sdbJournal s')\<lparr>jEntries := take snapshot (jEntries (sdbJournal s'))\<rparr>\<rparr>))"

section \<open>Snapshots\<close>

definition StateDB_Snapshot :: "StateDB \<Rightarrow> nat \<times> StateDB" where
  "StateDB_Snapshot s =
     (let i = sdbNextRevisionId s
      in (i, s\<lparr>sdbNextRevisionId := i + 1,
               sdbValidRevisions := sdbValidRevisions s
                 @ [\<lparr>rvId = i, rvJournalIndex = journal_length (sdbJournal s)\<rparr>]\<rparr>))"

definition StateDB_RevertToSnapshot :: "StateDB \<Rightarrow> nat \<Rightarrow> StateDB option" where
  "StateDB_RevertToSnapshot s revid =
     (let rs = sdbValidRevisions s;
          idx = sort_Search (length rs) (\<lambda>i. revid \<le> rvId (rs ! i))
      in if idx = length rs \<or> rvId (rs ! idx) \<noteq> revid then None
         else (case journal_revert s (rvJournalIndex (rs ! idx)) of
                 None \<Rightarrow> None
               | Some s' \<Rightarrow> Some (s'\<lparr>sdbValidRevisions := take idx (sdbValidRevisions s')\<rparr>)))"

section \<open>Finalising, committing and copying\<close>

definition StateDB_markDirty :: "StateDB \<Rightarrow> StateDB" where
  "StateDB_markDirty s =
     s\<lparr>sdbStateObjectsDirty := sdbStateObjectsDirty s \<union> dom (jDirties (sdbJournal s))\<rparr>"

definition StateDB_FinaliseOne :: "StateDB \<Rightarrow> StateDB" where
  "StateDB_FinaliseOne s = StateDB_clearJournalAndRefund (StateDB_markDirty s)"

definition StateDB_updateStateObject :: "StateDB \<Rightarrow> stateObject \<Rightarrow> StateDB" where
  "StateDB_updateStateObject s obj = s\<lparr>sdbTrie := (sdbTrie s)(soAddress obj \<mapsto> soData obj)\<rparr>"

definition StateDB_deleteStateObject :: "StateDB \<Rightarrow> stateObject \<Rightarrow> StateDB" where
  "StateDB_deleteStateObject s obj =
     (StateDB_setStateObject s (obj\<lparr>soDeleted := True\<rparr>))
       \<lparr>sdbTrie := (sdbTrie s)(soAddress obj := None)\<rparr>"

definition StateDB_finaliseObject :: "bool \<Rightarrow> StateDB \<Rightarrow> address \<Rightarrow> StateDB" where
  "StateDB_finaliseObject deleteEmptyObjects s addr =
     (case sdbStateObjects s addr of
        None \<Rightarrow> s
      | Some obj \<Rightarrow>
          if soSuicided obj \<or> (deleteEmptyObjects \<and> stateObject_empty (sdbDb s) obj)
          then StateDB_deleteStateObject s obj
          else let obj' = stateObject_updateRoot (sdbDb s) obj
               in StateDB_updateStateObject (StateDB_setStateObject s obj') obj')"

text \<open>\<open>order\<close> is the order in which Go iterates over the dirty addresses.\<close>

definition StateDB_Finalise :: "StateDB \<Rightarrow> bool \<Rightarrow> address list \<Rightarrow> StateDB" where
  "StateDB_Finalise s deleteEmptyObjects order =
     StateDB_clearJournalAndRefund
       (foldl (StateDB_finaliseObject deleteEmptyObjects) (StateDB_markDirty s) order)"

definition StateDB_GetRoot :: "StateDB \<Rightarrow> hash" where
  "StateDB_GetRoot s = dbTrieHash (sdbDb s) (sdbTrie s)"

definition StateDB_IntermediateRoot :: "StateDB \<Rightarrow> bool \<Rightarrow> address list \<Rightarrow> hash \<times> StateDB" where
  "StateDB_IntermediateRoot s deleteEmptyObjects order =
     (let s' = StateDB_Finalise s deleteEmptyObjects order in (StateDB_GetRoot s', s'))"

definition StateDB_Prepare :: "StateDB \<Rightarrow> hash \<Rightarrow> u32 \<Rightarrow> u32 \<Rightarrow> StateDB" where
  "StateDB_Prepare s thash pi ti = s\<lparr>sdbThash := thash, sdbPkgIndex := pi, sdbTxIndex := ti\<rparr>"

definition StateDB_commitObject :: "bool \<Rightarrow> StateDB \<Rightarrow> address \<Rightarrow> StateDB option" where
  "StateDB_commitObject deleteEmptyObjects s addr =
     (case sdbStateObjects s addr of
        None \<Rightarrow> Some s
      | Some obj \<Rightarrow>
          let isDirty = addr \<in> sdbStateObjectsDirty s;
              undirty = (\<lambda>st. st\<lparr>sdbStateObjectsDirty := sdbStateObjectsDirty st - {addr}\<rparr>)
          in if soSuicided obj \<or> (isDirty \<and> deleteEmptyObjects \<and> stateObject_empty (sdbDb s) obj)
             then Some (undirty (StateDB_deleteStateObject s obj))
             else if isDirty then
               let (s1, obj1) =
                 (case soCode obj of
                    Some c \<Rightarrow>
                      if soDirtyCode obj
                      then (s\<lparr>sdbDb := (sdbDb s)\<lparr>dbContractCode :=
                                 (dbContractCode (sdbDb s))(acCodeHash (soData obj) \<mapsto> c)\<rparr>\<rparr>,
                            obj\<lparr>soDirtyCode := False\<rparr>)
                      else (s, obj)
                  | None \<Rightarrow> (s, obj))
               in (case stateObject_CommitTrie (sdbDb s1) obj1 of
                     Inl _ \<Rightarrow> None
                   | Inr obj2 \<Rightarrow>
                       let s2 = s1\<lparr>sdbDb := (sdbDb s1)\<lparr>dbOpenStorageTrie :=
                                  (dbOpenStorageTrie (sdbDb s1))(acRoot (soData obj2) \<mapsto> the (soTrie obj2))\<rparr>\<rparr>
                       in Some (undirty (StateDB_updateStateObject (StateDB_setStateObject s2 obj2) obj2)))
             else Some (undirty s))"

fun StateDB_commitLoop :: "bool \<Rightarrow> StateDB \<Rightarrow> address list \<Rightarrow> StateDB option" where
  "StateDB_commitLoop d s [] = Some s"
| "StateDB_commitLoop d s (a # as) =
     (case StateDB_commitObject d s a of None \<Rightarrow> None | Some s' \<Rightarrow> StateDB_commitLoop d s' as)"

text \<open>\<open>order\<close> is the order in which Go iterates over the live objects; \<open>None\<close> is a database error.\<close>

definition StateDB_Commit :: "StateDB \<Rightarrow> bool \<Rightarrow> address list \<Rightarrow> (hash \<times> StateDB) option" where
  "StateDB_Commit s deleteEmptyObjects order =
     (case StateDB_commitLoop deleteEmptyObjects (StateDB_markDirty s) order of
        None \<Rightarrow> None
      | Some s' \<Rightarrow>
          let root = StateDB_GetRoot s';
              s'' = s'\<lparr>sdbDb := (sdbDb s')\<lparr>dbOpenTrie := (dbOpenTrie (sdbDb s'))(root \<mapsto> sdbTrie s')\<rparr>\<rparr>
          in Some (root, StateDB_clearJournalAndRefund s''))"

text \<open>
  The live objects a copy of a state holds: the journalled ones that still exist and the dirty
  ones. \<open>None\<close> is the nil dereference on a dirty address without a live object.
\<close>

definition StateDB_copiedObjects :: "StateDB \<Rightarrow> address \<rightharpoonup> stateObject" where
  "StateDB_copiedObjects s a =
     (if a \<in> dom (jDirties (sdbJournal s)) \<or> a \<in> sdbStateObjectsDirty s
      then map_option stateObject_deepCopy (sdbStateObjects s a) else None)"

definition StateDB_copyPanics :: "StateDB \<Rightarrow> bool" where
  "StateDB_copyPanics s \<longleftrightarrow> \<not> sdbStateObjectsDirty s \<subseteq> dom (sdbStateObjects s)"

definition StateDB_Copy :: "StateDB \<Rightarrow> StateDB option" where
  "StateDB_Copy s =
     (if StateDB_copyPanics s then None
      else Some
        \<lparr>sdbDb = sdbDb s, sdbTrie = sdbTrie s, sdbStateObjects = StateDB_copiedObjects s,
         sdbStateObjectsDirty = dom (StateDB_copiedObjects s), sdbDbErr = False,
         sdbRefund = sdbRefund s, sdbThash = 0, sdbPkgIndex = 0, sdbTxIndex = 0,
         sdbLogs = sdbLogs s, sdbLogSize = sdbLogSize s, sdbJournal = newJournal,
         sdbValidRevisions = [], sdbNextRevisionId = 0\<rparr>)"

text \<open>The log size is the one field that \<^verbatim>\<open>ResetTo\<close> does not take over.\<close>

definition StateDB_ResetTo :: "StateDB \<Rightarrow> StateDB \<Rightarrow> StateDB option" where
  "StateDB_ResetTo s source =
     (if StateDB_copyPanics source then None
      else Some (s
        \<lparr>sdbDb := sdbDb source, sdbTrie := sdbTrie source,
         sdbStateObjects := StateDB_copiedObjects source,
         sdbStateObjectsDirty := dom (StateDB_copiedObjects source), sdbDbErr := sdbDbErr source,
         sdbRefund := sdbRefund source, sdbThash := sdbThash source,
         sdbPkgIndex := sdbPkgIndex source, sdbTxIndex := sdbTxIndex source,
         sdbLogs := sdbLogs source, sdbJournal := newJournal, sdbValidRevisions := [],
         sdbNextRevisionId := 0\<rparr>))"

end
