(* ===== verification/Receipts.thy ===== *)
theory Receipts
  imports State_DB
begin

text \<open>
  Receipts and their log blooms (\<^verbatim>\<open>core/types/receipt.go\<close>, \<^verbatim>\<open>core/types/bloom9.go\<close>). A bloom is the
  array of 4096 bytes read as a number of 32768 bits, most significant byte first; the Keccak
  hash is the parameter \<open>K\<close>.
\<close>

section \<open>The code\<close>

type_synonym Bloom = "32768 word"

definition BloomBitLength :: nat where "BloomBitLength = 32768"

text \<open>\<^verbatim>\<open>BytesToBloom\<close> and \<^verbatim>\<open>SetBytes\<close> on the bytes of a number; \<open>None\<close> is the panic on too many bytes.\<close>

definition BytesToBloom :: "int \<Rightarrow> Bloom option" where
  "BytesToBloom bin = (if 0 \<le> bin \<and> bin < 2 ^ BloomBitLength then Some (word_of_int bin) else None)"

definition bloom_bit :: "bytes \<Rightarrow> nat \<Rightarrow> nat" where
  "bloom_bit h i = (unat (h ! (i + 1)) + unat (h ! i) * 256) mod BloomBitLength"

definition bloom9 :: "(bytes \<Rightarrow> hash) \<Rightarrow> bytes \<Rightarrow> int" where
  "bloom9 K b =
     (let h = be_bytes 32 (K b)
      in foldl (\<lambda>r i. r OR push_bit (bloom_bit h i) 1) 0 [0, 2, 4])"

definition log_bloom :: "(bytes \<Rightarrow> hash) \<Rightarrow> int \<Rightarrow> Log \<Rightarrow> int" where
  "log_bloom K bin log =
     foldl (\<lambda>bin b. bin OR bloom9 K (be_bytes 32 b))
       (bin OR bloom9 K (be_bytes 20 (lgAddress log))) (lgTopics log)"

definition LogsBloom :: "(bytes \<Rightarrow> hash) \<Rightarrow> Log list \<Rightarrow> int" where
  "LogsBloom K logs = foldl (log_bloom K) 0 logs"

definition Bloom_Add :: "(bytes \<Rightarrow> hash) \<Rightarrow> Bloom \<Rightarrow> bytes \<Rightarrow> Bloom option" where
  "Bloom_Add K b d = BytesToBloom (uint b OR bloom9 K d)"

definition BloomLookup :: "(bytes \<Rightarrow> hash) \<Rightarrow> Bloom \<Rightarrow> bytes \<Rightarrow> bool" where
  "BloomLookup K bin topic \<longleftrightarrow> uint bin AND bloom9 K topic = bloom9 K topic"

record Receipt =
  rcPostState :: bytes
  rcStatus :: u64
  rcCumulativeGasUsed :: u64
  rcBloom :: Bloom
  rcLogs :: "Log list"
  rcTxHash :: hash
  rcContractAddress :: address
  rcGasUsed :: u64

definition ReceiptStatusFailed :: u64 where "ReceiptStatusFailed = 0"
definition ReceiptStatusSuccessful :: u64 where "ReceiptStatusSuccessful = 1"

definition NewReceipt :: "bytes \<Rightarrow> bool \<Rightarrow> u64 \<Rightarrow> Receipt" where
  "NewReceipt root failed cumulativeGasUsed =
     \<lparr>rcPostState = root, rcStatus = (if failed then ReceiptStatusFailed else ReceiptStatusSuccessful),
      rcCumulativeGasUsed = cumulativeGasUsed, rcBloom = 0, rcLogs = [], rcTxHash = 0,
      rcContractAddress = 0, rcGasUsed = 0\<rparr>"

definition CreateBloom :: "(bytes \<Rightarrow> hash) \<Rightarrow> Receipt list \<Rightarrow> Bloom option" where
  "CreateBloom K receipts = BytesToBloom (foldl (\<lambda>bin r. bin OR LogsBloom K (rcLogs r)) 0 receipts)"

text \<open>The consensus encoding of the status: the post state, or one byte or none.\<close>

definition Receipt_statusEncoding :: "Receipt \<Rightarrow> bytes" where
  "Receipt_statusEncoding r =
     (if length (rcPostState r) = 0
      then (if rcStatus r = ReceiptStatusFailed then [] else [1])
      else rcPostState r)"

definition Receipt_setStatus :: "Receipt \<Rightarrow> bytes \<Rightarrow> Receipt option" where
  "Receipt_setStatus r st =
     (if st = [1] then Some (r\<lparr>rcStatus := ReceiptStatusSuccessful\<rparr>)
      else if st = [] then Some (r\<lparr>rcStatus := ReceiptStatusFailed\<rparr>)
      else if length st = 32 then Some (r\<lparr>rcPostState := st\<rparr>)
      else None)"

section \<open>No false negatives\<close>

definition covers :: "int \<Rightarrow> int \<Rightarrow> bool" where
  "covers big small \<longleftrightarrow> big AND small = small"

lemma covers_iff: "covers a b \<longleftrightarrow> (\<forall>n. bit b n \<longrightarrow> bit a n)"
  by (auto simp: covers_def bit_eq_iff bit_and_iff)

lemma covers_refl [simp]: "covers a a"
  by (simp add: covers_iff)

lemma covers_or [simp, intro]: "covers a c \<Longrightarrow> covers (a OR b) c" "covers b c \<Longrightarrow> covers (a OR b) c"
  by (auto simp: covers_iff bit_or_iff)

lemma covers_or_fold: "covers a c \<Longrightarrow> covers (foldl (\<lambda>x y. x OR f y) a ys) c"
  by (induction ys arbitrary: a) auto

lemma covers_or_mem: "y \<in> set ys \<Longrightarrow> covers (f y) c \<Longrightarrow> covers (foldl (\<lambda>x y. x OR f y) a ys) c"
proof (induction ys arbitrary: a)
  case (Cons z zs)
  then show ?case by (cases "y = z") (auto intro!: covers_or_fold)
qed simp

lemma log_bloom_keeps: "covers bin c \<Longrightarrow> covers (log_bloom K bin lg) c"
  unfolding log_bloom_def by (rule covers_or_fold) (rule covers_or(1))

lemma log_blooms_keep: "covers bin c \<Longrightarrow> covers (foldl (log_bloom K) bin logs) c"
  by (induction logs arbitrary: bin) (simp_all add: log_bloom_keeps)

lemma log_bloom_covers:
  assumes "d = be_bytes 20 (lgAddress lg) \<or> (\<exists>t \<in> set (lgTopics lg). d = be_bytes 32 t)"
  shows "covers (log_bloom K bin lg) (bloom9 K d)"
  using assms unfolding log_bloom_def
proof (elim disjE bexE)
  fix t assume t: "t \<in> set (lgTopics lg)" "d = be_bytes 32 t"
  show "covers (foldl (\<lambda>bin b. bin OR bloom9 K (be_bytes 32 b))
       (bin OR bloom9 K (be_bytes 20 (lgAddress lg))) (lgTopics lg)) (bloom9 K d)"
    by (rule covers_or_mem [OF t(1), where f = "\<lambda>b. bloom9 K (be_bytes 32 b)"]) (simp add: t(2))
qed (rule covers_or_fold, rule covers_or(2), simp)

lemma LogsBloom_covers:
  assumes "lg \<in> set logs" "d = be_bytes 20 (lgAddress lg) \<or> (\<exists>t \<in> set (lgTopics lg). d = be_bytes 32 t)"
  shows "covers (LogsBloom K logs) (bloom9 K d)"
proof -
  have "covers (foldl (log_bloom K) bin logs) (bloom9 K d)" for bin
    using assms(1)
  proof (induction logs arbitrary: bin)
    case (Cons l ls)
    then show ?case
      using log_blooms_keep [OF log_bloom_covers [OF assms(2), of K bin], of K ls] by (cases "lg = l") simp_all
  qed simp
  then show ?thesis by (simp add: LogsBloom_def)
qed

text \<open>Every number the code builds fits the filter, so that nothing panics.\<close>

definition fits :: "int \<Rightarrow> bool" where
  "fits x \<longleftrightarrow> 0 \<le> x \<and> x < 2 ^ BloomBitLength"

lemma fits_or [intro]: "fits a \<Longrightarrow> fits b \<Longrightarrow> fits (a OR b)"
  by (simp add: fits_def OR_upper)

lemma fits_bit [intro]: "n < BloomBitLength \<Longrightarrow> fits (push_bit n 1)"
  by (simp add: fits_def push_bit_of_1)

lemma fits_fold [intro]: "fits a \<Longrightarrow> (\<And>y. fits (f y)) \<Longrightarrow> fits (foldl (\<lambda>x y. x OR f y) a ys)"
  by (induction ys arbitrary: a) auto

lemma fits_zero [simp]: "fits 0"
  by (simp add: fits_def)

lemma fits_bloom9 [simp]: "fits (bloom9 K b)"
  unfolding bloom9_def Let_def
  by (rule fits_fold [OF fits_zero fits_bit]) (simp add: bloom_bit_def BloomBitLength_def)

lemma fits_log_bloom: "fits bin \<Longrightarrow> fits (log_bloom K bin lg)"
  unfolding log_bloom_def by (rule fits_fold) (simp_all add: fits_or)

lemma fits_LogsBloom [simp]: "fits (LogsBloom K logs)"
proof -
  have "fits (foldl (log_bloom K) bin logs)" if "fits bin" for bin
    using that by (induction logs arbitrary: bin) (simp_all add: fits_log_bloom)
  then show ?thesis by (simp add: LogsBloom_def)
qed

lemma BytesToBloom_fits: "fits x \<Longrightarrow> \<exists>b. BytesToBloom x = Some b \<and> uint b = x"
proof -
  assume x: "fits x"
  have len: "LENGTH(32768) = BloomBitLength" by (simp add: BloomBitLength_def)
  have "uint (word_of_int x :: Bloom) = x"
    unfolding uint_word_of_int len using x by (simp add: fits_def)
  with x show ?thesis by (simp add: BytesToBloom_def fits_def)
qed

lemma fits_receipts: "fits (foldl (\<lambda>bin r. bin OR LogsBloom K (rcLogs r)) 0 receipts)"
  by (rule fits_fold) simp_all

section \<open>Properties\<close>

text \<open>C9. A receipt bloom has no false negatives: \<^verbatim>\<open>CreateBloom\<close> never panics, and \<^verbatim>\<open>BloomLookup\<close>
  finds in it the address and every topic of every log of every receipt.\<close>

theorem CreateBloom_no_false_negatives:
  "\<exists>bloom. CreateBloom K receipts = Some bloom
     \<and> (\<forall>r \<in> set receipts. \<forall>lg \<in> set (rcLogs r).
          BloomLookup K bloom (be_bytes 20 (lgAddress lg))
          \<and> (\<forall>t \<in> set (lgTopics lg). BloomLookup K bloom (be_bytes 32 t)))"
proof -
  let ?bin = "foldl (\<lambda>bin r. bin OR LogsBloom K (rcLogs r)) 0 receipts"
  obtain bloom where b: "CreateBloom K receipts = Some bloom" "uint bloom = ?bin"
    using BytesToBloom_fits [OF fits_receipts, of K receipts] by (auto simp: CreateBloom_def)
  have "covers (uint bloom) (bloom9 K d)"
    if "r \<in> set receipts" "lg \<in> set (rcLogs r)"
      "d = be_bytes 20 (lgAddress lg) \<or> (\<exists>t \<in> set (lgTopics lg). d = be_bytes 32 t)" for r lg d
    unfolding b(2) by (rule covers_or_mem [where f = "\<lambda>r. LogsBloom K (rcLogs r)"])
      (use that LogsBloom_covers in blast)+
  then have "\<forall>r \<in> set receipts. \<forall>lg \<in> set (rcLogs r). BloomLookup K bloom (be_bytes 20 (lgAddress lg))
          \<and> (\<forall>t \<in> set (lgTopics lg). BloomLookup K bloom (be_bytes 32 t))"
    unfolding BloomLookup_def covers_def [symmetric] by blast
  with b(1) show ?thesis by blast
qed

definition sample_log :: Log where
  "sample_log = \<lparr>lgAddress = 9, lgTopics = [1, 2], lgData = [], lgBlockNumber = 0, lgTxHash = 0,
     lgPkgIndex = 0, lgTxIndex = 0, lgIndex = 0\<rparr>"

definition sample_receipt :: Receipt where
  "sample_receipt = (NewReceipt [] False 0)\<lparr>rcLogs := [sample_log]\<rparr>"

theorem CreateBloom_no_false_negatives_witness:
  "\<exists>bloom. CreateBloom (\<lambda>bs. word_of_nat (length bs)) [sample_receipt] = Some bloom
     \<and> BloomLookup (\<lambda>bs. word_of_nat (length bs)) bloom (be_bytes 32 (2 :: hash))"
proof -
  have m: "sample_receipt \<in> set [sample_receipt]" "sample_log \<in> set (rcLogs sample_receipt)"
    "2 \<in> set (lgTopics sample_log)"
    by (simp_all add: sample_receipt_def sample_log_def)
  from CreateBloom_no_false_negatives [of "\<lambda>bs. word_of_nat (length bs)" "[sample_receipt]"] m
  show ?thesis by blast
qed

end
