(* ===== verification/State_Revert.thy ===== *)
theory State_Revert
  imports State_DB
begin

text \<open>
  What the state database shows to its clients (\<open>sdb_view\<close>: per account the data, code, storage
  and suicide flag), and the contract of its journal: every operation can be undone, and
  \<^verbatim>\<open>RevertToSnapshot\<close> restores what was visible when the snapshot was taken. The contract is the
  locale \<open>journaled_store\<close>; the state database with its operations (\<open>sdb_op\<close>) interprets it.
\<close>

section \<open>What is visible of a state\<close>

definition obj_trie :: "Database \<Rightarrow> stateObject \<Rightarrow> storage_trie" where
  "obj_trie db obj =
     (case soTrie obj of
        Some t \<Rightarrow> t
      | None \<Rightarrow> (case dbOpenStorageTrie db (acRoot (soData obj)) of Some t \<Rightarrow> t | None \<Rightarrow> Map.empty))"

text \<open>The storage an object would write, and that its cache agrees with.\<close>

definition obj_storage :: "Database \<Rightarrow> stateObject \<Rightarrow> StorageKey \<Rightarrow> bytes option" where
  "obj_storage db obj k = (case soDirtyStorage obj k of Some v \<Rightarrow> v | None \<Rightarrow> obj_trie db obj k)"

definition obj_coherent :: "Database \<Rightarrow> stateObject \<Rightarrow> bool" where
  "obj_coherent db obj \<longleftrightarrow>
     (\<forall>k v. soCachedStorage obj k = Some v \<longrightarrow> obj_storage db obj k = v)
     \<and> (\<forall>k. soDirtyStorage obj k \<noteq> None \<longrightarrow> soCachedStorage obj k \<noteq> None)"

record account_view =
  avData :: Account
  avCode :: "bytes option"
  avStorage :: "StorageKey \<Rightarrow> bytes option"
  avSuicided :: bool

definition obj_view :: "Database \<Rightarrow> stateObject \<Rightarrow> account_view" where
  "obj_view db obj =
     \<lparr>avData = soData obj, avCode = fst (stateObject_Code db obj), avStorage = obj_storage db obj,
      avSuicided = soSuicided obj\<rparr>"

definition sdb_view :: "StateDB \<Rightarrow> address \<rightharpoonup> account_view" where
  "sdb_view s a = map_option (obj_view (sdbDb s)) (fst (StateDB_getStateObject s a))"

text \<open>
  The mutable part of what is visible, and the part that no journalled operation changes.
\<close>

record sdb_abs =
  abView :: "address \<rightharpoonup> account_view"
  abRefund :: u64
  abLogs :: "hash \<Rightarrow> Log list"
  abLogSize :: u32

definition sdb_abs_of :: "StateDB \<Rightarrow> sdb_abs" where
  "sdb_abs_of s =
     \<lparr>abView = sdb_view s, abRefund = sdbRefund s, abLogs = StateDB_GetLogs s, abLogSize = sdbLogSize s\<rparr>"

type_synonym sdb_env = "Database \<times> (address \<rightharpoonup> Account) \<times> hash \<times> u32 \<times> u32"

definition sdb_env_of :: "StateDB \<Rightarrow> sdb_env" where
  "sdb_env_of s = (sdbDb s, sdbTrie s, sdbThash s, sdbPkgIndex s, sdbTxIndex s)"

definition sdb_same :: "StateDB \<Rightarrow> StateDB \<Rightarrow> bool" where
  "sdb_same s t \<longleftrightarrow> sdb_env_of s = sdb_env_of t \<and> sdb_abs_of s = sdb_abs_of t"

definition sdb_wf :: "StateDB \<Rightarrow> bool" where
  "sdb_wf s \<longleftrightarrow>
     (\<forall>a obj. sdbStateObjects s a = Some obj \<longrightarrow>
        soAddress obj = a \<and> obj_coherent (sdbDb s) obj \<and> (soDeleted obj \<longrightarrow> sdbTrie s a = None))"

definition entry_ok :: "Database \<Rightarrow> journalEntry \<Rightarrow> bool" where
  "entry_ok db e = (case e of resetObjectChange p \<Rightarrow> obj_coherent db p \<and> \<not> soDeleted p | _ \<Rightarrow> True)"

named_theorems so_simps \<open>fields of state objects after an update\<close>

lemmas so_defs [so_simps] =
  stateObject_setBalance_def stateObject_setState_def stateObject_setCode_def
  stateObject_setContractOwner_def stateObject_setTxNonceSet_def stateObject_markSuicided_def
  stateObject_setError_def newObject_def NonceSet_DeepCopy_def

subsection \<open>Objects\<close>

lemma obj_trie_getTrie:
  "fst (stateObject_getTrie db obj) = obj_trie db obj"
  "obj_trie db (snd (stateObject_getTrie db obj)) = obj_trie db obj"
  by (auto simp: stateObject_getTrie_def obj_trie_def so_simps split: option.splits)

lemma getTrie_frame [simp]:
  "soAddress (snd (stateObject_getTrie db obj)) = soAddress obj"
  "soData (snd (stateObject_getTrie db obj)) = soData obj"
  "soCode (snd (stateObject_getTrie db obj)) = soCode obj"
  "soCachedStorage (snd (stateObject_getTrie db obj)) = soCachedStorage obj"
  "soDirtyStorage (snd (stateObject_getTrie db obj)) = soDirtyStorage obj"
  "soSuicided (snd (stateObject_getTrie db obj)) = soSuicided obj"
  "soDeleted (snd (stateObject_getTrie db obj)) = soDeleted obj"
  by (auto simp: stateObject_getTrie_def so_simps split: option.splits)

lemma obj_storage_newObject:
  "obj_coherent db (newObject a data)"
  by (simp add: obj_coherent_def newObject_def)

lemma stateObject_GetState_value:
  "obj_coherent db obj \<Longrightarrow> fst (stateObject_GetState db obj k) = obj_storage db obj k"
proof (cases "soCachedStorage obj k")
  case None
  assume c: "obj_coherent db obj"
  have "soDirtyStorage obj k = None"
    using c None unfolding obj_coherent_def by blast
  with None show ?thesis
    by (simp add: stateObject_GetState_def obj_storage_def obj_trie_getTrie case_prod_beta Let_def)
qed (auto simp: stateObject_GetState_def obj_coherent_def)

lemma stateObject_Code_view:
  "stateObject_Code db obj = (c, obj') \<Longrightarrow>
     soAddress obj' = soAddress obj \<and> soData obj' = soData obj \<and> soTrie obj' = soTrie obj
     \<and> soCachedStorage obj' = soCachedStorage obj \<and> soDirtyStorage obj' = soDirtyStorage obj
     \<and> soSuicided obj' = soSuicided obj \<and> soDeleted obj' = soDeleted obj"
  by (auto simp: stateObject_Code_def so_simps split: option.splits if_splits)

lemma obj_trie_cong:
  "soTrie o1 = soTrie o2 \<Longrightarrow> acRoot (soData o1) = acRoot (soData o2) \<Longrightarrow> obj_trie db o1 = obj_trie db o2"
  by (simp add: obj_trie_def cong: option.case_cong)

lemma obj_coherent_cong:
  "obj_trie db o1 = obj_trie db o2 \<Longrightarrow> soCachedStorage o1 = soCachedStorage o2 \<Longrightarrow>
   soDirtyStorage o1 = soDirtyStorage o2 \<Longrightarrow> obj_coherent db o1 \<longleftrightarrow> obj_coherent db o2"
  by (simp add: obj_coherent_def obj_storage_def cong: option.case_cong)

lemma obj_trie_updates [simp]:
  "obj_trie db (obj\<lparr>soData := (soData obj)\<lparr>acBalance := n\<rparr>\<rparr>) = obj_trie db obj"
  "obj_trie db (obj\<lparr>soData := (soData obj)\<lparr>acTxNonceSet := ns\<rparr>\<rparr>) = obj_trie db obj"
  "obj_trie db (obj\<lparr>soData := (soData obj)\<lparr>acPackageNonceSet := ns\<rparr>\<rparr>) = obj_trie db obj"
  "obj_trie db (obj\<lparr>soData := (soData obj)\<lparr>acContractOwner := ow\<rparr>\<rparr>) = obj_trie db obj"
  "obj_trie db (obj\<lparr>soCode := c, soData := (soData obj)\<lparr>acCodeHash := h\<rparr>, soDirtyCode := b\<rparr>) = obj_trie db obj"
  "obj_trie db (obj\<lparr>soCachedStorage := cs\<rparr>) = obj_trie db obj"
  "obj_trie db (obj\<lparr>soCachedStorage := cs, soDirtyStorage := ds\<rparr>) = obj_trie db obj"
  "obj_trie db (obj\<lparr>soSuicided := b\<rparr>) = obj_trie db obj"
  "obj_trie db (obj\<lparr>soDeleted := b\<rparr>) = obj_trie db obj"
  "obj_trie db (obj\<lparr>soCode := c\<rparr>) = obj_trie db obj"
  "obj_trie db (obj\<lparr>soDbErr := b\<rparr>) = obj_trie db obj"
  by (auto intro: obj_trie_cong)

lemma obj_storage_updates [simp]:
  "obj_storage db (obj\<lparr>soData := (soData obj)\<lparr>acBalance := n\<rparr>\<rparr>) = obj_storage db obj"
  "obj_storage db (obj\<lparr>soData := (soData obj)\<lparr>acTxNonceSet := ns\<rparr>\<rparr>) = obj_storage db obj"
  "obj_storage db (obj\<lparr>soData := (soData obj)\<lparr>acPackageNonceSet := ns\<rparr>\<rparr>) = obj_storage db obj"
  "obj_storage db (obj\<lparr>soData := (soData obj)\<lparr>acContractOwner := ow\<rparr>\<rparr>) = obj_storage db obj"
  "obj_storage db (obj\<lparr>soCode := c, soData := (soData obj)\<lparr>acCodeHash := h\<rparr>, soDirtyCode := b\<rparr>) = obj_storage db obj"
  "obj_storage db (obj\<lparr>soSuicided := b\<rparr>) = obj_storage db obj"
  "obj_storage db (obj\<lparr>soDeleted := b\<rparr>) = obj_storage db obj"
  "obj_storage db (obj\<lparr>soCachedStorage := cs\<rparr>) = obj_storage db obj"
  by (auto simp: obj_storage_def fun_eq_iff cong: option.case_cong)

lemma obj_storage_setState:
  "obj_storage db (stateObject_setState obj k v) = (obj_storage db obj)(k := v)"
  by (auto simp: obj_storage_def stateObject_setState_def fun_eq_iff cong: option.case_cong)

lemma obj_storage_eqI:
  "obj_trie db o1 = obj_trie db o2 \<Longrightarrow> soDirtyStorage o1 = soDirtyStorage o2 \<Longrightarrow>
   obj_storage db o1 = obj_storage db o2"
  by (auto simp: obj_storage_def fun_eq_iff cong: option.case_cong)

lemma obj_coherent_setState:
  "obj_coherent db obj \<Longrightarrow> obj_coherent db (stateObject_setState obj k v)"
  unfolding obj_coherent_def obj_storage_setState
  by (auto simp: stateObject_setState_def)

lemma obj_coherent_updates [simp]:
  "obj_coherent db (obj\<lparr>soData := (soData obj)\<lparr>acBalance := n\<rparr>\<rparr>) = obj_coherent db obj"
  "obj_coherent db (obj\<lparr>soData := (soData obj)\<lparr>acTxNonceSet := ns\<rparr>\<rparr>) = obj_coherent db obj"
  "obj_coherent db (obj\<lparr>soData := (soData obj)\<lparr>acPackageNonceSet := ns\<rparr>\<rparr>) = obj_coherent db obj"
  "obj_coherent db (obj\<lparr>soData := (soData obj)\<lparr>acContractOwner := ow\<rparr>\<rparr>) = obj_coherent db obj"
  "obj_coherent db (obj\<lparr>soCode := c, soData := (soData obj)\<lparr>acCodeHash := h\<rparr>, soDirtyCode := b\<rparr>) = obj_coherent db obj"
  "obj_coherent db (obj\<lparr>soSuicided := b\<rparr>) = obj_coherent db obj"
  "obj_coherent db (obj\<lparr>soDeleted := b\<rparr>) = obj_coherent db obj"
  by (auto simp: obj_coherent_def)

lemma fst_stateObject_Code_cong:
  "soCode o1 = soCode o2 \<Longrightarrow> acCodeHash (soData o1) = acCodeHash (soData o2) \<Longrightarrow>
   fst (stateObject_Code db o1) = fst (stateObject_Code db o2)"
  by (cases "soCode o2"; cases "dbContractCode db (acCodeHash (soData o2))")
    (simp_all add: stateObject_Code_def)

text \<open>Reading a storage slot or the code leaves the view alone.\<close>

lemma stateObject_GetState_keeps:
  assumes "obj_coherent db obj" "stateObject_GetState db obj k = (v, obj')"
  shows "obj_coherent db obj'" "obj_view db obj' = obj_view db obj"
    "soAddress obj' = soAddress obj" "soDeleted obj' = soDeleted obj" "v = obj_storage db obj k"
proof -
  show v: "v = obj_storage db obj k"
    using stateObject_GetState_value [OF assms(1), of k] assms(2) by simp
  consider "obj' = obj" |
    "obj' = (snd (stateObject_getTrie db obj))\<lparr>soCachedStorage := (soCachedStorage obj)(k \<mapsto> v)\<rparr>"
    using assms(2) by (auto simp: stateObject_GetState_def Let_def case_prod_beta split: option.splits)
  then have "obj_coherent db obj' \<and> obj_view db obj' = obj_view db obj
    \<and> soAddress obj' = soAddress obj \<and> soDeleted obj' = soDeleted obj"
  proof cases
    case 2
    have st: "obj_storage db obj' = obj_storage db obj"
      unfolding 2 by (rule obj_storage_eqI) (simp_all add: obj_trie_getTrie)
    have "obj_coherent db obj'"
      unfolding obj_coherent_def st using assms(1) v by (auto simp: 2 obj_coherent_def)
    moreover have f: "soData obj' = soData obj" "soSuicided obj' = soSuicided obj" "soCode obj' = soCode obj"
      "soAddress obj' = soAddress obj" "soDeleted obj' = soDeleted obj"
      by (simp_all add: 2)
    moreover have "fst (stateObject_Code db obj') = fst (stateObject_Code db obj)"
      by (rule fst_stateObject_Code_cong) (simp_all add: f)
    ultimately show ?thesis by (simp add: obj_view_def st)
  qed (use assms in auto)
  then show "obj_coherent db obj'" "obj_view db obj' = obj_view db obj"
    "soAddress obj' = soAddress obj" "soDeleted obj' = soDeleted obj" by simp_all
qed

lemma stateObject_Code_keeps:
  assumes "stateObject_Code db obj = (c, obj')"
  shows "obj_coherent db obj' = obj_coherent db obj" "obj_view db obj' = obj_view db obj"
    "soAddress obj' = soAddress obj" "soDeleted obj' = soDeleted obj" "c = avCode (obj_view db obj)"
proof -
  have t: "obj_trie db obj' = obj_trie db obj"
    using stateObject_Code_view [OF assms] by (intro obj_trie_cong) auto
  then have st: "obj_storage db obj' = obj_storage db obj"
    using stateObject_Code_view [OF assms] by (intro obj_storage_eqI) auto
  show "obj_coherent db obj' = obj_coherent db obj"
    using stateObject_Code_view [OF assms] t by (intro obj_coherent_cong) auto
  show "c = avCode (obj_view db obj)" using assms by (simp add: obj_view_def)
  have "fst (stateObject_Code db obj') = fst (stateObject_Code db obj)"
    using assms by (auto simp: stateObject_Code_def so_simps split: option.splits if_splits)
  with st stateObject_Code_view [OF assms] show "obj_view db obj' = obj_view db obj"
    by (simp add: obj_view_def)
qed (use stateObject_Code_view [OF assms] in auto)

subsection \<open>Views of updated objects\<close>

lemma obj_view_setBalance:
  "obj_view db (stateObject_setBalance obj n)
   = (obj_view db obj)\<lparr>avData := (avData (obj_view db obj))\<lparr>acBalance := n\<rparr>\<rparr>"
  by (simp add: obj_view_def stateObject_setBalance_def stateObject_Code_def so_simps
      cong: option.case_cong split: option.splits)

lemma obj_view_setTxNonceSet:
  "obj_view db (obj\<lparr>soData := (soData obj)\<lparr>acTxNonceSet := ns\<rparr>\<rparr>)
   = (obj_view db obj)\<lparr>avData := (avData (obj_view db obj))\<lparr>acTxNonceSet := ns\<rparr>\<rparr>"
  by (simp add: obj_view_def stateObject_Code_def so_simps cong: option.case_cong split: option.splits)

lemma obj_view_setContractOwner:
  "obj_view db (stateObject_setContractOwner obj ow)
   = (obj_view db obj)\<lparr>avData := (avData (obj_view db obj))\<lparr>acContractOwner := ow\<rparr>\<rparr>"
  by (simp add: obj_view_def stateObject_setContractOwner_def stateObject_Code_def so_simps
      cong: option.case_cong split: option.splits)

lemma obj_view_setState:
  "obj_view db (stateObject_setState obj k v)
   = (obj_view db obj)\<lparr>avStorage := (avStorage (obj_view db obj))(k := v)\<rparr>"
proof -
  have "fst (stateObject_Code db (stateObject_setState obj k v)) = fst (stateObject_Code db obj)"
    by (rule fst_stateObject_Code_cong) (simp_all add: stateObject_setState_def)
  then show ?thesis
    by (simp add: obj_view_def obj_storage_setState) (simp add: stateObject_setState_def)
qed

definition code_of :: "Database \<Rightarrow> bytes option \<Rightarrow> hash \<Rightarrow> bytes option" where
  "code_of db c h =
     (case c of Some b \<Rightarrow> Some b | None \<Rightarrow> if h = emptyCodeHash db then None else dbContractCode db h)"

lemma fst_stateObject_Code: "fst (stateObject_Code db obj) = code_of db (soCode obj) (acCodeHash (soData obj))"
  by (simp add: stateObject_Code_def code_of_def split: option.splits)

lemma obj_view_setCode:
  "obj_view db (stateObject_setCode obj h c)
   = (obj_view db obj)\<lparr>avData := (avData (obj_view db obj))\<lparr>acCodeHash := h\<rparr>, avCode := code_of db c h\<rparr>"
  by (simp add: obj_view_def stateObject_setCode_def fst_stateObject_Code)

lemma obj_view_suicide:
  "obj_view db (stateObject_setBalance (obj\<lparr>soSuicided := b\<rparr>) n)
   = (obj_view db obj)\<lparr>avData := (avData (obj_view db obj))\<lparr>acBalance := n\<rparr>, avSuicided := b\<rparr>"
  by (simp add: obj_view_setBalance) (simp add: obj_view_def fst_stateObject_Code)

lemmas obj_view_updates =
  obj_view_setBalance obj_view_setTxNonceSet obj_view_setContractOwner obj_view_setState
  obj_view_setCode obj_view_suicide

lemma avCode_code_of:
  "code_of db (avCode (obj_view db obj)) (acCodeHash (soData obj)) = avCode (obj_view db obj)"
  by (simp add: obj_view_def fst_stateObject_Code code_of_def split: option.splits)

lemma setters_frame [simp]:
  "soAddress (stateObject_setBalance obj n) = soAddress obj"
  "soDeleted (stateObject_setBalance obj n) = soDeleted obj"
  "obj_coherent db (stateObject_setBalance obj n) = obj_coherent db obj"
  "soAddress (stateObject_setContractOwner obj w) = soAddress obj"
  "soDeleted (stateObject_setContractOwner obj w) = soDeleted obj"
  "obj_coherent db (stateObject_setContractOwner obj w) = obj_coherent db obj"
  "soAddress (stateObject_setState obj k v) = soAddress obj"
  "soDeleted (stateObject_setState obj k v) = soDeleted obj"
  "soAddress (stateObject_setCode obj h c) = soAddress obj"
  "soDeleted (stateObject_setCode obj h c) = soDeleted obj"
  "obj_coherent db (stateObject_setCode obj h c) = obj_coherent db obj"
  by (simp_all add: stateObject_setBalance_def stateObject_setContractOwner_def
      stateObject_setState_def stateObject_setCode_def)

subsection \<open>The live map\<close>

lemma setStateObject_frame [simp]:
  "sdbDb (StateDB_setStateObject s obj) = sdbDb s" "sdbTrie (StateDB_setStateObject s obj) = sdbTrie s"
  "sdbRefund (StateDB_setStateObject s obj) = sdbRefund s" "sdbLogs (StateDB_setStateObject s obj) = sdbLogs s"
  "sdbLogSize (StateDB_setStateObject s obj) = sdbLogSize s" "sdbThash (StateDB_setStateObject s obj) = sdbThash s"
  "sdbPkgIndex (StateDB_setStateObject s obj) = sdbPkgIndex s" "sdbTxIndex (StateDB_setStateObject s obj) = sdbTxIndex s"
  "sdbJournal (StateDB_setStateObject s obj) = sdbJournal s"
  "sdbValidRevisions (StateDB_setStateObject s obj) = sdbValidRevisions s"
  "sdbNextRevisionId (StateDB_setStateObject s obj) = sdbNextRevisionId s"
  "sdbStateObjectsDirty (StateDB_setStateObject s obj) = sdbStateObjectsDirty s"
  "sdbStateObjects (StateDB_setStateObject s obj) = (sdbStateObjects s)(soAddress obj \<mapsto> obj)"
  by (simp_all add: StateDB_setStateObject_def)

lemma journal_frame [simp]:
  "sdbDb (StateDB_journal s e) = sdbDb s" "sdbTrie (StateDB_journal s e) = sdbTrie s"
  "sdbRefund (StateDB_journal s e) = sdbRefund s" "sdbLogs (StateDB_journal s e) = sdbLogs s"
  "sdbLogSize (StateDB_journal s e) = sdbLogSize s" "sdbThash (StateDB_journal s e) = sdbThash s"
  "sdbPkgIndex (StateDB_journal s e) = sdbPkgIndex s" "sdbTxIndex (StateDB_journal s e) = sdbTxIndex s"
  "sdbStateObjects (StateDB_journal s e) = sdbStateObjects s"
  "sdbStateObjectsDirty (StateDB_journal s e) = sdbStateObjectsDirty s"
  "sdbValidRevisions (StateDB_journal s e) = sdbValidRevisions s"
  "sdbNextRevisionId (StateDB_journal s e) = sdbNextRevisionId s"
  "jEntries (sdbJournal (StateDB_journal s e)) = jEntries (sdbJournal s) @ [e]"
  by (simp_all add: StateDB_journal_def journal_append_def journal_dirty_def Let_def split: option.splits)

lemma getStateObject_only_live:
  "sdbStateObjects s = sdbStateObjects t \<Longrightarrow> sdbTrie s = sdbTrie t \<Longrightarrow>
   fst (StateDB_getStateObject s a) = fst (StateDB_getStateObject t a)"
  by (simp add: StateDB_getStateObject_def Let_def cong: option.case_cong split: option.splits)

lemma sdb_view_only_live:
  "sdbStateObjects s = sdbStateObjects t \<Longrightarrow> sdbTrie s = sdbTrie t \<Longrightarrow> sdbDb s = sdbDb t \<Longrightarrow>
   sdb_view s = sdb_view t"
  by (simp add: sdb_view_def fun_eq_iff getStateObject_only_live [of s t])

lemma sdb_view_journal [simp]: "sdb_view (StateDB_journal s e) = sdb_view s"
  "sdb_view (s\<lparr>sdbJournal := j\<rparr>) = sdb_view s"
  by (rule sdb_view_only_live; simp)+

lemma sdb_wf_only_live:
  "sdbStateObjects s = sdbStateObjects t \<Longrightarrow> sdbTrie s = sdbTrie t \<Longrightarrow> sdbDb s = sdbDb t \<Longrightarrow>
   sdb_wf s = sdb_wf t"
  by (simp add: sdb_wf_def)

lemma sdb_wf_journal [simp]: "sdb_wf (StateDB_journal s e) = sdb_wf s" "sdb_wf (s\<lparr>sdbJournal := j\<rparr>) = sdb_wf s"
  by (rule sdb_wf_only_live; simp)+

lemma sdb_view_setStateObject:
  "sdb_view (StateDB_setStateObject s obj) =
     (sdb_view s)(soAddress obj := if soDeleted obj then None else Some (obj_view (sdbDb s) obj))"
  by (auto simp: sdb_view_def StateDB_getStateObject_def fun_eq_iff Let_def split: option.splits)

lemma sdb_wf_setStateObject:
  "sdb_wf s \<Longrightarrow> obj_coherent (sdbDb s) obj \<Longrightarrow> \<not> soDeleted obj \<Longrightarrow> sdb_wf (StateDB_setStateObject s obj)"
  by (auto simp: sdb_wf_def)

text \<open>Loading an object shows nothing new.\<close>

lemma getStateObject_cases:
  assumes wf: "sdb_wf s"
  obtains (absent) "StateDB_getStateObject s a = (None, s)" "sdb_view s a = None" "sdbTrie s a = None"
  | (present) obj s' where "StateDB_getStateObject s a = (Some obj, s')"
      "sdbStateObjects s' = (sdbStateObjects s)(a \<mapsto> obj)"
      "s' = s \<or> s' = StateDB_setStateObject s obj"
      "soAddress obj = a" "obj_coherent (sdbDb s) obj" "\<not> soDeleted obj"
      "sdb_view s a = Some (obj_view (sdbDb s) obj)" "sdb_wf s'" "sdb_view s' = sdb_view s"
proof (cases "fst (StateDB_getStateObject s a)")
  case None
  then have "StateDB_getStateObject s a = (None, s)" "sdbTrie s a = None"
    using wf by (auto simp: StateDB_getStateObject_def sdb_wf_def Let_def split: option.splits if_splits)
  with None show ?thesis by (intro absent) (simp_all add: sdb_view_def)
next
  case (Some obj)
  let ?s' = "snd (StateDB_getStateObject s a)"
  have get: "StateDB_getStateObject s a = (Some obj, ?s')" using Some by (metis prod.collapse)
  have obj: "soAddress obj = a" "obj_coherent (sdbDb s) obj" "\<not> soDeleted obj"
    "?s' = s \<or> ?s' = StateDB_setStateObject s obj" "sdbStateObjects ?s' = (sdbStateObjects s)(a \<mapsto> obj)"
    using wf Some obj_storage_newObject
    by (auto simp: StateDB_getStateObject_def sdb_wf_def Let_def newObject_def fun_eq_iff
        split: option.splits if_splits)
  have view: "sdb_view s a = Some (obj_view (sdbDb s) obj)" using Some by (simp add: sdb_view_def)
  have "sdb_wf ?s'" using obj wf by (auto intro: sdb_wf_setStateObject)
  moreover have "sdb_view ?s' = sdb_view s"
    using obj view by (auto simp: sdb_view_setStateObject)
  ultimately show ?thesis using get obj view by (intro present)
qed

lemma getStateObject_frame [simp]:
  "sdbDb (snd (StateDB_getStateObject s a)) = sdbDb s" "sdbTrie (snd (StateDB_getStateObject s a)) = sdbTrie s"
  "sdbRefund (snd (StateDB_getStateObject s a)) = sdbRefund s" "sdbLogs (snd (StateDB_getStateObject s a)) = sdbLogs s"
  "sdbLogSize (snd (StateDB_getStateObject s a)) = sdbLogSize s" "sdbThash (snd (StateDB_getStateObject s a)) = sdbThash s"
  "sdbPkgIndex (snd (StateDB_getStateObject s a)) = sdbPkgIndex s" "sdbTxIndex (snd (StateDB_getStateObject s a)) = sdbTxIndex s"
  "sdbJournal (snd (StateDB_getStateObject s a)) = sdbJournal s"
  "sdbValidRevisions (snd (StateDB_getStateObject s a)) = sdbValidRevisions s"
  "sdbNextRevisionId (snd (StateDB_getStateObject s a)) = sdbNextRevisionId s"
  "sdbStateObjectsDirty (snd (StateDB_getStateObject s a)) = sdbStateObjectsDirty s"
  by (auto simp: StateDB_getStateObject_def Let_def split: option.splits)

section \<open>Undoing an entry, on the visible state\<close>

fun undo_view :: "Database \<Rightarrow> (address \<rightharpoonup> Account) \<Rightarrow> journalEntry \<Rightarrow> sdb_abs \<Rightarrow> sdb_abs option" where
  "undo_view db tr (createObjectChange a) A =
     Some (A\<lparr>abView := (abView A)(a := map_option (\<lambda>d. obj_view db (newObject a d)) (tr a))\<rparr>)"
| "undo_view db tr (resetObjectChange p) A = Some (A\<lparr>abView := (abView A)(soAddress p \<mapsto> obj_view db p)\<rparr>)"
| "undo_view db tr (suicideChange a b n) A =
     Some (A\<lparr>abView := (abView A)(a := map_option
        (\<lambda>v. v\<lparr>avData := (avData v)\<lparr>acBalance := n\<rparr>, avSuicided := b\<rparr>) (abView A a))\<rparr>)"
| "undo_view db tr (touchChange a) A = Some A"
| "undo_view db tr (balanceChange a n) A =
     map_option (\<lambda>v. A\<lparr>abView := (abView A)(a \<mapsto> v\<lparr>avData := (avData v)\<lparr>acBalance := n\<rparr>\<rparr>)\<rparr>) (abView A a)"
| "undo_view db tr (nonceSetChange a ns) A =
     map_option (\<lambda>v. A\<lparr>abView := (abView A)(a \<mapsto> v\<lparr>avData := (avData v)\<lparr>acTxNonceSet := ns\<rparr>\<rparr>)\<rparr>) (abView A a)"
| "undo_view db tr (packageNonceSetChange a) A = Some A"
| "undo_view db tr (codeChange a c h) A =
     map_option (\<lambda>v. A\<lparr>abView := (abView A)(a \<mapsto>
        v\<lparr>avData := (avData v)\<lparr>acCodeHash := h\<rparr>, avCode := code_of db c h\<rparr>)\<rparr>) (abView A a)"
| "undo_view db tr (contractOwnerChange a ow) A =
     map_option (\<lambda>v. A\<lparr>abView := (abView A)(a \<mapsto> v\<lparr>avData := (avData v)\<lparr>acContractOwner := ow\<rparr>\<rparr>)\<rparr>) (abView A a)"
| "undo_view db tr (storageChange a k x) A =
     map_option (\<lambda>v. A\<lparr>abView := (abView A)(a \<mapsto> v\<lparr>avStorage := (avStorage v)(k := x)\<rparr>)\<rparr>) (abView A a)"
| "undo_view db tr (refundChange r) A = Some (A\<lparr>abRefund := r\<rparr>)"
| "undo_view db tr (addLogChange h) A =
     (if abLogs A h = [] then None
      else Some (A\<lparr>abLogs := (abLogs A)(h := butlast (abLogs A h)), abLogSize := abLogSize A - 1\<rparr>))"

lemma setTxNonceSet_eq:
  "stateObject_setTxNonceSet obj ns = obj\<lparr>soData := (soData obj)\<lparr>acTxNonceSet := ns\<rparr>\<rparr>"
  by (simp add: stateObject_setTxNonceSet_def NonceSet_DeepCopy_def)

lemma sdb_abs_simps [simp]:
  "abView (sdb_abs_of s) = sdb_view s" "abRefund (sdb_abs_of s) = sdbRefund s"
  "abLogs (sdb_abs_of s) = StateDB_GetLogs s" "abLogSize (sdb_abs_of s) = sdbLogSize s"
  by (simp_all add: sdb_abs_of_def)

lemma sdb_abs_journal [simp]:
  "sdb_abs_of (StateDB_journal s e) = sdb_abs_of s" "sdb_abs_of (s\<lparr>sdbJournal := j\<rparr>) = sdb_abs_of s"
  "sdb_env_of (StateDB_journal s e) = sdb_env_of s" "sdb_env_of (s\<lparr>sdbJournal := j\<rparr>) = sdb_env_of s"
  by (simp_all add: sdb_abs_of_def sdb_env_of_def StateDB_GetLogs_def fun_eq_iff)

lemma sdb_abs_setStateObject:
  "sdb_abs_of (StateDB_setStateObject s obj) = (sdb_abs_of s)\<lparr>abView := (sdb_view s)(soAddress obj :=
      if soDeleted obj then None else Some (obj_view (sdbDb s) obj))\<rparr>"
  "sdb_env_of (StateDB_setStateObject s obj) = sdb_env_of s"
  by (simp_all add: sdb_abs_of_def sdb_env_of_def sdb_view_setStateObject StateDB_GetLogs_def fun_eq_iff)

lemma sdb_abs_load:
  "s' = s \<or> s' = StateDB_setStateObject s obj \<Longrightarrow> sdb_view s' = sdb_view s \<Longrightarrow>
   sdb_abs_of s' = sdb_abs_of s \<and> sdb_env_of s' = sdb_env_of s \<and> sdbJournal s' = sdbJournal s \<and> sdbDb s' = sdbDb s"
  by (auto simp: sdb_abs_of_def sdb_env_of_def StateDB_GetLogs_def fun_eq_iff)

lemma revert_object_view:
  assumes wf: "sdb_wf s"
    and f: "\<And>obj. soAddress (f obj) = soAddress obj" "\<And>obj. soDeleted (f obj) = soDeleted obj"
      "\<And>obj. obj_coherent (sdbDb s) obj \<Longrightarrow> obj_coherent (sdbDb s) (f obj)"
      "\<And>obj. obj_view (sdbDb s) (f obj) = F (obj_view (sdbDb s) obj)"
  shows "map_option sdb_abs_of (revert_object s a f)
     = map_option (\<lambda>v. (sdb_abs_of s)\<lparr>abView := (sdb_view s)(a \<mapsto> F v)\<rparr>) (sdb_view s a)
    \<and> (\<forall>s'. revert_object s a f = Some s' \<longrightarrow>
          sdb_wf s' \<and> sdb_env_of s' = sdb_env_of s \<and> sdbJournal s' = sdbJournal s)"
proof (cases rule: getStateObject_cases [OF wf, of a])
  case 1
  then show ?thesis by (simp add: revert_object_def)
next
  case (2 obj s1)
  have "revert_object s a f = Some (StateDB_setStateObject s1 (f obj))"
    by (simp add: revert_object_def 2)
  then show ?thesis
    using 2 f sdb_abs_load [OF 2(3,9)]
    by (auto simp: sdb_abs_setStateObject intro!: sdb_wf_setStateObject)
qed

text \<open>Undoing an entry of the code is undoing it on the visible state.\<close>

lemma journalEntry_revert_view:
  assumes wf: "sdb_wf s" and ok: "entry_ok (sdbDb s) e"
  shows "map_option sdb_abs_of (journalEntry_revert e s) = undo_view (sdbDb s) (sdbTrie s) e (sdb_abs_of s)
    \<and> (\<forall>s'. journalEntry_revert e s = Some s' \<longrightarrow>
          sdb_wf s' \<and> sdb_env_of s' = sdb_env_of s \<and> sdbJournal s' = sdbJournal s)"
proof (cases e)
  case (createObjectChange a)
  then show ?thesis
    using wf by (auto simp: sdb_abs_of_def sdb_env_of_def sdb_wf_def StateDB_GetLogs_def fun_eq_iff
        sdb_view_def StateDB_getStateObject_def Let_def split: option.splits if_splits)
next
  case (resetObjectChange p)
  with ok wf show ?thesis
    by (auto simp: sdb_abs_setStateObject entry_ok_def intro!: sdb_wf_setStateObject)
next
  case (suicideChange a b n)
  show ?thesis
  proof (cases rule: getStateObject_cases [OF wf, of a])
    case 1
    then show ?thesis using wf by (simp add: suicideChange sdb_abs_of_def fun_eq_iff)
  next
    case (2 obj s1)
    then show ?thesis
      using sdb_abs_load [OF 2(3,9)]
      by (auto simp: suicideChange sdb_abs_setStateObject obj_view_suicide intro!: sdb_wf_setStateObject)
  qed
next
  case (balanceChange a n)
  then show ?thesis
    using revert_object_view [OF wf, of "\<lambda>obj. stateObject_setBalance obj n"
        "\<lambda>v. v\<lparr>avData := (avData v)\<lparr>acBalance := n\<rparr>\<rparr>" a]
    by (simp add: obj_view_setBalance)
next
  case (nonceSetChange a ns)
  then show ?thesis
    using revert_object_view [OF wf, of "\<lambda>obj. stateObject_setTxNonceSet obj ns"
        "\<lambda>v. v\<lparr>avData := (avData v)\<lparr>acTxNonceSet := ns\<rparr>\<rparr>" a]
    by (simp add: setTxNonceSet_eq obj_view_setTxNonceSet)
next
  case (storageChange a k x)
  then show ?thesis
    using revert_object_view [OF wf, of "\<lambda>obj. stateObject_setState obj k x"
        "\<lambda>v. v\<lparr>avStorage := (avStorage v)(k := x)\<rparr>" a]
    by (simp add: obj_view_setState obj_coherent_setState)
next
  case (codeChange a c h)
  then show ?thesis
    using revert_object_view [OF wf, of "\<lambda>obj. stateObject_setCode obj h c"
        "\<lambda>v. v\<lparr>avData := (avData v)\<lparr>acCodeHash := h\<rparr>, avCode := code_of (sdbDb s) c h\<rparr>" a]
    by (simp add: obj_view_setCode)
next
  case (contractOwnerChange a ow)
  then show ?thesis
    using revert_object_view [OF wf, of "\<lambda>obj. stateObject_setContractOwner obj ow"
        "\<lambda>v. v\<lparr>avData := (avData v)\<lparr>acContractOwner := ow\<rparr>\<rparr>" a]
    by (simp add: obj_view_setContractOwner)
next
  case (refundChange r)
  then show ?thesis
    using wf by (auto simp: sdb_abs_of_def sdb_env_of_def sdb_wf_def StateDB_GetLogs_def fun_eq_iff
        intro!: sdb_view_only_live [THEN fun_cong])
next
  case (addLogChange h)
  have v: "sdb_view (s\<lparr>sdbLogs := l, sdbLogSize := n\<rparr>) = sdb_view s" for l n
    by (rule sdb_view_only_live) simp_all
  have "length ls = 1 \<longleftrightarrow> (ls \<noteq> [] \<and> butlast ls = [])" for ls :: "Log list"
    by (cases ls) (auto split: if_splits)
  with addLogChange wf v show ?thesis
    by (auto simp: sdb_abs_of_def sdb_env_of_def sdb_wf_def StateDB_GetLogs_def fun_eq_iff Let_def
        split: option.splits)
qed (use wf in simp_all)

section \<open>Operations, on the visible state\<close>

definition zero_view :: "Database \<Rightarrow> account_view" where
  "zero_view db =
     \<lparr>avData = Account_zero db, avCode = None,
      avStorage = (case dbOpenStorageTrie db 0 of Some t \<Rightarrow> t | None \<Rightarrow> Map.empty), avSuicided = False\<rparr>"

definition get_view :: "StateDB \<Rightarrow> address \<Rightarrow> account_view" where
  "get_view s a = (case sdb_view s a of None \<Rightarrow> zero_view (sdbDb s) | Some v \<Rightarrow> v)"

lemma obj_view_zero: "obj_view db (newObject a (Account_zero db)) = zero_view db"
  by (simp add: obj_view_def zero_view_def newObject_def fst_stateObject_Code code_of_def
      Account_zero_def obj_storage_def obj_trie_def fun_eq_iff)

lemma GetOrNew_spec:
  assumes wf: "sdb_wf s"
  obtains obj s' where "StateDB_GetOrNewStateObject s a = (obj, s')" "sdb_wf s'"
    "soAddress obj = a" "obj_coherent (sdbDb s) obj" "\<not> soDeleted obj"
    "obj_view (sdbDb s) obj = get_view s a"
    "sdb_abs_of s' = (sdb_abs_of s)\<lparr>abView := (sdb_view s)(a \<mapsto> get_view s a)\<rparr>"
    "sdb_env_of s' = sdb_env_of s" "sdbDb s' = sdbDb s"
    "jEntries (sdbJournal s') = jEntries (sdbJournal s)
       @ (if sdb_view s a = None then [createObjectChange a] else [])"
    "sdb_view s a = None \<Longrightarrow> sdbTrie s a = None"
proof (cases rule: getStateObject_cases [OF wf, of a])
  case 1
  let ?o = "newObject a (Account_zero (sdbDb s))"
  let ?s' = "StateDB_setStateObject (StateDB_journal s (createObjectChange a)) ?o"
  have o: "soAddress ?o = a" "\<not> soDeleted ?o" by (simp_all add: newObject_def)
  show ?thesis
  proof (rule that [of ?o ?s'])
    show "StateDB_GetOrNewStateObject s a = (?o, ?s')"
      using 1 by (simp add: StateDB_GetOrNewStateObject_def StateDB_createObject_def Let_def)
  qed (use 1 wf o obj_storage_newObject in
      \<open>auto simp: sdb_abs_setStateObject obj_view_zero get_view_def intro!: sdb_wf_setStateObject\<close>)
next
  case (2 obj s1)
  show ?thesis
    by (rule that [of obj s1])
      (use 2 sdb_abs_load [OF 2(3,9)] in
        \<open>auto simp: StateDB_GetOrNewStateObject_def get_view_def sdb_abs_of_def fun_eq_iff\<close>)
qed

datatype sdb_op =
    OpLoad address
  | OpAddBalance address int
  | OpSubBalance address int
  | OpSetBalance address int
  | OpSetCode address bytes
  | OpSetContractOwner address address
  | OpSetState address StorageKey "bytes option"
  | OpSuicide address
  | OpCreateAccount address
  | OpUpdateTxNonceSet address NonceSet
  | OpAddLog Log
  | OpAddRefund u64
  | OpSnapshot

fun sdb_exec :: "sdb_op \<Rightarrow> StateDB \<Rightarrow> StateDB" where
  "sdb_exec (OpLoad a) s = snd (StateDB_getStateObject s a)"
| "sdb_exec (OpAddBalance a n) s = StateDB_AddBalance s a n"
| "sdb_exec (OpSubBalance a n) s = StateDB_SubBalance s a n"
| "sdb_exec (OpSetBalance a n) s = StateDB_SetBalance s a n"
| "sdb_exec (OpSetCode a c) s = StateDB_SetCode s a c"
| "sdb_exec (OpSetContractOwner a w) s = StateDB_SetContractOwner s a w"
| "sdb_exec (OpSetState a k v) s = StateDB_SetState s a k v"
| "sdb_exec (OpSuicide a) s = snd (StateDB_Suicide s a)"
| "sdb_exec (OpCreateAccount a) s = StateDB_CreateAccount s a"
| "sdb_exec (OpUpdateTxNonceSet a ns) s = StateDB_UpdateTxNonceSet s a ns"
| "sdb_exec (OpAddLog lg) s = StateDB_AddLog s lg"
| "sdb_exec (OpAddRefund g) s = StateDB_AddRefund s g"
| "sdb_exec OpSnapshot s = snd (StateDB_Snapshot s)"

text \<open>What each operation does to the visible state.\<close>

fun sdb_spec :: "sdb_env \<Rightarrow> sdb_op \<Rightarrow> sdb_abs \<Rightarrow> sdb_abs" where
  "sdb_spec (db, tr, th, pix, tix) opr A =
    (let gv = (\<lambda>a. case abView A a of None \<Rightarrow> zero_view db | Some v \<Rightarrow> v);
         upd = (\<lambda>a f. A\<lparr>abView := (abView A)(a \<mapsto> f (gv a))\<rparr>);
         upd' = (\<lambda>a f. case abView A a of None \<Rightarrow> A | Some v \<Rightarrow> A\<lparr>abView := (abView A)(a \<mapsto> f v)\<rparr>)
     in case opr of
          OpLoad a \<Rightarrow> A
        | OpAddBalance a n \<Rightarrow> upd a (\<lambda>v. v\<lparr>avData := (avData v)\<lparr>acBalance := acBalance (avData v) + n\<rparr>\<rparr>)
        | OpSubBalance a n \<Rightarrow> upd a (\<lambda>v. v\<lparr>avData := (avData v)\<lparr>acBalance := acBalance (avData v) - n\<rparr>\<rparr>)
        | OpSetBalance a n \<Rightarrow> upd a (\<lambda>v. v\<lparr>avData := (avData v)\<lparr>acBalance := n\<rparr>\<rparr>)
        | OpSetCode a c \<Rightarrow>
            upd a (\<lambda>v. v\<lparr>avData := (avData v)\<lparr>acCodeHash := dbKeccak db c\<rparr>, avCode := Some c\<rparr>)
        | OpSetContractOwner a w \<Rightarrow> upd a (\<lambda>v. v\<lparr>avData := (avData v)\<lparr>acContractOwner := w\<rparr>\<rparr>)
        | OpSetState a k x \<Rightarrow> upd a (\<lambda>v. v\<lparr>avStorage := (avStorage v)(k := x)\<rparr>)
        | OpSuicide a \<Rightarrow> upd' a (\<lambda>v. v\<lparr>avData := (avData v)\<lparr>acBalance := 0\<rparr>, avSuicided := True\<rparr>)
        | OpCreateAccount a \<Rightarrow>
            upd a (\<lambda>v. (zero_view db)\<lparr>avData := (Account_zero db)\<lparr>acBalance := acBalance (avData v)\<rparr>\<rparr>)
        | OpUpdateTxNonceSet a ns \<Rightarrow> upd' a (\<lambda>v. v\<lparr>avData := (avData v)\<lparr>acTxNonceSet := ns\<rparr>\<rparr>)
        | OpAddLog lg \<Rightarrow>
            A\<lparr>abLogs := (abLogs A)(th := abLogs A th @
                [lg\<lparr>lgTxHash := th, lgPkgIndex := pix, lgTxIndex := tix, lgIndex := abLogSize A\<rparr>]),
              abLogSize := abLogSize A + 1\<rparr>
        | OpAddRefund g \<Rightarrow> A\<lparr>abRefund := abRefund A + g\<rparr>
        | OpSnapshot \<Rightarrow> A)"

fun undo_views :: "Database \<Rightarrow> (address \<rightharpoonup> Account) \<Rightarrow> journalEntry list \<Rightarrow> sdb_abs \<Rightarrow> sdb_abs option" where
  "undo_views db tr [] A = Some A"
| "undo_views db tr (e # es) A =
     (case undo_view db tr e A of None \<Rightarrow> None | Some B \<Rightarrow> undo_views db tr es B)"

text \<open>The contract of one operation: what it does and that its entries undo it.\<close>

definition op_ok :: "StateDB \<Rightarrow> StateDB \<Rightarrow> sdb_abs \<Rightarrow> bool" where
  "op_ok s t A \<longleftrightarrow>
     sdb_wf t \<and> sdb_env_of t = sdb_env_of s \<and> sdb_abs_of t = A
     \<and> (\<exists>es. jEntries (sdbJournal t) = jEntries (sdbJournal s) @ es \<and> list_all (entry_ok (sdbDb s)) es
          \<and> undo_views (sdbDb s) (sdbTrie s) (rev es) A = Some (sdb_abs_of s))"

text \<open>The operations that change one account they may first have to create.\<close>

lemma modify_ok:
  assumes wf: "sdb_wf s" and get: "StateDB_GetOrNewStateObject s a = (obj, s')"
    and obj': "soAddress obj' = a" "\<not> soDeleted obj'" "obj_coherent (sdbDb s) obj'"
    and undo: "undo_view (sdbDb s) (sdbTrie s) e
        ((sdb_abs_of s)\<lparr>abView := (sdb_view s)(a \<mapsto> obj_view (sdbDb s) obj')\<rparr>)
      = Some ((sdb_abs_of s)\<lparr>abView := (sdb_view s)(a \<mapsto> obj_view (sdbDb s) obj)\<rparr>)"
    and ok: "entry_ok (sdbDb s) e"
  shows "op_ok s (StateDB_setStateObject (StateDB_journal s' e) obj')
    ((sdb_abs_of s)\<lparr>abView := (sdb_view s)(a \<mapsto> obj_view (sdbDb s) obj')\<rparr>)"
proof -
  from GetOrNew_spec [OF wf, of a] get have
    g: "sdb_wf s'" "obj_view (sdbDb s) obj = get_view s a"
      "sdb_abs_of s' = (sdb_abs_of s)\<lparr>abView := (sdb_view s)(a \<mapsto> get_view s a)\<rparr>"
      "sdb_env_of s' = sdb_env_of s" "sdbDb s' = sdbDb s"
      "jEntries (sdbJournal s') = jEntries (sdbJournal s)
         @ (if sdb_view s a = None then [createObjectChange a] else [])"
      "sdb_view s a = None \<longrightarrow> sdbTrie s a = None"
    by (metis prod.inject)+
  have "undo_views (sdbDb s) (sdbTrie s)
      (rev ((if sdb_view s a = None then [createObjectChange a] else []) @ [e]))
      ((sdb_abs_of s)\<lparr>abView := (sdb_view s)(a \<mapsto> obj_view (sdbDb s) obj')\<rparr>) = Some (sdb_abs_of s)"
    using undo g(2,7) by (auto simp: get_view_def sdb_abs_of_def fun_eq_iff split: option.splits)
  moreover have "sdb_view s' = (sdb_view s)(a \<mapsto> get_view s a)"
    using g(3) by (metis sdb_abs_simps(1) sdb_abs.select_convs(1) sdb_abs.surjective sdb_abs.update_convs(1))
  then have "sdb_abs_of (StateDB_setStateObject (StateDB_journal s' e) obj')
      = (sdb_abs_of s)\<lparr>abView := (sdb_view s)(a \<mapsto> obj_view (sdbDb s) obj')\<rparr>"
    using obj' g(3,5) by (simp add: sdb_abs_setStateObject)
  moreover have "sdb_wf (StateDB_setStateObject (StateDB_journal s' e) obj')"
    using obj' g(1,5) by (auto intro!: sdb_wf_setStateObject)
  ultimately show ?thesis
    unfolding op_ok_def using g(4,6) ok
    by (auto simp: sdb_abs_setStateObject entry_ok_def)
qed

lemma sdb_env_simps [simp]: "sdb_spec (sdb_env_of s) opr (sdb_abs_of s) = sdb_spec
   (sdbDb s, sdbTrie s, sdbThash s, sdbPkgIndex s, sdbTxIndex s) opr (sdb_abs_of s)"
  by (simp add: sdb_env_of_def)

lemma gv_get_view: "(case sdb_view s a of None \<Rightarrow> zero_view (sdbDb s) | Some v \<Rightarrow> v) = get_view s a"
  by (simp add: get_view_def)

lemma op_ok_load:
  assumes "sdb_wf s"
  shows "op_ok s (snd (StateDB_getStateObject s a)) (sdb_abs_of s)"
proof (cases rule: getStateObject_cases [OF assms, of a])
  case 1
  then show ?thesis using assms by (auto simp: op_ok_def)
next
  case (2 obj s1)
  then show ?thesis using sdb_abs_load [OF 2(3,9)] by (auto simp: op_ok_def)
qed

lemma op_ok_getOrNew:
  assumes wf: "sdb_wf s" and get: "StateDB_GetOrNewStateObject s a = (obj, s')"
  shows "op_ok s s' ((sdb_abs_of s)\<lparr>abView := (sdb_view s)(a \<mapsto> get_view s a)\<rparr>)"
proof -
  from GetOrNew_spec [OF wf, of a] get have
    g: "sdb_wf s'" "sdb_abs_of s' = (sdb_abs_of s)\<lparr>abView := (sdb_view s)(a \<mapsto> get_view s a)\<rparr>"
      "sdb_env_of s' = sdb_env_of s"
      "jEntries (sdbJournal s') = jEntries (sdbJournal s)
         @ (if sdb_view s a = None then [createObjectChange a] else [])"
      "sdb_view s a = None \<longrightarrow> sdbTrie s a = None"
    by (metis prod.inject)+
  then show ?thesis
    by (auto simp: op_ok_def entry_ok_def get_view_def sdb_abs_of_def fun_eq_iff split: option.splits)
qed

lemma view_set_same_balance: "v\<lparr>avData := (avData v)\<lparr>acBalance := acBalance (avData v)\<rparr>\<rparr> = v"
  by simp

lemma op_ok_SetBalance:
  assumes wf: "sdb_wf s" and get: "StateDB_GetOrNewStateObject s a = (obj, s')"
  shows "op_ok s (stateObject_SetBalance s' obj n) ((sdb_abs_of s)\<lparr>abView :=
     (sdb_view s)(a \<mapsto> (get_view s a)\<lparr>avData := (avData (get_view s a))\<lparr>acBalance := n\<rparr>\<rparr>)\<rparr>)"
    and "acBalance (soData obj) = acBalance (avData (get_view s a))"
proof -
  from GetOrNew_spec [OF wf, of a] get have
    g: "soAddress obj = a" "obj_coherent (sdbDb s) obj" "\<not> soDeleted obj" "obj_view (sdbDb s) obj = get_view s a"
    by (metis prod.inject)+
  then show bal: "acBalance (soData obj) = acBalance (avData (get_view s a))"
    by (metis obj_view_def account_view.select_convs(1))
  show "op_ok s (stateObject_SetBalance s' obj n) ((sdb_abs_of s)\<lparr>abView :=
     (sdb_view s)(a \<mapsto> (get_view s a)\<lparr>avData := (avData (get_view s a))\<lparr>acBalance := n\<rparr>\<rparr>)\<rparr>)"
    using modify_ok [OF wf get, of "stateObject_setBalance obj n" "balanceChange a (acBalance (soData obj))"] g
    by (simp add: stateObject_SetBalance_def obj_view_setBalance entry_ok_def bal)
qed

lemma op_ok_touch: "op_ok s t A \<Longrightarrow> op_ok s (StateDB_touch t a) A"
proof -
  assume a: "op_ok s t A"
  then obtain es where es: "jEntries (sdbJournal t) = jEntries (sdbJournal s) @ es"
    "list_all (entry_ok (sdbDb s)) es" "undo_views (sdbDb s) (sdbTrie s) (rev es) A = Some (sdb_abs_of s)"
    by (auto simp: op_ok_def)
  let ?es = "es @ [touchChange a]"
  have "jEntries (sdbJournal (StateDB_touch t a)) = jEntries (sdbJournal s) @ ?es"
    using es by (simp add: StateDB_touch_def journal_dirty_def Let_def)
  moreover have "list_all (entry_ok (sdbDb s)) ?es" "undo_views (sdbDb s) (sdbTrie s) (rev ?es) A = Some (sdb_abs_of s)"
    using es by (simp_all add: entry_ok_def)
  ultimately show ?thesis
    using a unfolding op_ok_def by (auto simp: StateDB_touch_def Let_def)
qed

lemma op_ok_AddBalance:
  assumes wf: "sdb_wf s"
  shows "op_ok s (StateDB_AddBalance s a n) (sdb_spec (sdb_env_of s) (OpAddBalance a n) (sdb_abs_of s))"
proof (cases "StateDB_GetOrNewStateObject s a")
  case (Pair obj s')
  note sb = op_ok_SetBalance [OF wf Pair]
  show ?thesis
    using sb(1) [of "acBalance (soData obj) + n"] sb(2) op_ok_getOrNew [OF wf Pair]
      op_ok_touch [OF op_ok_getOrNew [OF wf Pair]]
    by (auto simp: StateDB_AddBalance_def Pair gv_get_view Let_def)
qed

lemma op_ok_SubBalance:
  assumes wf: "sdb_wf s"
  shows "op_ok s (StateDB_SubBalance s a n) (sdb_spec (sdb_env_of s) (OpSubBalance a n) (sdb_abs_of s))"
proof (cases "StateDB_GetOrNewStateObject s a")
  case (Pair obj s')
  note sb = op_ok_SetBalance [OF wf Pair]
  show ?thesis
    using sb(1) [of "acBalance (soData obj) - n"] sb(2) op_ok_getOrNew [OF wf Pair]
    by (auto simp: StateDB_SubBalance_def Pair gv_get_view Let_def)
qed

lemma op_ok_SetBalance_op:
  assumes wf: "sdb_wf s"
  shows "op_ok s (StateDB_SetBalance s a n) (sdb_spec (sdb_env_of s) (OpSetBalance a n) (sdb_abs_of s))"
proof (cases "StateDB_GetOrNewStateObject s a")
  case (Pair obj s')
  then show ?thesis
    using op_ok_SetBalance(1) [OF wf Pair, of n]
    by (auto simp: StateDB_SetBalance_def gv_get_view Let_def)
qed

lemma op_ok_SetContractOwner:
  assumes wf: "sdb_wf s"
  shows "op_ok s (StateDB_SetContractOwner s a w) (sdb_spec (sdb_env_of s) (OpSetContractOwner a w) (sdb_abs_of s))"
proof (cases "StateDB_GetOrNewStateObject s a")
  case (Pair obj s')
  from GetOrNew_spec [OF wf, of a] Pair have
    g: "soAddress obj = a" "obj_coherent (sdbDb s) obj" "\<not> soDeleted obj" "obj_view (sdbDb s) obj = get_view s a"
    by (metis prod.inject)+
  then have "acContractOwner (soData obj) = acContractOwner (avData (get_view s a))"
    by (metis obj_view_def account_view.select_convs(1))
  with modify_ok [OF wf Pair, of "stateObject_setContractOwner obj w"
      "contractOwnerChange a (acContractOwner (soData obj))"] g show ?thesis
    by (simp add: StateDB_SetContractOwner_def Pair obj_view_setContractOwner entry_ok_def gv_get_view Let_def)
qed

lemma op_ok_SetState:
  assumes wf: "sdb_wf s"
  shows "op_ok s (StateDB_SetState s a k x) (sdb_spec (sdb_env_of s) (OpSetState a k x) (sdb_abs_of s))"
proof (cases "StateDB_GetOrNewStateObject s a")
  case (Pair obj s')
  from GetOrNew_spec [OF wf, of a] Pair have
    g: "soAddress obj = a" "obj_coherent (sdbDb s) obj" "\<not> soDeleted obj" "obj_view (sdbDb s) obj = get_view s a"
    by (metis prod.inject)+
  obtain p obj1 where get: "stateObject_GetState (sdbDb s) obj k = (p, obj1)" by (metis surj_pair)
  note keep = stateObject_GetState_keeps [OF g(2) get]
  have p: "p = avStorage (get_view s a) k"
    using keep(5) g(4) by (metis obj_view_def account_view.select_convs(3))
  with modify_ok [OF wf Pair, of "stateObject_setState obj1 k x" "storageChange a k p"] g keep(1-4) show ?thesis
    by (simp add: StateDB_SetState_def Pair get obj_view_setState obj_coherent_setState entry_ok_def
        gv_get_view Let_def)
qed

lemma op_ok_SetCode:
  assumes wf: "sdb_wf s"
  shows "op_ok s (StateDB_SetCode s a c) (sdb_spec (sdb_env_of s) (OpSetCode a c) (sdb_abs_of s))"
proof (cases "StateDB_GetOrNewStateObject s a")
  case (Pair obj s')
  from GetOrNew_spec [OF wf, of a] Pair have
    g: "soAddress obj = a" "obj_coherent (sdbDb s) obj" "\<not> soDeleted obj" "obj_view (sdbDb s) obj = get_view s a"
    by (metis prod.inject)+
  obtain p obj1 where get: "stateObject_Code (sdbDb s) obj = (p, obj1)" by (metis surj_pair)
  note keep = stateObject_Code_keeps [OF get]
  have d: "soData obj = avData (get_view s a)"
    using g(4) by (metis obj_view_def account_view.select_convs(1))
  have p: "code_of (sdbDb s) p (acCodeHash (avData (get_view s a))) = avCode (get_view s a)"
    using avCode_code_of [of "sdbDb s" obj] by (simp add: keep(5) g(4) d)
  have c: "code_of (sdbDb s) (Some c) h = Some c" for h by (simp add: code_of_def)
  from modify_ok [OF wf Pair, of "stateObject_setCode obj1 (dbKeccak (sdbDb s) c) (Some c)"
      "codeChange a p (acCodeHash (soData obj))"] g keep(1-4) show ?thesis
    by (simp add: StateDB_SetCode_def Pair get obj_view_setCode entry_ok_def gv_get_view Let_def c d p)
qed

text \<open>The operations on an account that must exist.\<close>

lemma modify_existing_ok:
  assumes wf: "sdb_wf s" and get: "StateDB_getStateObject s a = (Some obj, s')"
    and obj': "soAddress obj' = a" "\<not> soDeleted obj'" "obj_coherent (sdbDb s) obj'"
    and undo: "undo_view (sdbDb s) (sdbTrie s) e
        ((sdb_abs_of s)\<lparr>abView := (sdb_view s)(a \<mapsto> obj_view (sdbDb s) obj')\<rparr>) = Some (sdb_abs_of s)"
    and ok: "entry_ok (sdbDb s) e"
  shows "op_ok s (StateDB_setStateObject (StateDB_journal s' e) obj')
    ((sdb_abs_of s)\<lparr>abView := (sdb_view s)(a \<mapsto> obj_view (sdbDb s) obj')\<rparr>)"
proof (cases rule: getStateObject_cases [OF wf, of a])
  case (2 obj2 s1)
  then have eq: "obj2 = obj" "s1 = s'" using get by auto
  note l = sdb_abs_load [OF 2(3,9), unfolded eq]
  have "sdb_wf (StateDB_setStateObject (StateDB_journal s' e) obj')"
    using 2 eq obj' l by (intro sdb_wf_setStateObject) auto
  then show ?thesis
    unfolding op_ok_def using l undo ok obj' 2 eq
    by (auto simp: sdb_abs_setStateObject intro!: exI [of _ "[e]"])
qed (use get in simp)

lemma abs_view_restore:
  "sdb_view s a = Some v \<Longrightarrow> (sdb_abs_of s)\<lparr>abView := (sdb_view s)(a \<mapsto> v)\<rparr> = sdb_abs_of s"
  by (auto simp: sdb_abs_of_def fun_eq_iff)

lemma op_ok_Suicide:
  assumes wf: "sdb_wf s"
  shows "op_ok s (snd (StateDB_Suicide s a)) (sdb_spec (sdb_env_of s) (OpSuicide a) (sdb_abs_of s))"
proof (cases rule: getStateObject_cases [OF wf, of a])
  case 1
  then show ?thesis using wf by (auto simp: StateDB_Suicide_def op_ok_def)
next
  case (2 obj s1)
  let ?e = "suicideChange a (soSuicided obj) (acBalance (soData obj))"
  have v: "(obj_view (sdbDb s) obj)\<lparr>avData := (avData (obj_view (sdbDb s) obj))\<lparr>acBalance := acBalance (soData obj)\<rparr>,
     avSuicided := soSuicided obj\<rparr> = obj_view (sdbDb s) obj"
    by (simp add: obj_view_def)
  from modify_existing_ok [OF wf 2(1), of "stateObject_setBalance (stateObject_markSuicided obj) 0" ?e] 2 v
  show ?thesis
    by (simp add: StateDB_Suicide_def stateObject_markSuicided_def obj_view_suicide entry_ok_def
        abs_view_restore Let_def)
qed

lemma op_ok_UpdateTxNonceSet:
  assumes wf: "sdb_wf s"
  shows "op_ok s (StateDB_UpdateTxNonceSet s a ns)
    (sdb_spec (sdb_env_of s) (OpUpdateTxNonceSet a ns) (sdb_abs_of s))"
proof (cases rule: getStateObject_cases [OF wf, of a])
  case 1
  then show ?thesis using wf by (auto simp: StateDB_UpdateTxNonceSet_def op_ok_def)
next
  case (2 obj s1)
  let ?obj' = "obj\<lparr>soData := (soData obj)\<lparr>acTxNonceSet := ns\<rparr>\<rparr>"
  let ?e = "nonceSetChange a (acTxNonceSet (soData obj))"
  have new: "NewNonceSet x = x" for x by (simp add: NewNonceSet_def NonceSet_DeepCopy_def NonceSet_zero_def)
  have v: "(obj_view (sdbDb s) obj)\<lparr>avData := (avData (obj_view (sdbDb s) obj))\<lparr>acTxNonceSet := acTxNonceSet (soData obj)\<rparr>\<rparr>
     = obj_view (sdbDb s) obj"
    by (simp add: obj_view_def)
  have swap: "StateDB_journal (StateDB_setStateObject s1 o1) e = StateDB_setStateObject (StateDB_journal s1 e) o1" for o1 e
    by (simp add: StateDB_journal_def StateDB_setStateObject_def)
  from modify_existing_ok [OF wf 2(1), of ?obj' ?e] 2 v show ?thesis
    by (simp add: StateDB_UpdateTxNonceSet_def StateDB_MarkNonceSetJournal_def new swap
        obj_view_setTxNonceSet entry_ok_def abs_view_restore Let_def)
qed

lemma op_ok_AddRefund: "sdb_wf s \<Longrightarrow>
  op_ok s (StateDB_AddRefund s g) (sdb_spec (sdb_env_of s) (OpAddRefund g) (sdb_abs_of s))"
  unfolding op_ok_def
  by (auto simp: StateDB_AddRefund_def sdb_abs_of_def sdb_env_of_def sdb_wf_def entry_ok_def Let_def
      StateDB_GetLogs_def fun_eq_iff intro!: sdb_view_only_live [THEN fun_cong])

lemma op_ok_AddLog: "sdb_wf s \<Longrightarrow>
  op_ok s (StateDB_AddLog s lg) (sdb_spec (sdb_env_of s) (OpAddLog lg) (sdb_abs_of s))"
  unfolding op_ok_def
  by (auto simp: StateDB_AddLog_def sdb_abs_of_def sdb_env_of_def sdb_wf_def entry_ok_def Let_def
      StateDB_GetLogs_def fun_eq_iff intro!: sdb_view_only_live [THEN fun_cong])

lemma op_ok_CreateAccount:
  assumes wf: "sdb_wf s"
  shows "op_ok s (StateDB_CreateAccount s a) (sdb_spec (sdb_env_of s) (OpCreateAccount a) (sdb_abs_of s))"
proof (cases rule: getStateObject_cases [OF wf, of a])
  case 1
  have "StateDB_GetOrNewStateObject s a = (newObject a (Account_zero (sdbDb s)), StateDB_CreateAccount s a)"
    using 1 by (simp add: StateDB_GetOrNewStateObject_def StateDB_CreateAccount_def StateDB_createObject_def Let_def)
  from op_ok_getOrNew [OF wf this] 1 show ?thesis
    by (simp add: get_view_def Let_def zero_view_def)
next
  case (2 obj s1)
  let ?n = "stateObject_setBalance (newObject a (Account_zero (sdbDb s))) (acBalance (soData obj))"
  let ?e = "resetObjectChange obj"
  have addr: "soAddress (newObject a d) = a" "\<not> soDeleted (newObject a d)" for d
    by (simp_all add: newObject_def)
  have "StateDB_CreateAccount s a = StateDB_setStateObject (StateDB_journal s1 ?e) ?n"
    using 2 by (simp add: StateDB_CreateAccount_def StateDB_createObject_def Let_def StateDB_setStateObject_def addr)
  moreover have "acBalance (soData obj) = acBalance (avData (obj_view (sdbDb s) obj))"
    by (simp add: obj_view_def)
  moreover have "(zero_view (sdbDb s))\<lparr>avData := (avData (zero_view (sdbDb s)))\<lparr>acBalance := n\<rparr>\<rparr>
    = (zero_view (sdbDb s))\<lparr>avData := (Account_zero (sdbDb s))\<lparr>acBalance := n\<rparr>\<rparr>" for n
    by (simp add: zero_view_def)
  ultimately show ?thesis
    using modify_existing_ok [OF wf 2(1), of ?n ?e] 2 addr obj_storage_newObject
    by (simp add: obj_view_setBalance obj_view_zero entry_ok_def abs_view_restore Let_def)
qed

lemma op_ok_Snapshot: "sdb_wf s \<Longrightarrow>
  op_ok s (snd (StateDB_Snapshot s)) (sdb_spec (sdb_env_of s) OpSnapshot (sdb_abs_of s))"
  unfolding op_ok_def
  by (auto simp: StateDB_Snapshot_def sdb_abs_of_def sdb_env_of_def sdb_wf_def Let_def
      StateDB_GetLogs_def fun_eq_iff intro!: sdb_view_only_live [THEN fun_cong])

lemma sdb_exec_ok: "sdb_wf s \<Longrightarrow> op_ok s (sdb_exec opr s) (sdb_spec (sdb_env_of s) opr (sdb_abs_of s))"
proof (cases opr)
  case (OpLoad a)
  assume "sdb_wf s"
  from op_ok_load [OF this, of a] OpLoad show ?thesis by (simp add: Let_def sdb_env_of_def)
qed (auto simp: op_ok_AddBalance op_ok_SubBalance op_ok_SetBalance_op op_ok_SetCode
    op_ok_SetContractOwner op_ok_SetState op_ok_Suicide op_ok_CreateAccount op_ok_UpdateTxNonceSet
    op_ok_AddLog op_ok_AddRefund op_ok_Snapshot simp del: sdb_spec.simps sdb_env_simps)

section \<open>The contract of a journal\<close>

text \<open>
  A store whose operations log how to undo them: \<open>wf\<close> the representation invariant, \<open>same\<close> what
  clients can tell apart, \<open>log\<close> the entries so far. The laws: undoing respects \<open>same\<close>, and the
  entries that an operation appends undo that operation.
\<close>

locale journaled_store =
  fixes wf :: "'s \<Rightarrow> bool"
    and same :: "'s \<Rightarrow> 's \<Rightarrow> bool"
    and log :: "'s \<Rightarrow> 'e list"
    and ok :: "'s \<Rightarrow> 'e \<Rightarrow> bool"
    and undo_all :: "'e list \<Rightarrow> 's \<Rightarrow> 's option"
    and exec :: "'o \<Rightarrow> 's \<Rightarrow> 's"
  assumes same_refl: "same s s"
    and same_sym: "same s t \<Longrightarrow> same t s"
    and same_trans: "same s t \<Longrightarrow> same t u \<Longrightarrow> same s u"
    and ok_same: "same s t \<Longrightarrow> ok s e = ok t e"
    and undo_nil: "undo_all [] s = Some s"
    and undo_append: "undo_all (es @ fs) s = Option.bind (undo_all es s) (undo_all fs)"
    and undo_same: "wf s \<Longrightarrow> wf t \<Longrightarrow> same s t \<Longrightarrow> list_all (ok s) es \<Longrightarrow> undo_all es s = Some s' \<Longrightarrow>
      \<exists>t'. undo_all es t = Some t' \<and> wf s' \<and> wf t' \<and> same s' t'"
    and exec_wf: "wf s \<Longrightarrow> wf (exec p s)"
    and exec_ok: "wf s \<Longrightarrow> ok (exec p s) e = ok s e"
    and exec_undo: "wf s \<Longrightarrow> \<exists>es s'. log (exec p s) = log s @ es \<and> list_all (ok s) es
      \<and> undo_all (rev es) (exec p s) = Some s' \<and> wf s' \<and> same s' s"
begin

lemma run_undo:
  "wf s \<Longrightarrow> \<exists>es s'. log (fold exec ps s) = log s @ es \<and> list_all (ok s) es \<and> wf (fold exec ps s)
     \<and> undo_all (rev es) (fold exec ps s) = Some s' \<and> wf s' \<and> same s' s"
proof (induction ps arbitrary: s)
  case Nil
  then show ?case by (auto simp: undo_nil same_refl)
next
  case (Cons p ps)
  obtain es s1 where 1: "log (exec p s) = log s @ es" "list_all (ok s) es"
    "undo_all (rev es) (exec p s) = Some s1" "wf s1" "same s1 s"
    using exec_undo [OF Cons.prems] by blast
  obtain fs s2 where 2: "log (fold exec ps (exec p s)) = log (exec p s) @ fs" "list_all (ok (exec p s)) fs"
    "wf (fold exec ps (exec p s))" "undo_all (rev fs) (fold exec ps (exec p s)) = Some s2" "wf s2"
    "same s2 (exec p s)"
    using Cons.IH [OF exec_wf [OF Cons.prems]] by blast
  have "list_all (ok (exec p s)) (rev es)"
    using 1(2) exec_ok [OF Cons.prems] by (simp add: list_all_iff)
  from undo_same [OF exec_wf [OF Cons.prems, of p] 2(5) same_sym [OF 2(6)] this 1(3)]
  obtain s3 where 3: "undo_all (rev es) s2 = Some s3" "wf s3" "same s1 s3" by blast
  have s3: "same s3 s" using same_trans [OF same_sym [OF 3(3)] 1(5)] .
  show ?case
  proof (intro exI conjI)
    show "log (fold exec (p # ps) s) = log s @ (es @ fs)" using 1(1) 2(1) by simp
    show "list_all (ok s) (es @ fs)" using 1(2) 2(2) exec_ok [OF Cons.prems] by (auto simp: list_all_iff)
    show "undo_all (rev (es @ fs)) (fold exec (p # ps) s) = Some s3"
      using 2(4) 3(1) by (simp add: undo_append)
  qed (use 2 3 s3 in auto)
qed

end

subsection \<open>The state database is such a store\<close>

lemma journal_revert_loop_append:
  "journal_revert_loop (es @ fs) s = Option.bind (journal_revert_loop es s) (journal_revert_loop fs)"
  by (induction es arbitrary: s) (auto split: option.splits)

lemma sdb_env_db: "sdb_env_of s = sdb_env_of t \<Longrightarrow> sdbDb s = sdbDb t \<and> sdbTrie s = sdbTrie t"
  by (simp add: sdb_env_of_def)

lemma journal_revert_loop_view:
  "sdb_wf s \<Longrightarrow> list_all (entry_ok (sdbDb s)) es \<Longrightarrow>
   map_option sdb_abs_of (journal_revert_loop es s) = undo_views (sdbDb s) (sdbTrie s) es (sdb_abs_of s)
   \<and> (\<forall>s'. journal_revert_loop es s = Some s' \<longrightarrow> sdb_wf s' \<and> sdb_env_of s' = sdb_env_of s
        \<and> jEntries (sdbJournal s') = jEntries (sdbJournal s))"
proof (induction es arbitrary: s)
  case (Cons e es)
  have v: "map_option sdb_abs_of (journalEntry_revert e s) = undo_view (sdbDb s) (sdbTrie s) e (sdb_abs_of s)"
    "\<And>s'. journalEntry_revert e s = Some s' \<Longrightarrow>
       sdb_wf s' \<and> sdb_env_of s' = sdb_env_of s \<and> sdbJournal s' = sdbJournal s"
    using journalEntry_revert_view [of s e] Cons.prems by auto
  show ?case
  proof (cases "journalEntry_revert e s")
    case None
    with v(1) show ?thesis by (auto split: option.splits)
  next
    case (Some s1)
    let ?s2 = "s1\<lparr>sdbJournal := journal_undirty (sdbJournal s1) e\<rparr>"
    have s1: "sdb_wf s1" "sdb_env_of s1 = sdb_env_of s" "sdbJournal s1 = sdbJournal s"
      using v(2) [OF Some] by auto
    have db: "sdbDb s1 = sdbDb s" "sdbTrie s1 = sdbTrie s" using sdb_env_db [OF s1(2)] by auto
    have u: "undo_view (sdbDb s) (sdbTrie s) e (sdb_abs_of s) = Some (sdb_abs_of s1)"
      using v(1) Some by simp
    have j: "jEntries (journal_undirty (sdbJournal s) e) = jEntries (sdbJournal s)"
      by (simp add: journal_undirty_def Let_def split: option.splits)
    from Cons.IH [of ?s2] Cons.prems show ?thesis using Some s1 db u j by simp
  qed
qed simp

lemma undo_views_append:
  "undo_views db tr (es @ fs) A = Option.bind (undo_views db tr es A) (undo_views db tr fs)"
  by (induction es arbitrary: A) (auto split: option.splits)

interpretation sdb_store: journaled_store sdb_wf sdb_same "\<lambda>s. jEntries (sdbJournal s)"
  "\<lambda>s. entry_ok (sdbDb s)" journal_revert_loop sdb_exec
proof unfold_locales
  fix s t s' :: StateDB and es
  assume a: "sdb_wf s" "sdb_wf t" "sdb_same s t" "list_all (entry_ok (sdbDb s)) es"
    "journal_revert_loop es s = Some s'"
  have db: "sdbDb t = sdbDb s" "sdbTrie t = sdbTrie s" "sdb_abs_of t = sdb_abs_of s" "sdb_env_of t = sdb_env_of s"
    using a(3) sdb_env_db [of s t] by (auto simp: sdb_same_def)
  note s = journal_revert_loop_view [OF a(1,4)]
  have t: "map_option sdb_abs_of (journal_revert_loop es t) = Some (sdb_abs_of s')"
    "\<And>t'. journal_revert_loop es t = Some t' \<Longrightarrow> sdb_wf t' \<and> sdb_env_of t' = sdb_env_of t"
    using journal_revert_loop_view [OF a(2), of es] a(4,5) s db by auto
  then obtain t' where t': "journal_revert_loop es t = Some t'" "sdb_abs_of t' = sdb_abs_of s'"
    by auto
  show "\<exists>t'. journal_revert_loop es t = Some t' \<and> sdb_wf s' \<and> sdb_wf t' \<and> sdb_same s' t'"
    using t' t(2) [OF t'(1)] s a(5) db by (auto simp: sdb_same_def)
next
  fix s p assume wf: "sdb_wf s"
  note o = sdb_exec_ok [OF wf, of p, unfolded op_ok_def]
  show "sdb_wf (sdb_exec p s)" using o by blast
  have db: "sdbDb (sdb_exec p s) = sdbDb s" "sdbTrie (sdb_exec p s) = sdbTrie s"
    using o sdb_env_db [of "sdb_exec p s" s] by auto
  then show "entry_ok (sdbDb (sdb_exec p s)) e = entry_ok (sdbDb s) e" for e by simp
  obtain es where es: "jEntries (sdbJournal (sdb_exec p s)) = jEntries (sdbJournal s) @ es"
    "list_all (entry_ok (sdbDb s)) es"
    "undo_views (sdbDb s) (sdbTrie s) (rev es) (sdb_abs_of (sdb_exec p s)) = Some (sdb_abs_of s)"
    using o by auto
  have "map_option sdb_abs_of (journal_revert_loop (rev es) (sdb_exec p s)) = Some (sdb_abs_of s)"
    "\<And>s'. journal_revert_loop (rev es) (sdb_exec p s) = Some s' \<Longrightarrow>
       sdb_wf s' \<and> sdb_env_of s' = sdb_env_of (sdb_exec p s)"
    using journal_revert_loop_view [of "sdb_exec p s" "rev es"] o es db by (auto simp: list_all_iff)
  then show "\<exists>es s'. jEntries (sdbJournal (sdb_exec p s)) = jEntries (sdbJournal s) @ es
      \<and> list_all (entry_ok (sdbDb s)) es \<and> journal_revert_loop (rev es) (sdb_exec p s) = Some s'
      \<and> sdb_wf s' \<and> sdb_same s' s"
    using es o by (auto simp: sdb_same_def)
qed (auto simp: sdb_same_def journal_revert_loop_append dest: sdb_env_db)

section \<open>Revisions\<close>

definition revisions_wf :: "StateDB \<Rightarrow> bool" where
  "revisions_wf s \<longleftrightarrow>
     sorted_wrt (<) (map rvId (sdbValidRevisions s))
     \<and> (\<forall>r \<in> set (sdbValidRevisions s). rvId r < sdbNextRevisionId s)"

lemma revisions_frame:
  "sdbValidRevisions (StateDB_touch s a) = sdbValidRevisions s"
  "sdbNextRevisionId (StateDB_touch s a) = sdbNextRevisionId s"
  "sdbValidRevisions (snd (StateDB_GetOrNewStateObject s a)) = sdbValidRevisions s"
  "sdbNextRevisionId (snd (StateDB_GetOrNewStateObject s a)) = sdbNextRevisionId s"
  "sdbValidRevisions (stateObject_SetBalance s obj n) = sdbValidRevisions s"
  "sdbNextRevisionId (stateObject_SetBalance s obj n) = sdbNextRevisionId s"
  by (simp_all add: StateDB_touch_def StateDB_GetOrNewStateObject_def StateDB_createObject_def
      stateObject_SetBalance_def Let_def case_prod_beta split: prod.split option.split)

lemma sdb_exec_revisions:
  "\<exists>more. sdbValidRevisions (sdb_exec p s) = sdbValidRevisions s @ more"
  "revisions_wf s \<Longrightarrow> revisions_wf (sdb_exec p s)"
proof -
  have "sdbValidRevisions (sdb_exec p s) = sdbValidRevisions s \<and> sdbNextRevisionId (sdb_exec p s) = sdbNextRevisionId s"
    if "p \<noteq> OpSnapshot"
    using that
    by (cases p) (simp_all add: StateDB_AddBalance_def StateDB_SubBalance_def StateDB_SetBalance_def
        StateDB_SetCode_def StateDB_SetContractOwner_def StateDB_SetState_def StateDB_Suicide_def
        StateDB_CreateAccount_def StateDB_createObject_def StateDB_UpdateTxNonceSet_def
        StateDB_MarkNonceSetJournal_def StateDB_AddLog_def StateDB_AddRefund_def
        revisions_frame Let_def case_prod_beta split: prod.split option.split)
  then show "\<exists>more. sdbValidRevisions (sdb_exec p s) = sdbValidRevisions s @ more"
    "revisions_wf s \<Longrightarrow> revisions_wf (sdb_exec p s)"
    by (cases "p = OpSnapshot"; auto simp: revisions_wf_def StateDB_Snapshot_def Let_def sorted_wrt_append less_Suc_eq)+
qed

lemma sdb_run_revisions:
  "\<exists>more. sdbValidRevisions (fold sdb_exec ps s) = sdbValidRevisions s @ more"
  "revisions_wf s \<Longrightarrow> revisions_wf (fold sdb_exec ps s)"
proof (induction ps arbitrary: s)
  case (Cons p ps)
  { case 1 show ?case using Cons(1) [of "sdb_exec p s"] sdb_exec_revisions(1) [of p s] by auto }
  { case 2 show ?case using Cons(2) [of "sdb_exec p s"] sdb_exec_revisions(2) [of s p] 2 by auto }
qed auto

lemma find_revision:
  assumes "revisions_wf s" "sdbValidRevisions s = rs @ r # rs2"
  shows "sort_Search (length (sdbValidRevisions s)) (\<lambda>i. rvId r \<le> rvId (sdbValidRevisions s ! i)) = length rs"
proof (rule sort_Search_eq)
  let ?R = "sdbValidRevisions s"
  have mono: "rvId (?R ! a) < rvId (?R ! b)" if "a < b" "b < length ?R" for a b
    using assms(1) that by (simp add: revisions_wf_def sorted_wrt_iff_nth_less)
  show "rvId r \<le> rvId (?R ! b)" if "a \<le> b" "b < length ?R" "rvId r \<le> rvId (?R ! a)" for a b
    using mono [of a b] that by (cases "a = b") auto
  show "\<not> rvId r \<le> rvId (?R ! i)" if "i < length rs" for i
    using mono [of i "length rs"] that assms(2) by simp
qed (use assms in auto)

lemma journal_revert_loop_revisions:
  "journal_revert_loop es s = Some s' \<Longrightarrow>
   sdbValidRevisions s' = sdbValidRevisions s \<and> sdbNextRevisionId s' = sdbNextRevisionId s"
proof (induction es arbitrary: s)
  case (Cons e es)
  then obtain s1 where s1: "journalEntry_revert e s = Some s1"
    "journal_revert_loop es (s1\<lparr>sdbJournal := journal_undirty (sdbJournal s1) e\<rparr>) = Some s'"
    by (auto split: option.splits)
  have get: "sdbValidRevisions b = sdbValidRevisions s \<and> sdbNextRevisionId b = sdbNextRevisionId s"
    if "StateDB_getStateObject s a = (x, b)" for a x b
    using getStateObject_frame(10,11) [of s a] that by simp
  have "sdbValidRevisions s1 = sdbValidRevisions s \<and> sdbNextRevisionId s1 = sdbNextRevisionId s"
    using s1(1) by (cases e) (auto simp: revert_object_def Let_def dest: get split: prod.splits option.splits if_splits)
  with Cons.IH [OF s1(2)] show ?case by simp
qed simp

subsection \<open>Dirty counters\<close>

definition dirty_count :: "journalEntry list \<Rightarrow> address \<Rightarrow> int" where
  "dirty_count es a = int (length [e \<leftarrow> es. dirtied e = Some a])"

definition dirties_exact :: "(address \<rightharpoonup> int) \<Rightarrow> journalEntry list \<Rightarrow> bool" where
  "dirties_exact d es \<longleftrightarrow>
     (\<forall>a. a \<noteq> ripemd \<longrightarrow> d a = (if dirty_count es a = 0 then None else Some (dirty_count es a)))"

definition journal_exact :: "StateDB \<Rightarrow> bool" where
  "journal_exact s \<longleftrightarrow> dirties_exact (jDirties (sdbJournal s)) (jEntries (sdbJournal s))"

lemma dirty_count_append [simp]: "dirty_count (es @ fs) a = dirty_count es a + dirty_count fs a"
  by (simp add: dirty_count_def)

lemma dirty_count_single [simp]: "dirty_count [e] a = (if dirtied e = Some a then 1 else 0)"
  by (simp add: dirty_count_def)

lemma dirty_count_nonneg [simp]: "0 \<le> dirty_count es a"
  by (simp add: dirty_count_def)

lemma journal_exact_journal [simp, intro]: "journal_exact s \<Longrightarrow> journal_exact (StateDB_journal s e)"
  using dirty_count_nonneg
  by (auto simp: journal_exact_def dirties_exact_def StateDB_journal_def journal_append_def
      journal_dirty_def map_count_def Let_def add_nonneg_eq_0_iff split: option.splits)

lemma journal_exact_cong: "sdbJournal s = sdbJournal t \<Longrightarrow> journal_exact s = journal_exact t"
  by (simp add: journal_exact_def)

lemma journal_exact_set [simp]: "journal_exact (StateDB_setStateObject s obj) = journal_exact s"
  by (rule journal_exact_cong) simp

lemma journal_exact_touch [simp]: "journal_exact s \<Longrightarrow> journal_exact (StateDB_touch s a)"
  using journal_exact_journal [of s "touchChange a"]
  by (auto simp: StateDB_touch_def Let_def journal_exact_def dirties_exact_def journal_dirty_def)

lemma journal_exact_load [simp]: "journal_exact (snd (StateDB_getStateObject s a)) = journal_exact s"
  by (rule journal_exact_cong) simp

lemma journal_exact_new [simp]:
  "journal_exact s \<Longrightarrow> journal_exact (snd (snd (StateDB_createObject s a)))"
  "journal_exact s \<Longrightarrow> journal_exact (snd (StateDB_GetOrNewStateObject s a))"
  by (auto simp: StateDB_createObject_def StateDB_GetOrNewStateObject_def case_prod_beta Let_def
      split: prod.split option.split simp flip: snd_conv [of _ "StateDB_getStateObject s a"])

lemma journal_exact_exec: "journal_exact s \<Longrightarrow> journal_exact (sdb_exec p s)"
proof (cases p)
  case OpSnapshot
  assume "journal_exact s"
  then show ?thesis using OpSnapshot by (simp add: journal_exact_def StateDB_Snapshot_def Let_def)
next
  case (OpCreateAccount a)
  assume "journal_exact s"
  then show ?thesis
    using OpCreateAccount by (auto simp: StateDB_CreateAccount_def case_prod_beta Let_def split: option.split)
next
  case (OpSuicide a)
  assume j: "journal_exact s"
  obtain x s1 where "StateDB_getStateObject s a = (x, s1)" by (metis surj_pair)
  moreover from this j have "journal_exact s1" by (metis journal_exact_load snd_conv)
  ultimately show ?thesis
    using OpSuicide by (auto simp: StateDB_Suicide_def split: option.split)
next
  case (OpUpdateTxNonceSet a ns)
  assume j: "journal_exact s"
  obtain x s1 where "StateDB_getStateObject s a = (x, s1)" by (metis surj_pair)
  moreover from this j have "journal_exact s1" by (metis journal_exact_load snd_conv)
  ultimately show ?thesis
    using OpUpdateTxNonceSet
    by (auto simp: StateDB_UpdateTxNonceSet_def StateDB_MarkNonceSetJournal_def split: option.split)
qed (auto simp: StateDB_AddBalance_def StateDB_SubBalance_def StateDB_SetBalance_def
    StateDB_SetCode_def StateDB_SetContractOwner_def StateDB_SetState_def stateObject_SetBalance_def
    StateDB_AddLog_def StateDB_AddRefund_def case_prod_beta Let_def
    intro: journal_exact_journal [THEN journal_exact_cong [THEN iffD1, rotated]])

lemma journal_exact_run: "journal_exact s \<Longrightarrow> journal_exact (fold sdb_exec ps s)"
  by (induction ps arbitrary: s) (auto simp: journal_exact_exec)

lemma dirties_exact_undirty:
  "dirties_exact (jDirties j) (es @ [e]) \<Longrightarrow> dirties_exact (jDirties (journal_undirty j e)) es"
  by (auto simp: dirties_exact_def journal_undirty_def map_count_def Let_def split: option.splits if_splits)

lemma journalEntry_revert_journal: "journalEntry_revert e s = Some s' \<Longrightarrow> sdbJournal s' = sdbJournal s"
proof -
  assume r: "journalEntry_revert e s = Some s'"
  have get: "sdbJournal b = sdbJournal s" if "StateDB_getStateObject s a = (x, b)" for a x b
    using getStateObject_frame(9) [of s a] that by simp
  show ?thesis
    using r by (cases e) (auto simp: revert_object_def Let_def dest: get split: prod.splits option.splits if_splits)
qed

lemma journal_revert_loop_exact:
  "dirties_exact (jDirties (sdbJournal s)) (fs @ rev es) \<Longrightarrow> journal_revert_loop es s = Some s' \<Longrightarrow>
   dirties_exact (jDirties (sdbJournal s')) fs"
proof (induction es arbitrary: s)
  case (Cons e es)
  then obtain s1 where s1: "journalEntry_revert e s = Some s1"
    "journal_revert_loop es (s1\<lparr>sdbJournal := journal_undirty (sdbJournal s1) e\<rparr>) = Some s'"
    by (auto split: option.splits)
  have "dirties_exact (jDirties (journal_undirty (sdbJournal s1) e)) (fs @ rev es)"
    using Cons.prems(1) by (intro dirties_exact_undirty) (simp add: journalEntry_revert_journal [OF s1(1)])
  with Cons.IH [OF _ s1(2)] show ?case by simp
qed simp

lemma journal_revert_loop_entries:
  "journal_revert_loop es s = Some s' \<Longrightarrow> jEntries (sdbJournal s') = jEntries (sdbJournal s)"
proof (induction es arbitrary: s)
  case (Cons e es)
  then obtain s1 where s1: "journalEntry_revert e s = Some s1"
    "journal_revert_loop es (s1\<lparr>sdbJournal := journal_undirty (sdbJournal s1) e\<rparr>) = Some s'"
    by (auto split: option.splits)
  from Cons.IH [OF s1(2)] journalEntry_revert_journal [OF s1(1)] show ?case
    by (simp add: journal_undirty_def Let_def split: option.splits)
qed simp

lemma sdb_exec_frame:
  "sdb_wf s \<Longrightarrow> sdb_abs_of (sdb_exec p s) = sdb_spec (sdb_env_of s) p (sdb_abs_of s)
     \<and> sdb_env_of (sdb_exec p s) = sdb_env_of s"
  using sdb_exec_ok [of s p] by (auto simp: op_ok_def)

lemma sdb_same_bookkeeping:
  "sdb_same (s\<lparr>sdbJournal := j, sdbValidRevisions := rs\<rparr>) t = sdb_same s t"
  "sdb_wf (s\<lparr>sdbJournal := j, sdbValidRevisions := rs\<rparr>) = sdb_wf s"
proof -
  have "sdb_view (s\<lparr>sdbJournal := j, sdbValidRevisions := rs\<rparr>) = sdb_view s"
    by (rule sdb_view_only_live) simp_all
  then show "sdb_same (s\<lparr>sdbJournal := j, sdbValidRevisions := rs\<rparr>) t = sdb_same s t"
    by (simp add: sdb_same_def sdb_abs_of_def sdb_env_of_def StateDB_GetLogs_def fun_eq_iff)
  show "sdb_wf (s\<lparr>sdbJournal := j, sdbValidRevisions := rs\<rparr>) = sdb_wf s"
    by (rule sdb_wf_only_live) simp_all
qed

lemma RevertToSnapshot_undoes:
  assumes wf: "sdb_wf s" "revisions_wf s" "journal_exact s" and snap: "StateDB_Snapshot s = (i, s0)"
  shows "\<exists>t. StateDB_RevertToSnapshot (fold sdb_exec ps s0) i = Some t \<and> sdb_wf t \<and> sdb_same t s
     \<and> revisions_wf t \<and> journal_exact t
     \<and> jEntries (sdbJournal t) = jEntries (sdbJournal s) \<and> sdbValidRevisions t = sdbValidRevisions s
     \<and> (\<forall>a. a \<noteq> ripemd \<longrightarrow> jDirties (sdbJournal t) a = jDirties (sdbJournal s) a)"
proof -
  let ?u = "fold sdb_exec ps s0" and ?E = "jEntries (sdbJournal s)"
  let ?r = "\<lparr>rvId = i, rvJournalIndex = length ?E\<rparr>"
  have s0: "s0 = sdb_exec OpSnapshot s" using snap by simp
  have snapE: "jEntries (sdbJournal s0) = ?E" "sdbValidRevisions s0 = sdbValidRevisions s @ [?r]"
    using snap by (auto simp: StateDB_Snapshot_def Let_def journal_length_def)
  have same0: "sdb_same s0 s"
    using sdb_exec_frame [OF wf(1), of OpSnapshot] by (simp add: s0 sdb_same_def)
  have wf0: "sdb_wf s0" "revisions_wf s0" "journal_exact s0"
    unfolding s0 using wf sdb_store.exec_wf sdb_exec_revisions(2) journal_exact_exec by blast+
  obtain es s' where u: "jEntries (sdbJournal ?u) = ?E @ es" "journal_revert_loop (rev es) ?u = Some s'"
    "sdb_wf s'" "sdb_same s' s0"
    using sdb_store.run_undo [OF wf0(1), of ps] snapE by auto
  obtain rs2 where rs: "sdbValidRevisions ?u = sdbValidRevisions s @ ?r # rs2"
    using sdb_run_revisions(1) [of ps s0] snapE by auto
  have idx: "sort_Search (length (sdbValidRevisions ?u)) (\<lambda>j. i \<le> rvId (sdbValidRevisions ?u ! j))
     = length (sdbValidRevisions s)"
    using find_revision [OF sdb_run_revisions(2) [OF wf0(2)] rs] by simp
  have j: "jEntries (sdbJournal s') = ?E @ es"
    using journal_revert_loop_entries [OF u(2)] u(1) by simp
  let ?t = "s'\<lparr>sdbJournal := (sdbJournal s')\<lparr>jEntries := take (length ?E) (jEntries (sdbJournal s'))\<rparr>,
     sdbValidRevisions := take (length (sdbValidRevisions s)) (sdbValidRevisions s')\<rparr>"
  have t: "StateDB_RevertToSnapshot ?u i = Some ?t"
    using u(1,2) rs idx by (simp add: StateDB_RevertToSnapshot_def journal_revert_def Let_def)
  have "dirties_exact (jDirties (sdbJournal s')) ?E"
    using journal_revert_loop_exact [of ?u ?E "rev es" s'] journal_exact_run [OF wf0(3), of ps] u
    by (simp add: journal_exact_def)
  then have "\<forall>a. a \<noteq> ripemd \<longrightarrow> jDirties (sdbJournal s') a = jDirties (sdbJournal s) a"
    using wf(3) by (simp add: journal_exact_def dirties_exact_def)
  moreover have "journal_exact ?t"
    using \<open>dirties_exact (jDirties (sdbJournal s')) ?E\<close> j by (simp add: journal_exact_def)
  moreover have "revisions_wf ?t"
    using sdb_run_revisions(2) [OF wf0(2), of ps] rs journal_revert_loop_revisions [OF u(2)]
    by (simp add: revisions_wf_def sorted_wrt_append)
  moreover have "sdb_same ?t s" "sdb_wf ?t"
    using sdb_store.same_trans [OF u(4) same0] u(3) sdb_same_bookkeeping by blast+
  ultimately show ?thesis
    using t j journal_revert_loop_revisions [OF u(2)] rs by simp
qed

section \<open>Properties\<close>

text \<open>C6. Every mutator of the state database does to the visible state what its specification on
  plain maps says: balances, code, owner, storage, nonce set, suicide, creation (which carries the
  balance over), logs and refund; it keeps the representation invariant, and creates an account
  that does not exist yet.\<close>

theorem StateDB_ops_refine:
  assumes "sdb_wf s"
  shows "sdb_abs_of (sdb_exec p s) = sdb_spec (sdb_env_of s) p (sdb_abs_of s) \<and> sdb_wf (sdb_exec p s)
     \<and> sdb_env_of (sdb_exec p s) = sdb_env_of s"
  using sdb_exec_ok [OF assms, of p] by (auto simp: op_ok_def)

text \<open>A database with nothing stored, used in the examples.\<close>

definition empty_db :: Database where
  "empty_db =
     \<lparr>dbOpenTrie = (\<lambda>_. Some Map.empty), dbOpenStorageTrie = (\<lambda>_. Some Map.empty),
      dbContractCode = Map.empty, dbTrieHash = (\<lambda>_. 0), dbStorageHash = (\<lambda>_. 0),
      dbStorageKeys = (\<lambda>_. []), dbKeccak = (\<lambda>bs. word_of_nat (length bs))\<rparr>"

definition empty_state :: StateDB where
  "empty_state = the (StateDB_New 0 empty_db)"

lemma empty_state_wf: "sdb_wf empty_state" "revisions_wf empty_state" "journal_exact empty_state"
  by (simp_all add: empty_state_def StateDB_New_def empty_db_def sdb_wf_def revisions_wf_def
      journal_exact_def dirties_exact_def dirty_count_def newJournal_def)

theorem StateDB_ops_refine_witness:
  "sdb_abs_of (StateDB_AddBalance empty_state 7 100)
     = sdb_spec (sdb_env_of empty_state) (OpAddBalance 7 100) (sdb_abs_of empty_state)"
  using StateDB_ops_refine [OF empty_state_wf(1), of "OpAddBalance 7 100"] by simp

text \<open>C5. \<^verbatim>\<open>RevertToSnapshot\<close> undoes everything since the snapshot: after any sequence of mutators
  and further snapshots it does not panic, and the result shows the same accounts, storage, code,
  logs and refund as the state the snapshot was taken of, with the same journal entries, the same
  older revisions and the same dirty counters (but for the address of the RIPEMD exception, which
  the code keeps dirty on purpose).\<close>

theorem RevertToSnapshot_restores:
  assumes wf: "sdb_wf s" "revisions_wf s" "journal_exact s" and snap: "StateDB_Snapshot s = (i, s0)"
  shows "\<exists>t. StateDB_RevertToSnapshot (fold sdb_exec ps s0) i = Some t \<and> sdb_wf t \<and> sdb_same t s
     \<and> jEntries (sdbJournal t) = jEntries (sdbJournal s) \<and> sdbValidRevisions t = sdbValidRevisions s
     \<and> (\<forall>a. a \<noteq> ripemd \<longrightarrow> jDirties (sdbJournal t) a = jDirties (sdbJournal s) a)"
  using RevertToSnapshot_undoes [OF assms] by blast

theorem RevertToSnapshot_restores_witness:
  "\<exists>t. StateDB_RevertToSnapshot (fold sdb_exec
        [OpAddBalance 7 100, OpSetState 7 (GetStorageKey 1 [2]) (Some [3]), OpSnapshot, OpCreateAccount 7]
        (snd (StateDB_Snapshot empty_state))) 0 = Some t \<and> sdb_same t empty_state"
proof -
  have "StateDB_Snapshot empty_state = (0, snd (StateDB_Snapshot empty_state))"
    by (simp add: StateDB_Snapshot_def empty_state_def StateDB_New_def empty_db_def)
  from RevertToSnapshot_restores [OF empty_state_wf this] show ?thesis by blast
qed

end
