(* ===== verification/Tx_Types.thy ===== *)
theory Tx_Types
  imports Go_Stdlib
begin

text \<open>
  Transactions and their signatures (\<^verbatim>\<open>core/types/transaction.go\<close>, \<^verbatim>\<open>core/types/tx_signing.go\<close>,
  \<^verbatim>\<open>core/types/gaspool.go\<close>, the fee constants of \<^verbatim>\<open>params\<close>). The hash of a transaction's signed
  content, the hash of the whole transaction, public key recovery and Keccak are the operations
  of the record \<open>Crypto\<close>. The atomic caches of a transaction memoise these functions and are
  left out.
\<close>

section \<open>Gas and fees\<close>

definition TxGas :: u64 where "TxGas = 2000000"
definition TxGasContractCreation :: u64 where "TxGasContractCreation = 5000000"
definition TxGasContractCreateData :: u64 where "TxGasContractCreateData = 20000"
definition TxDataZeroGas :: u64 where "TxDataZeroGas = 400"
definition TxDataNonZeroGas :: u64 where "TxDataNonZeroGas = 6800"
definition TransactionFeeCoefficient :: int where "TransactionFeeCoefficient = 10"

text \<open>\<^verbatim>\<open>big.Int.Quo\<close>: division truncated towards zero.\<close>

definition big_Quo :: "int \<Rightarrow> int \<Rightarrow> int" where
  "big_Quo x y = sgn x * sgn y * (\<bar>x\<bar> div \<bar>y\<bar>)"

definition GasFee :: "u64 \<Rightarrow> int \<Rightarrow> int" where
  "GasFee gas gasPrice = big_Quo (uint gas * gasPrice) TransactionFeeCoefficient"

text \<open>The gas pool; \<open>None\<close> of \<^verbatim>\<open>AddGas\<close> is its panic, \<open>None\<close> of \<^verbatim>\<open>SubGas\<close> is
  \<^verbatim>\<open>ErrGasLimitReached\<close>.\<close>

type_synonym GasPool = u64

definition GasPool_AddGas :: "GasPool \<Rightarrow> u64 \<Rightarrow> GasPool option" where
  "GasPool_AddGas gp amount = (if gp > - 1 - amount then None else Some (gp + amount))"

definition GasPool_SubGas :: "GasPool \<Rightarrow> u64 \<Rightarrow> GasPool option" where
  "GasPool_SubGas gp amount = (if gp < amount then None else Some (gp - amount))"

section \<open>Transactions\<close>

record txdata =
  txAccountNonce :: u64
  txPrice :: int
  txGasLimit :: u64
  txRecipient :: "address option"
  txAmount :: int
  txPayload :: bytes
  txBroadcast :: bool
  txV :: int
  txR :: int
  txS :: int

type_synonym Transaction = txdata

definition newTransaction ::
  "u64 \<Rightarrow> address option \<Rightarrow> int option \<Rightarrow> u64 \<Rightarrow> int option \<Rightarrow> bytes \<Rightarrow> bool \<Rightarrow> Transaction" where
  "newTransaction nonce dest amount gasLimit gasPrice data broadcast =
     \<lparr>txAccountNonce = nonce, txPrice = (case gasPrice of None \<Rightarrow> 0 | Some p \<Rightarrow> p),
      txGasLimit = gasLimit, txRecipient = dest, txAmount = (case amount of None \<Rightarrow> 0 | Some a \<Rightarrow> a),
      txPayload = data, txBroadcast = broadcast, txV = 0, txR = 0, txS = 0\<rparr>"

definition NewTransaction ::
  "u64 \<Rightarrow> address \<Rightarrow> int option \<Rightarrow> u64 \<Rightarrow> int option \<Rightarrow> bytes \<Rightarrow> bool \<Rightarrow> Transaction" where
  "NewTransaction nonce dest amount gasLimit gasPrice data broadcast =
     newTransaction nonce (Some dest) amount gasLimit gasPrice data broadcast"

definition NewContractCreation ::
  "u64 \<Rightarrow> int option \<Rightarrow> u64 \<Rightarrow> int option \<Rightarrow> bytes \<Rightarrow> bool \<Rightarrow> Transaction" where
  "NewContractCreation nonce amount gasLimit gasPrice data broadcast =
     newTransaction nonce None amount gasLimit gasPrice data broadcast"

definition Transaction_Cost :: "Transaction \<Rightarrow> int" where
  "Transaction_Cost tx = GasFee (txGasLimit tx) (txPrice tx) + txAmount tx"

text \<open>\<^verbatim>\<open>big.Int.Uint64\<close>: the low 64 bits of the absolute value.\<close>

definition big_Uint64 :: "int \<Rightarrow> u64" where
  "big_Uint64 x = word_of_int \<bar>x\<bar>"

definition deriveChainId :: "int \<Rightarrow> int" where
  "deriveChainId v =
     (if \<bar>v\<bar> < 2 ^ 64 then
        let w = big_Uint64 v
        in if w = 27 \<or> w = 28 then 0 else uint ((w - 35) div 2)
      else (v - 35) div 2)"

definition Transaction_ChainId :: "Transaction \<Rightarrow> int" where
  "Transaction_ChainId tx = deriveChainId (txV tx)"

section \<open>Signers\<close>

datatype Signer = EIP155Signer int | FrontierSigner | FakeSigner

record Crypto =
  cSigHash :: "Signer \<Rightarrow> Transaction \<Rightarrow> hash"
  cTxHash :: "Transaction \<Rightarrow> hash"
  cPackingHash :: "address \<Rightarrow> u64 \<Rightarrow> hash"
  cEcrecover :: "hash \<Rightarrow> bytes \<Rightarrow> bytes option"
  cKeccak :: "bytes \<Rightarrow> hash"

datatype sig_error = ErrInvalidChainId | ErrInvalidSig | ErrRecover | ErrInvalidPublicKey

text \<open>\<^verbatim>\<open>big.NewInt(int64(chainId))\<close>\<close>

definition NewEIP155Signer :: "u64 \<Rightarrow> Signer" where
  "NewEIP155Signer chainId = EIP155Signer (sint chainId)"

definition MakeSigner :: "string \<Rightarrow> u64 \<Rightarrow> Signer" where
  "MakeSigner signerType chainID =
     (if signerType = ''fake'' then FakeSigner
      else if signerType = ''eip155'' then NewEIP155Signer chainID
      else NewEIP155Signer chainID)"

definition secp256k1N :: int where
  "secp256k1N = 0xfffffffffffffffffffffffffffffffebaaedce6af48a03bbfd25e8cd0364141"

definition secp256k1halfN :: int where
  "secp256k1halfN = secp256k1N div 2"

definition ValidateSignatureValues :: "u8 \<Rightarrow> int \<Rightarrow> int \<Rightarrow> bool \<Rightarrow> bool" where
  "ValidateSignatureValues v r s homestead =
     (if r < 1 \<or> s < 1 then False
      else if homestead \<and> s > secp256k1halfN then False
      else r < secp256k1N \<and> s < secp256k1N \<and> (v = 0 \<or> v = 1))"

text \<open>\<^verbatim>\<open>big.Int.Bytes\<close> of a value below \<open>2 ^ 256\<close>, right-aligned in 32 bytes.\<close>

definition int_bytes32 :: "int \<Rightarrow> bytes" where
  "int_bytes32 x = be_bytes 32 (word_of_int x :: 256 word)"

definition recoverPlain :: "Crypto \<Rightarrow> hash \<Rightarrow> int \<Rightarrow> int \<Rightarrow> int \<Rightarrow> sig_error + address" where
  "recoverPlain C sighash R S Vb =
     (if \<not> \<bar>Vb\<bar> < 2 ^ 8 then Inl ErrInvalidSig
      else
        let V = ucast (big_Uint64 Vb - 27) :: u8
        in if \<not> ValidateSignatureValues V R S True then Inl ErrInvalidSig
           else
             (case cEcrecover C sighash (int_bytes32 R @ int_bytes32 S @ [V]) of
                None \<Rightarrow> Inl ErrRecover
              | Some pub \<Rightarrow>
                  if pub = [] \<or> hd pub \<noteq> 4 then Inl ErrInvalidPublicKey
                  else Inr (ucast (cKeccak C (tl pub)))))"

text \<open>The fake signer reads the address from the first twenty of the 32 bytes of \<open>R\<close>.\<close>

definition Signer_Sender :: "Crypto \<Rightarrow> Signer \<Rightarrow> Transaction \<Rightarrow> sig_error + address" where
  "Signer_Sender C signer tx =
     (case signer of
        EIP155Signer chainId \<Rightarrow>
          if Transaction_ChainId tx \<noteq> chainId then Inl ErrInvalidChainId
          else recoverPlain C (cSigHash C signer tx) (txR tx) (txS tx) (txV tx - chainId * 2 - 8)
      | FrontierSigner \<Rightarrow> recoverPlain C (cSigHash C signer tx) (txR tx) (txS tx) (txV tx)
      | FakeSigner \<Rightarrow> Inr (be_word (take 20 (int_bytes32 (txR tx)))))"

text \<open>\<open>None\<close> is the panic on a signature that is not 65 bytes long.\<close>

definition Signer_SignatureValues :: "Signer \<Rightarrow> bytes \<Rightarrow> (int \<times> int \<times> int) option" where
  "Signer_SignatureValues signer sig =
     (if length sig \<noteq> 65 then None
      else
        let r = uint (be_word (take 32 sig) :: 256 word);
            s = uint (be_word (take 32 (drop 32 sig)) :: 256 word);
            v = uint (sig ! 64 + 27)
        in (case signer of
              EIP155Signer chainId \<Rightarrow>
                if chainId \<noteq> 0 then Some (r, s, uint (sig ! 64 + 35) + chainId * 2)
                else Some (r, s, v)
            | FrontierSigner \<Rightarrow> Some (r, s, v)
            | FakeSigner \<Rightarrow> Some (r, s, v)))"

definition Transaction_WithSignature :: "Transaction \<Rightarrow> Signer \<Rightarrow> bytes \<Rightarrow> Transaction option" where
  "Transaction_WithSignature tx signer sig =
     map_option (\<lambda>(r, s, v). tx\<lparr>txR := r, txS := s, txV := v\<rparr>) (Signer_SignatureValues signer sig)"

record Message =
  msgFrom :: address
  msgTo :: "address option"
  msgNonce :: u64
  msgAmount :: int
  msgGasLimit :: u64
  msgGasPrice :: int
  msgData :: bytes
  msgCheckNonce :: bool

definition Transaction_AsMessage :: "Crypto \<Rightarrow> Signer \<Rightarrow> Transaction \<Rightarrow> sig_error + Message" where
  "Transaction_AsMessage C signer tx =
     (case Signer_Sender C signer tx of
        Inl err \<Rightarrow> Inl err
      | Inr from \<Rightarrow> Inr
          \<lparr>msgFrom = from, msgTo = txRecipient tx, msgNonce = txAccountNonce tx,
           msgAmount = txAmount tx, msgGasLimit = txGasLimit tx, msgGasPrice = txPrice tx,
           msgData = txPayload tx, msgCheckNonce = True\<rparr>)"

text \<open>The packing hash ignores a signature error: the sender is then the zero address.\<close>

definition Transaction_PackingHash :: "Crypto \<Rightarrow> Signer \<Rightarrow> Transaction \<Rightarrow> hash" where
  "Transaction_PackingHash C signer tx =
     cPackingHash C (case Signer_Sender C signer tx of Inl _ \<Rightarrow> 0 | Inr a \<Rightarrow> a) (txAccountNonce tx)"

definition Transaction_PackingHashUint64 :: "Crypto \<Rightarrow> Signer \<Rightarrow> Transaction \<Rightarrow> u64" where
  "Transaction_PackingHashUint64 C signer tx = ucast (Transaction_PackingHash C signer tx)"

text \<open>\<open>None\<close> is the division by zero on an empty packer group.\<close>

definition Transaction_MatchPacker :: "Crypto \<Rightarrow> Transaction \<Rightarrow> u64 \<Rightarrow> u32 \<Rightarrow> Signer \<Rightarrow> bool option" where
  "Transaction_MatchPacker C tx packerGroupSize packerIndex signer =
     (if packerGroupSize = 0 then None
      else Some (Transaction_PackingHashUint64 C signer tx mod packerGroupSize
                 = ucast packerIndex mod packerGroupSize))"

definition TxDifference :: "Crypto \<Rightarrow> Transaction list \<Rightarrow> Transaction list \<Rightarrow> Transaction list" where
  "TxDifference C a b = [tx \<leftarrow> a. cTxHash C tx \<notin> set (map (cTxHash C) b)]"

record TxWithIndex =
  twTx :: Transaction
  twTxPackageIndex :: u32
  twTxIndex :: u32

definition NotInPackage :: u32 where
  "NotInPackage = - 1"

section \<open>Facts\<close>

lemma GasFee_nonneg_eq: "0 \<le> price \<Longrightarrow> GasFee gas price = uint gas * price div 10"
  by (cases "uint gas * price = 0") (auto simp: GasFee_def big_Quo_def TransactionFeeCoefficient_def
      abs_mult sgn_mult sgn_if)

lemma GasFee_nonneg: "0 \<le> price \<Longrightarrow> 0 \<le> GasFee gas price"
  by (simp add: GasFee_nonneg_eq pos_imp_zdiv_nonneg_iff)

text \<open>Splitting an amount of gas loses at most one unit of the fee to rounding.\<close>

lemma GasFee_split:
  assumes "0 \<le> price" "unat a + unat b < 2 ^ 64"
  shows "GasFee a price + GasFee b price \<le> GasFee (a + b) price"
    "GasFee (a + b) price \<le> GasFee a price + GasFee b price + 1"
proof -
  have "uint (a + b) = uint a + uint b"
    using arg_cong [OF unat_add_no_wrap [of a b], of int] assms(2) by simp
  then have m: "uint (a + b) * price = uint a * price + uint b * price" by (simp add: distrib_right)
  show "GasFee a price + GasFee b price \<le> GasFee (a + b) price"
    "GasFee (a + b) price \<le> GasFee a price + GasFee b price + 1"
    unfolding GasFee_nonneg_eq [OF assms(1)] m by linarith+
qed

lemma deriveChainId_eip155:
  assumes "0 < c" "c < 2 ^ 62" "v = 0 \<or> v = 1"
  shows "deriveChainId (35 + v + c * 2) = c"
proof -
  have b: "0 \<le> 35 + v + c * 2" "35 + v + c * 2 < 2 ^ 64" using assms by auto
  have u: "uint (big_Uint64 (35 + v + c * 2)) = 35 + v + c * 2"
    using b unfolding big_Uint64_def uint_word_of_int by simp
  have "uint (big_Uint64 (35 + v + c * 2) - 35) = v + c * 2"
    using assms u by (subst uint_sub_lem [THEN iffD1]) auto
  then have "uint ((big_Uint64 (35 + v + c * 2) - 35) div 2) = (v + c * 2) div 2"
    by (simp add: uint_div)
  moreover have "(v + c * 2) div 2 = c" using assms(3) by auto
  moreover have "big_Uint64 (35 + v + c * 2) \<noteq> 27" "big_Uint64 (35 + v + c * 2) \<noteq> 28"
    using u assms by (auto simp: word_uint_eq_iff)
  ultimately show ?thesis using b by (simp add: deriveChainId_def Let_def)
qed

lemma uint_sig_byte: "b = 0 \<or> b = 1 \<Longrightarrow> uint ((b :: u8) + 35) = 35 + uint b \<and> uint (b + 27) = 27 + uint b"
  by auto

lemma WithSignature_eip155:
  assumes "c \<noteq> 0" "length sig = 65" "sig ! 64 = 0 \<or> sig ! 64 = 1"
    "Transaction_WithSignature tx (EIP155Signer c) sig = Some tx'"
  shows "txV tx' = 35 + uint (sig ! 64) + c * 2"
    "txR tx' = uint (be_word (take 32 sig) :: 256 word)"
    "txS tx' = uint (be_word (take 32 (drop 32 sig)) :: 256 word)"
  using assms uint_sig_byte [OF assms(3)]
  by (auto simp: Transaction_WithSignature_def Signer_SignatureValues_def Let_def)

section \<open>Properties\<close>

text \<open>C7. Replay protection across chains: a transaction signed with the EIP155 signer of chain
  \<open>c\<close> is refused with \<^verbatim>\<open>ErrInvalidChainId\<close> by the signer of every other chain, while the signer
  of chain \<open>c\<close> recovers the sender from exactly the \<open>r\<close>, \<open>s\<close> and \<open>v\<close> that were signed.\<close>

theorem EIP155_replay_protection:
  assumes "0 < c" "c < 2 ^ 62" "length sig = 65" "sig ! 64 = 0 \<or> sig ! 64 = 1"
    and "Transaction_WithSignature tx (EIP155Signer c) sig = Some tx'"
  shows "Signer_Sender C (EIP155Signer d) tx' =
     (if d \<noteq> c then Inl ErrInvalidChainId
      else recoverPlain C (cSigHash C (EIP155Signer c) tx') (uint (be_word (take 32 sig) :: 256 word))
        (uint (be_word (take 32 (drop 32 sig)) :: 256 word)) (27 + uint (sig ! 64)))"
proof -
  have c0: "c \<noteq> 0" using assms(1) by simp
  note w = WithSignature_eip155 [OF c0 assms(3,4,5)]
  have "uint (sig ! 64) = 0 \<or> uint (sig ! 64) = 1" using assms(4) by auto
  from deriveChainId_eip155 [OF assms(1,2) this]
  have "Transaction_ChainId tx' = c" by (simp add: Transaction_ChainId_def w(1))
  then show ?thesis by (simp add: Signer_Sender_def w add.commute)
qed

definition sample_tx :: Transaction where
  "sample_tx = NewTransaction 3 7 (Some 100) 2000000 (Some 1) [] True"

definition sample_sig :: bytes where
  "sample_sig = replicate 31 0 @ [1] @ replicate 31 0 @ [2] @ [1]"

theorem EIP155_replay_protection_witness:
  "\<forall>C. \<exists>tx'. Transaction_WithSignature sample_tx (EIP155Signer 5) sample_sig = Some tx'
     \<and> Signer_Sender C (EIP155Signer 6) tx' = Inl ErrInvalidChainId"
proof -
  have sig: "length sample_sig = 65" "sample_sig ! 64 = 0 \<or> sample_sig ! 64 = 1"
    by (simp_all add: sample_sig_def nth_append)
  obtain tx' where tx': "Transaction_WithSignature sample_tx (EIP155Signer 5) sample_sig = Some tx'"
    using sig by (simp add: Transaction_WithSignature_def Signer_SignatureValues_def Let_def)
  from EIP155_replay_protection [OF _ _ sig tx', of _ 6] tx' show ?thesis by simp
qed

text \<open>C8. The signer of chain id 0 cannot verify its own signatures: \<^verbatim>\<open>SignatureValues\<close> then keeps
  the plain \<open>v\<close> (27 or 28), but \<^verbatim>\<open>Sender\<close> still subtracts 8, so that every transaction it signs
  is refused with \<^verbatim>\<open>ErrInvalidSig\<close>.\<close>

theorem EIP155_chain_zero_unverifiable:
  assumes "length sig = 65" "sig ! 64 = 0 \<or> sig ! 64 = 1"
    and "Transaction_WithSignature tx (EIP155Signer 0) sig = Some tx'"
  shows "Signer_Sender C (EIP155Signer 0) tx' = Inl ErrInvalidSig"
proof -
  have v: "txV tx' = 27 + uint (sig ! 64)"
    using assms uint_sig_byte [OF assms(2)]
    by (auto simp: Transaction_WithSignature_def Signer_SignatureValues_def Let_def)
  have V: "(ucast (big_Uint64 19 - 27) :: u8) = 248" "(ucast (big_Uint64 20 - 27) :: u8) = 249"
    by code_simp+
  have id: "deriveChainId 27 = 0" "deriveChainId 28 = 0"
    by (simp_all add: deriveChainId_def big_Uint64_def)
  from assms(2) v consider "txV tx' = 27" | "txV tx' = 28" by auto
  then show ?thesis
    by cases (simp_all add: Signer_Sender_def Transaction_ChainId_def id recoverPlain_def V
        ValidateSignatureValues_def Let_def)
qed

theorem EIP155_chain_zero_unverifiable_witness:
  "\<forall>C. \<exists>tx'. Transaction_WithSignature sample_tx (EIP155Signer 0) sample_sig = Some tx'
     \<and> Signer_Sender C (EIP155Signer 0) tx' = Inl ErrInvalidSig"
proof -
  have sig: "length sample_sig = 65" "sample_sig ! 64 = 0 \<or> sample_sig ! 64 = 1"
    by (simp_all add: sample_sig_def nth_append)
  obtain tx' where tx': "Transaction_WithSignature sample_tx (EIP155Signer 0) sample_sig = Some tx'"
    using sig by (simp add: Transaction_WithSignature_def Signer_SignatureValues_def Let_def)
  from EIP155_chain_zero_unverifiable [OF sig tx'] tx' show ?thesis by simp
qed

end
