(* ===== verification/Tx_Exec.thy ===== *)
theory Tx_Exec
  imports State_Revert Tx_Types Names Receipts
begin

text \<open>
  Transaction execution (\<^verbatim>\<open>transaction/txexec\<close>: \<^verbatim>\<open>state_transition.go\<close>, \<^verbatim>\<open>transfer.go\<close>,
  \<^verbatim>\<open>simple_executor.go\<close>, \<^verbatim>\<open>wasm_executor.go\<close>). The WASM engine is a C library: it is the parameter
  \<open>W\<close> of the definitions that run a contract.

  The pointers \<^verbatim>\<open>nonceSet\<close> that the Go code keeps into a live account are read and written
  through the state here; \<^verbatim>\<open>UpdateTxNonceSet\<close> is the write together with its journal entry.
  An outer \<open>None\<close> is a panic.
\<close>

section \<open>State transition\<close>

datatype tx_error =
    ErrNonceNotAllowed | ErrNonceNotAllowedTooNew | ErrNonceNotAllowedContained
  | ErrNonceNotAllowedTooOld | ErrNonceSetNotFound | ErrInsufficientBalance | ErrSimpleTxHasNoTarget
  | ErrInsufficientBalanceForGas | ErrOutOfGas | ErrCodeStoreOutOfGas | ErrWasmExec
  | ErrTransferIsNotAllowed | ErrGasLimitReached | ErrNonce nonce_error | ErrSig sig_error

record StateTransition =
  stGp :: GasPool
  stMsg :: Message
  stGas :: u64
  stGasPrice :: int
  stInitialGas :: u64
  stValue :: int
  stData :: bytes
  stPrevStateDb :: "StateDB option"
  stState :: StateDB
  stMaxBitLength :: u64

definition nonzero_bytes :: "bytes \<Rightarrow> u64" where
  "nonzero_bytes data = foldl (\<lambda>nz byt. if byt \<noteq> 0 then nz + 1 else nz) 0 data"

definition IntrinsicGas :: "bytes \<Rightarrow> bool \<Rightarrow> tx_error + u64" where
  "IntrinsicGas data contractCreation =
     (let gas = (if contractCreation then TxGasContractCreation else TxGas)
      in if length data > 0 then
           let nz = nonzero_bytes data
           in if (- 1 - gas) div TxDataNonZeroGas < nz then Inl ErrOutOfGas
              else
                let gas = gas + nz * TxDataNonZeroGas;
                    z = of_nat (length data) - nz
                in if (- 1 - gas) div TxDataZeroGas < z then Inl ErrOutOfGas
                   else Inr (gas + z * TxDataZeroGas)
         else Inr gas)"

definition NewStateTransition ::
  "StateDB option \<Rightarrow> StateDB \<Rightarrow> Message \<Rightarrow> GasPool \<Rightarrow> u64 \<Rightarrow> StateTransition" where
  "NewStateTransition prevStateDb statedb msg gp maxBitLength =
     \<lparr>stGp = gp, stMsg = msg, stGas = 0, stGasPrice = msgGasPrice msg, stInitialGas = 0,
      stValue = msgAmount msg, stData = msgData msg, stPrevStateDb = prevStateDb,
      stState = statedb, stMaxBitLength = maxBitLength\<rparr>"

definition st_to :: "StateTransition \<Rightarrow> address" where
  "st_to st = (case msgTo (stMsg st) of None \<Rightarrow> 0 | Some a \<Rightarrow> a)"

definition st_from :: "StateTransition \<Rightarrow> address" where
  "st_from st = msgFrom (stMsg st)"

definition st_useGas :: "StateTransition \<Rightarrow> u64 \<Rightarrow> tx_error option \<times> StateTransition" where
  "st_useGas st amount =
     (if stGas st < amount then (Some ErrOutOfGas, st) else (None, st\<lparr>stGas := stGas st - amount\<rparr>))"

definition st_buyGas :: "StateTransition \<Rightarrow> tx_error option \<times> StateTransition" where
  "st_buyGas st =
     (let gas = msgGasLimit (stMsg st); mgval = GasFee gas (stGasPrice st)
      in if StateDB_GetBalance (stState st) (st_from st) < mgval then (Some ErrInsufficientBalanceForGas, st)
         else
           (case GasPool_SubGas (stGp st) gas of
              None \<Rightarrow> (Some ErrGasLimitReached, st)
            | Some gp \<Rightarrow>
                (None, st\<lparr>stGp := gp, stGas := stGas st + gas, stInitialGas := gas,
                          stState := StateDB_SubBalance (stState st) (st_from st) mgval\<rparr>)))"

definition CanTransfer :: "StateDB \<Rightarrow> address \<Rightarrow> int \<Rightarrow> bool" where
  "CanTransfer db addr amount \<longleftrightarrow> StateDB_GetBalance db addr \<ge> amount"

definition Transfer :: "StateDB \<Rightarrow> address \<Rightarrow> address \<Rightarrow> int \<Rightarrow> StateDB" where
  "Transfer db sender recipient amount =
     StateDB_AddBalance (StateDB_SubBalance db sender amount) recipient amount"

subsection \<open>Transfer restrictions\<close>

definition TransferRestrictionContractAddr :: address where
  "TransferRestrictionContractAddr = 3"

text \<open>The names \<^verbatim>\<open>whiteaddr\<close> and \<^verbatim>\<open>blackaddr\<close> as bytes.\<close>

definition TransferWhiteListTable :: bytes where
  "TransferWhiteListTable = [119, 104, 105, 116, 101, 97, 100, 100, 114]"

definition TransferBlackListTable :: bytes where
  "TransferBlackListTable = [98, 108, 97, 99, 107, 97, 100, 100, 114]"

definition name_table :: "bytes \<Rightarrow> u64" where
  "name_table name = (case String2Uint64 name of Inl _ \<Rightarrow> 0 | Inr v \<Rightarrow> v)"

definition StateDB_InTransferWhiteList :: "StateDB \<Rightarrow> address \<Rightarrow> bool" where
  "StateDB_InTransferWhiteList s addr =
     (case fst (StateDB_getStateObject s TransferRestrictionContractAddr) of
        None \<Rightarrow> False
      | Some obj \<Rightarrow>
          if soDeleted obj then False
          else fst (stateObject_HasKey (sdbDb s) obj
                 (GetStorageKey (name_table TransferWhiteListTable) (be_bytes 20 addr))))"

definition StateDB_InTransferBlackList :: "StateDB \<Rightarrow> address \<Rightarrow> bool" where
  "StateDB_InTransferBlackList s addr =
     (case fst (StateDB_getStateObject s TransferRestrictionContractAddr) of
        None \<Rightarrow> False
      | Some obj \<Rightarrow>
          if soDeleted obj then False
          else fst (stateObject_HasKey (sdbDb s) obj
                 (GetStorageKey (name_table TransferBlackListTable) (be_bytes 20 addr))))"

text \<open>On a black-listed recipient the log line dereferences \<^verbatim>\<open>msg.To()\<close>: a panic for a contract
  creation when the zero address is black-listed.\<close>

definition st_transferIsAllowed :: "StateTransition \<Rightarrow> bool option" where
  "st_transferIsAllowed st =
     (case stPrevStateDb st of
        None \<Rightarrow> Some True
      | Some p \<Rightarrow>
          if StateDB_InTransferWhiteList p (st_from st) then Some True
          else if StateDB_InTransferBlackList p (st_to st)
          then (if msgTo (stMsg st) = None then None else Some False)
          else Some True)"

subsection \<open>Nonce handling\<close>

definition st_nonceSet :: "StateTransition \<Rightarrow> NonceSet" where
  "st_nonceSet st =
     (case StateDB_TxNonceSet (stState st) (st_from st) of None \<Rightarrow> NonceSet_zero | Some ns \<Rightarrow> ns)"

definition StateDB_pokeTxNonceSet :: "StateDB \<Rightarrow> address \<Rightarrow> NonceSet \<Rightarrow> StateDB" where
  "StateDB_pokeTxNonceSet s addr ns =
     (case StateDB_getStateObject s addr of
        (None, s') \<Rightarrow> s'
      | (Some obj, s') \<Rightarrow> StateDB_setStateObject s' (obj\<lparr>soData := (soData obj)\<lparr>acTxNonceSet := ns\<rparr>\<rparr>))"

definition st_resetNonce :: "StateTransition \<Rightarrow> (tx_error option \<times> StateTransition) option" where
  "st_resetNonce st =
     (case stPrevStateDb st of
        None \<Rightarrow> Some (None, st)
      | Some p \<Rightarrow>
          (case NonceSet_Reset (st_nonceSet st) (StateDB_GetNonce p (st_from st)) of
             None \<Rightarrow> None
           | Some (Some err, _, _) \<Rightarrow> Some (Some (ErrNonce err), st)
           | Some (None, changed, ns) \<Rightarrow>
               Some (None, if changed
                           then st\<lparr>stState := StateDB_UpdateTxNonceSet (stState st) (st_from st) ns\<rparr>
                           else st)))"

definition st_checkNonce :: "StateTransition \<Rightarrow> tx_error option option" where
  "st_checkNonce st =
     (if msgCheckNonce (stMsg st) then
        (case NonceSet_Search (st_nonceSet st) (msgNonce (stMsg st)) (stMaxBitLength st) of
           None \<Rightarrow> None
         | Some NotContainedAndAllowed \<Rightarrow> Some None
         | Some NotAllowedTooNew \<Rightarrow> Some (Some ErrNonceNotAllowedTooNew)
         | Some Contained \<Rightarrow> Some (Some ErrNonceNotAllowedContained)
         | Some NotAllowedTooOld \<Rightarrow> Some (Some ErrNonceNotAllowedTooOld))
      else Some None)"

definition st_addNonce :: "StateTransition \<Rightarrow> tx_error option \<times> StateTransition" where
  "st_addNonce st =
     (case NonceSet_Add (st_nonceSet st) (msgNonce (stMsg st)) (stMaxBitLength st) of
        (Some err, _, _) \<Rightarrow> (Some (ErrNonce err), st)
      | (None, changed, ns) \<Rightarrow>
          (None, st\<lparr>stState := (if changed then StateDB_UpdateTxNonceSet (stState st) (st_from st) ns
                               else StateDB_pokeTxNonceSet (stState st) (st_from st) ns)\<rparr>))"

definition st_preCheck :: "StateTransition \<Rightarrow> (tx_error option \<times> StateTransition) option" where
  "st_preCheck st =
     do {
       allowed \<leftarrow> st_transferIsAllowed st;
       if \<not> allowed then Some (Some ErrTransferIsNotAllowed, st)
       else do {
         (err, st) \<leftarrow> st_resetNonce st;
         if err \<noteq> None then Some (err, st)
         else do {
           nerr \<leftarrow> st_checkNonce st;
           if nerr \<noteq> None then Some (nerr, st)
           else
             let (err, st) = st_buyGas st
             in if err \<noteq> None then Some (err, st)
                else if \<not> CanTransfer (stState st) (st_from st) (stValue st)
                then Some (Some ErrInsufficientBalance, st)
                else Some (None, st)
         }
       }
     }"

definition st_gasUsed :: "StateTransition \<Rightarrow> u64" where
  "st_gasUsed st = stInitialGas st - stGas st"

definition st_refundGas :: "StateTransition \<Rightarrow> StateTransition option" where
  "st_refundGas st =
     (let refund = st_gasUsed st div 2;
          refund = (if refund > sdbRefund (stState st) then sdbRefund (stState st) else refund);
          gas = stGas st + refund;
          s = StateDB_AddBalance (stState st) (st_from st) (GasFee gas (stGasPrice st))
      in do {
           gp \<leftarrow> GasPool_AddGas (stGp st) gas;
           Some (st\<lparr>stGas := gas, stState := s, stGp := gp\<rparr>)
         })"

text \<open>The result is the gas used, the error and the transition object.\<close>

definition st_SimpleTransitionDb ::
  "StateTransition \<Rightarrow> address \<Rightarrow> (u64 \<times> tx_error option \<times> StateTransition) option" where
  "st_SimpleTransitionDb st coinbase =
     do {
       (err, st) \<leftarrow> st_preCheck st;
       if err \<noteq> None then Some (0, err, st)
       else
         (case msgTo (stMsg st) of
            None \<Rightarrow> Some (0, Some ErrSimpleTxHasNoTarget, st)
          | Some dest \<Rightarrow>
              (case IntrinsicGas [] False of
                 Inl e \<Rightarrow> Some (0, Some e, st)
               | Inr gas \<Rightarrow>
                   let (err, st) = st_useGas st gas
                   in if err \<noteq> None then Some (0, err, st)
                      else
                        let (err, st) = st_addNonce st
                        in if err \<noteq> None then Some (0, err, st)
                           else do {
                             st \<leftarrow> st_refundGas (st\<lparr>stState := Transfer (stState st) (st_from st) dest (stValue st)\<rparr>);
                             let st = st\<lparr>stState := StateDB_AddBalance (stState st) coinbase
                                           (GasFee (st_gasUsed st) (stGasPrice st))\<rparr>
                             in Some (st_gasUsed st, None, st)
                           }))
     }"

subsection \<open>Contracts\<close>

text \<open>
  The engine: code, action, from, to, owner, user, amount, remaining gas and state to return
  value, remaining gas and state. \<^verbatim>\<open>CallWasmContract\<close> takes the address of the first byte of the
  code and of the action and so panics when one is empty; called from \<^verbatim>\<open>callWasm\<close> it runs at
  depth 0, below \<^verbatim>\<open>MaxWasmCallDepth\<close>.
\<close>

type_synonym wasm_engine =
  "bytes \<Rightarrow> bytes \<Rightarrow> address \<Rightarrow> address \<Rightarrow> address \<Rightarrow> address \<Rightarrow> u64 \<Rightarrow> u64 \<Rightarrow> StateDB \<Rightarrow> int \<times> u64 \<times> StateDB"

definition CallWasmContract ::
  "wasm_engine \<Rightarrow> bytes \<Rightarrow> bytes \<Rightarrow> address \<Rightarrow> address \<Rightarrow> address \<Rightarrow> address \<Rightarrow> u64 \<Rightarrow> u64 \<Rightarrow> StateDB
     \<Rightarrow> (int \<times> u64 \<times> StateDB) option" where
  "CallWasmContract W code action from dest user owner amount remainedGas s =
     (if code = [] \<or> action = [] then None
      else Some (W code action from dest owner user amount remainedGas s))"

definition st_callWasm :: "wasm_engine \<Rightarrow> StateTransition \<Rightarrow> (tx_error option \<times> StateTransition) option" where
  "st_callWasm W st =
     (let s = Transfer (stState st) (st_from st) (st_to st) (stValue st);
          code = StateDB_GetCode s (st_to st);
          st = st\<lparr>stState := s\<rparr>
      in if length (stData st) > 0 \<and> (case code of None \<Rightarrow> False | Some c \<Rightarrow> length c > 0) then
           let from = st_from st; dest = st_to st; owner = StateDB_GetContractOwner s dest
           in (case CallWasmContract W (the code) (stData st) from dest owner from
                      (big_Uint64 (stValue st)) (stGas st) s of
                 None \<Rightarrow> None
               | Some (ret, gas, s') \<Rightarrow>
                   let st = st\<lparr>stGas := gas, stState := s'\<rparr>
                   in Some (if ret \<noteq> 0 then Some ErrWasmExec else None, st))
         else Some (None, st))"

text \<open>The new contract's address is the hash parameter \<open>A\<close> of the sender and the nonce.\<close>

definition st_createWasmAccount ::
  "(address \<Rightarrow> u64 \<Rightarrow> address) \<Rightarrow> StateTransition \<Rightarrow> tx_error option \<times> StateTransition" where
  "st_createWasmAccount A st =
     (let contractAddr = A (st_from st) (msgNonce (stMsg st));
          s = Transfer (StateDB_CreateAccount (stState st) contractAddr) (st_from st) contractAddr (stValue st);
          createDataGas = of_nat (length (stData st)) * TxGasContractCreateData;
          (err, st) = st_useGas (st\<lparr>stState := s\<rparr>) createDataGas
      in if err \<noteq> None then (Some ErrCodeStoreOutOfGas, st)
         else (None, st\<lparr>stState := StateDB_SetContractOwner
                          (StateDB_SetCode (stState st) contractAddr (stData st)) contractAddr (st_from st)\<rparr>))"

text \<open>The result is the gas used, whether the contract failed, the error and the transition.\<close>

definition st_WasmTransitionDb ::
  "wasm_engine \<Rightarrow> (address \<Rightarrow> u64 \<Rightarrow> address) \<Rightarrow> StateTransition \<Rightarrow> address
     \<Rightarrow> (u64 \<times> bool \<times> tx_error option \<times> StateTransition) option" where
  "st_WasmTransitionDb W A st coinbase =
     do {
       (err, st) \<leftarrow> st_preCheck st;
       if err \<noteq> None then Some (0, False, err, st)
       else
         let deployContract = (msgTo (stMsg st) = None)
         in (case IntrinsicGas (stData st) deployContract of
               Inl e \<Rightarrow> Some (0, False, Some e, st)
             | Inr gas \<Rightarrow>
                 let (err, st) = st_useGas st gas
                 in if err \<noteq> None then Some (0, False, err, st)
                    else
                      let (err, st) = st_addNonce st
                      in if err \<noteq> None then Some (0, False, err, st)
                         else do {
                           (err, st) \<leftarrow> (if deployContract then Some (st_createWasmAccount A st)
                                         else st_callWasm W st);
                           if deployContract \<and> err \<noteq> None then Some (0, False, err, st)
                           else do {
                             st \<leftarrow> st_refundGas st;
                             let st = st\<lparr>stState := StateDB_AddBalance (stState st) coinbase
                                           (GasFee (st_gasUsed st) (stGasPrice st))\<rparr>
                             in Some (st_gasUsed st, err = Some ErrWasmExec, err, st)
                           }
                         })
     }"

section \<open>The simple executor\<close>

text \<open>What the executors thread through a block: the state, the gas pool and the gas used.\<close>

record exec_state =
  exState :: StateDB
  exGasPool :: GasPool
  exUsedGas :: u64

record exec_config =
  ecCrypto :: Crypto
  ecSigner :: Signer
  ecMaxBitLength :: u64
  ecCoinbase :: address
  ecPrevStateDb :: "StateDB option"

definition SimpleApplyMessage ::
  "exec_config \<Rightarrow> exec_state \<Rightarrow> Message \<Rightarrow> (u64 \<times> tx_error option \<times> exec_state) option" where
  "SimpleApplyMessage c x msg =
     (case StateDB_TxNonceSet (exState x) (msgFrom msg) of
        None \<Rightarrow> Some (0, Some ErrNonceSetNotFound, x)
      | Some _ \<Rightarrow> do {
          (useGas, err, st) \<leftarrow> st_SimpleTransitionDb
             (NewStateTransition (ecPrevStateDb c) (exState x) msg (exGasPool x) (ecMaxBitLength c)) (ecCoinbase c);
          Some (useGas, err, x\<lparr>exState := stState st, exGasPool := stGp st\<rparr>)
        })"

definition SimpleExecutor_ApplyTransaction ::
  "exec_config \<Rightarrow> exec_state \<Rightarrow> Transaction \<Rightarrow> (tx_error option \<times> exec_state) option" where
  "SimpleExecutor_ApplyTransaction c x tx =
     (case Transaction_AsMessage (ecCrypto c) (ecSigner c) tx of
        Inl e \<Rightarrow> Some (Some (ErrSig e), x)
      | Inr msg \<Rightarrow> do {
          (useGas, err, x) \<leftarrow> SimpleApplyMessage c x msg;
          if err \<noteq> None then Some (err, x)
          else Some (None, x\<lparr>exUsedGas := exUsedGas x + useGas\<rparr>)
        })"

definition SimpleExecutor_ExecuteTransaction ::
  "exec_config \<Rightarrow> exec_state \<Rightarrow> Transaction \<Rightarrow> (tx_error option \<times> exec_state) option" where
  "SimpleExecutor_ExecuteTransaction c x tx =
     (let (snap, s) = StateDB_Snapshot (exState x)
      in do {
        (err, x) \<leftarrow> SimpleExecutor_ApplyTransaction c (x\<lparr>exState := s\<rparr>) tx;
        if err \<noteq> None then do {
          s \<leftarrow> StateDB_RevertToSnapshot (exState x) snap;
          Some (err, x\<lparr>exState := s\<rparr>)
        }
        else Some (None, x\<lparr>exState := StateDB_FinaliseOne (exState x)\<rparr>)
      })"

text \<open>
  The loop of \<^verbatim>\<open>ExecuteTransactions\<close> from index \<open>i\<close> on: it stops at a transaction that exceeds the
  block's gas and reports that index, and skips a transaction with any other error.
\<close>

fun SimpleExecutor_txLoop ::
  "exec_config \<Rightarrow> u32 \<Rightarrow> nat \<Rightarrow> Transaction list \<Rightarrow> exec_state \<Rightarrow> TxWithIndex list
     \<Rightarrow> (TxWithIndex list \<times> nat \<times> exec_state) option" where
  "SimpleExecutor_txLoop c txPackageIndex i [] x executedTxs = Some (executedTxs, i, x)"
| "SimpleExecutor_txLoop c txPackageIndex i (tx # txs) x executedTxs =
     do {
       (err, x) \<leftarrow> SimpleExecutor_ExecuteTransaction c x tx;
       if err = Some ErrGasLimitReached then Some (executedTxs, i, x)
       else SimpleExecutor_txLoop c txPackageIndex (i + 1) txs x
              (if err = None
               then executedTxs @ [\<lparr>twTx = tx, twTxPackageIndex = txPackageIndex, twTxIndex = of_nat i\<rparr>]
               else executedTxs)
     }"

definition SimpleExecutor_ExecuteTransactions ::
  "exec_config \<Rightarrow> u32 \<Rightarrow> Transaction list \<Rightarrow> exec_state \<Rightarrow> TxWithIndex list
     \<Rightarrow> (TxWithIndex list \<times> nat \<times> exec_state) option" where
  "SimpleExecutor_ExecuteTransactions c txPackageIndex txs x executedTxs =
     SimpleExecutor_txLoop c txPackageIndex 0 txs x executedTxs"

record TxPackage =
  pkPacker :: address
  pkNonce :: u64
  pkTransactions :: "Transaction list"
  pkBlockFullHash :: hash

definition StateDB_pokePackageNonceSet :: "StateDB \<Rightarrow> address \<Rightarrow> NonceSet \<Rightarrow> StateDB" where
  "StateDB_pokePackageNonceSet s addr ns =
     (case StateDB_getStateObject s addr of
        (None, s') \<Rightarrow> s'
      | (Some obj, s') \<Rightarrow> StateDB_setStateObject s' (stateObject_setPackageNonceSet obj ns))"

text \<open>
  \<^verbatim>\<open>ExecuteTxPackage\<close>: the executed transactions so far (\<open>executedTxs\<close>, which stands for the three
  result lists the code treats alike), whether the gas limit was reached, and the state. A package
  whose nonce is not allowed makes the code return \<open>nil\<close> lists: the empty list here.
\<close>

definition executor_ExecuteTxPackage ::
  "(u32 \<Rightarrow> Transaction list \<Rightarrow> exec_state \<Rightarrow> 'r \<Rightarrow> ('r \<times> nat \<times> exec_state) option) \<Rightarrow> 'r
     \<Rightarrow> exec_config \<Rightarrow> u32 \<Rightarrow> TxPackage \<Rightarrow> exec_state \<Rightarrow> 'r \<Rightarrow> ('r \<times> bool \<times> exec_state) option" where
  "executor_ExecuteTxPackage executeTransactions nil c txPackageIndex pkg x res =
     do {
       oldState \<leftarrow> StateDB_Copy (exState x);
       case StateDB_PackageNonceSet (exState x) (pkPacker pkg) of
         None \<Rightarrow> Some (nil, False, x)
       | Some nonceSet \<Rightarrow> do {
           let needReset = (ecPrevStateDb c \<noteq> None);
           let newStartNonce = (case ecPrevStateDb c of None \<Rightarrow> 0 | Some p \<Rightarrow> StateDB_GetPackageNonce p (pkPacker pkg));
           (searchResult, err, resetChanged, ns) \<leftarrow>
             NonceSet_ResetThenSearch nonceSet needReset newStartNonce (pkNonce pkg) (ecMaxBitLength c);
           let x1 = x\<lparr>exState := StateDB_pokePackageNonceSet (exState x) (pkPacker pkg) ns\<rparr>;
           if err \<noteq> None then Some (nil, False, x1)
           else if searchResult \<noteq> NotContainedAndAllowed then Some (nil, False, x1)
           else do {
             (newRes, loopEndIndex, x2) \<leftarrow> executeTransactions txPackageIndex (pkTransactions pkg) x1 res;
             if loopEndIndex < length (pkTransactions pkg) then do {
               s \<leftarrow> StateDB_ResetTo (exState x2) oldState;
               Some (res, True, \<lparr>exState = s, exGasPool = exGasPool x, exUsedGas = exUsedGas x\<rparr>)
             }
             else
               let ns2 = (case StateDB_PackageNonceSet (exState x2) (pkPacker pkg) of None \<Rightarrow> ns | Some n \<Rightarrow> n);
                   (_, addChanged, ns3) = NonceSet_Add ns2 (pkNonce pkg) (ecMaxBitLength c);
                   s3 = StateDB_pokePackageNonceSet (exState x2) (pkPacker pkg) ns3;
                   s4 = (if resetChanged \<or> addChanged
                         then StateDB_FinaliseOne (StateDB_MarkPackageNonceSetJournal s3 (pkPacker pkg))
                         else s3)
               in Some (newRes, False, x2\<lparr>exState := s4\<rparr>)
           }
         }
     }"

fun executor_pkgLoop ::
  "(u32 \<Rightarrow> TxPackage \<Rightarrow> exec_state \<Rightarrow> 'r \<Rightarrow> ('r \<times> bool \<times> exec_state) option)
     \<Rightarrow> nat \<Rightarrow> TxPackage list \<Rightarrow> exec_state \<Rightarrow> 'r \<Rightarrow> ('r \<times> nat \<times> exec_state) option" where
  "executor_pkgLoop exec i [] x res = Some (res, i, x)"
| "executor_pkgLoop exec i (pkg # pkgs) x res =
     do {
       (res, gasLimitReached, x) \<leftarrow> exec (of_nat i) pkg x res;
       if gasLimitReached then Some (res, i, x) else executor_pkgLoop exec (i + 1) pkgs x res
     }"

definition SimpleExecutor_ExecuteTxPackage ::
  "exec_config \<Rightarrow> u32 \<Rightarrow> TxPackage \<Rightarrow> exec_state \<Rightarrow> TxWithIndex list \<Rightarrow> (TxWithIndex list \<times> bool \<times> exec_state) option" where
  "SimpleExecutor_ExecuteTxPackage c =
     executor_ExecuteTxPackage (SimpleExecutor_ExecuteTransactions c) [] c"

definition SimpleExecutor_ExecuteTxPackages ::
  "exec_config \<Rightarrow> TxPackage list \<Rightarrow> exec_state \<Rightarrow> TxWithIndex list \<Rightarrow> (TxWithIndex list \<times> nat \<times> exec_state) option" where
  "SimpleExecutor_ExecuteTxPackages c txpkgs x executedTxs =
     executor_pkgLoop (SimpleExecutor_ExecuteTxPackage c) 0 txpkgs x executedTxs"

section \<open>The WASM executor\<close>

definition WasmApplyMessage ::
  "wasm_engine \<Rightarrow> (address \<Rightarrow> u64 \<Rightarrow> address) \<Rightarrow> exec_config \<Rightarrow> exec_state \<Rightarrow> Message
     \<Rightarrow> (u64 \<times> bool \<times> tx_error option \<times> exec_state) option" where
  "WasmApplyMessage W A c x msg =
     (case StateDB_TxNonceSet (exState x) (msgFrom msg) of
        None \<Rightarrow> Some (0, False, Some ErrNonceSetNotFound, x)
      | Some _ \<Rightarrow> do {
          (useGas, failed, err, st) \<leftarrow> st_WasmTransitionDb W A
             (NewStateTransition (ecPrevStateDb c) (exState x) msg (exGasPool x) (ecMaxBitLength c)) (ecCoinbase c);
          Some (useGas, failed, err, x\<lparr>exState := stState st, exGasPool := stGp st\<rparr>)
        })"

text \<open>A failed contract is not an error of the transaction: it gets a receipt and keeps its effects.\<close>

definition WasmExecutor_ApplyTransaction ::
  "wasm_engine \<Rightarrow> (address \<Rightarrow> u64 \<Rightarrow> address) \<Rightarrow> exec_config \<Rightarrow> exec_state \<Rightarrow> Transaction
     \<Rightarrow> (Receipt option \<times> tx_error option \<times> exec_state) option" where
  "WasmExecutor_ApplyTransaction W A c x tx =
     (case Transaction_AsMessage (ecCrypto c) (ecSigner c) tx of
        Inl e \<Rightarrow> Some (None, Some (ErrSig e), x)
      | Inr msg \<Rightarrow> do {
          (useGas, wasmFailed, err, x) \<leftarrow> WasmApplyMessage W A c x msg;
          if err \<noteq> None \<and> \<not> wasmFailed then Some (None, err, x)
          else do {
            let usedGas = exUsedGas x + useGas;
            let h = cTxHash (ecCrypto c) tx;
            let receipt = (NewReceipt [] wasmFailed usedGas)
                  \<lparr>rcTxHash := h, rcGasUsed := useGas,
                   rcContractAddress := (if msgTo msg = None then A (msgFrom msg) (msgNonce msg) else 0),
                   rcLogs := StateDB_GetLogs (exState x) h\<rparr>;
            bloom \<leftarrow> CreateBloom (cKeccak (ecCrypto c)) [receipt];
            Some (Some (receipt\<lparr>rcBloom := bloom\<rparr>), None, x\<lparr>exUsedGas := usedGas\<rparr>)
          }
        })"

definition WasmExecutor_ExecuteTransaction ::
  "wasm_engine \<Rightarrow> (address \<Rightarrow> u64 \<Rightarrow> address) \<Rightarrow> exec_config \<Rightarrow> exec_state \<Rightarrow> Transaction
     \<Rightarrow> (Receipt option \<times> tx_error option \<times> exec_state) option" where
  "WasmExecutor_ExecuteTransaction W A c x tx =
     (let (snap, s) = StateDB_Snapshot (exState x)
      in do {
        (receipt, err, x) \<leftarrow> WasmExecutor_ApplyTransaction W A c (x\<lparr>exState := s\<rparr>) tx;
        if err \<noteq> None then do {
          s \<leftarrow> StateDB_RevertToSnapshot (exState x) snap;
          Some (None, err, x\<lparr>exState := s\<rparr>)
        }
        else Some (receipt, None, x\<lparr>exState := StateDB_FinaliseOne (exState x)\<rparr>)
      })"

type_synonym exec_results = "TxWithIndex list \<times> Log list \<times> Receipt list"

fun WasmExecutor_txLoop ::
  "wasm_engine \<Rightarrow> (address \<Rightarrow> u64 \<Rightarrow> address) \<Rightarrow> exec_config \<Rightarrow> u32 \<Rightarrow> nat \<Rightarrow> Transaction list
     \<Rightarrow> exec_state \<Rightarrow> exec_results \<Rightarrow> (exec_results \<times> nat \<times> exec_state) option" where
  "WasmExecutor_txLoop W A c txPackageIndex i [] x res = Some (res, i, x)"
| "WasmExecutor_txLoop W A c txPackageIndex i (tx # txs) x res =
     do {
       let x0 = x\<lparr>exState := StateDB_Prepare (exState x) (cTxHash (ecCrypto c) tx) txPackageIndex (of_nat i)\<rparr>;
       (receipt, err, x) \<leftarrow> WasmExecutor_ExecuteTransaction W A c x0 tx;
       if err = Some ErrGasLimitReached then Some (res, i, x)
       else WasmExecutor_txLoop W A c txPackageIndex (i + 1) txs x
              (case (err, receipt, res) of
                 (None, Some r, (executedTxs, allLogs, receipts)) \<Rightarrow>
                   (executedTxs @ [\<lparr>twTx = tx, twTxPackageIndex = txPackageIndex, twTxIndex = of_nat i\<rparr>],
                    allLogs @ rcLogs r, receipts @ [r])
               | _ \<Rightarrow> res)
     }"

definition WasmExecutor_ExecuteTransactions ::
  "wasm_engine \<Rightarrow> (address \<Rightarrow> u64 \<Rightarrow> address) \<Rightarrow> exec_config \<Rightarrow> u32 \<Rightarrow> Transaction list
     \<Rightarrow> exec_state \<Rightarrow> exec_results \<Rightarrow> (exec_results \<times> nat \<times> exec_state) option" where
  "WasmExecutor_ExecuteTransactions W A c txPackageIndex txs x res =
     WasmExecutor_txLoop W A c txPackageIndex 0 txs x res"

definition WasmExecutor_ExecuteTxPackage ::
  "wasm_engine \<Rightarrow> (address \<Rightarrow> u64 \<Rightarrow> address) \<Rightarrow> exec_config \<Rightarrow> u32 \<Rightarrow> TxPackage \<Rightarrow> exec_state
     \<Rightarrow> exec_results \<Rightarrow> (exec_results \<times> bool \<times> exec_state) option" where
  "WasmExecutor_ExecuteTxPackage W A c =
     executor_ExecuteTxPackage (WasmExecutor_ExecuteTransactions W A c) ([], [], []) c"

definition WasmExecutor_ExecuteTxPackages ::
  "wasm_engine \<Rightarrow> (address \<Rightarrow> u64 \<Rightarrow> address) \<Rightarrow> exec_config \<Rightarrow> TxPackage list \<Rightarrow> exec_state
     \<Rightarrow> exec_results \<Rightarrow> (exec_results \<times> nat \<times> exec_state) option" where
  "WasmExecutor_ExecuteTxPackages W A c txpkgs x res =
     executor_pkgLoop (WasmExecutor_ExecuteTxPackage W A c) 0 txpkgs x res"

end
