(* ===== verification/State_Effects.thy ===== *)
theory State_Effects
  imports State_Revert
begin

text \<open>
  What the operations of the state database do to the account data, as equations, and that the
  states reached by running operations can be reverted: the facts that the transaction executors,
  the genesis block and the block reward rely on.
\<close>

section \<open>Account data\<close>

named_theorems sdb_effects \<open>effects of state operations on account data\<close>

text \<open>The data of an account, the zero data for one that does not exist.\<close>

definition get_data :: "StateDB \<Rightarrow> address \<Rightarrow> Account" where
  "get_data s a = avData (get_view s a)"

lemma GetBalance_data: "sdb_wf s \<Longrightarrow> StateDB_GetBalance s a = acBalance (get_data s a)"
  by (simp add: StateDB_GetBalance_def get_data_def get_view_def sdb_view_def obj_view_def zero_view_def
      Account_zero_def split: option.split)

lemma TxNonceSet_data:
  "StateDB_TxNonceSet s a = (if sdb_view s a = None then None else Some (acTxNonceSet (get_data s a)))"
  by (simp add: StateDB_TxNonceSet_def get_data_def get_view_def sdb_view_def obj_view_def split: option.split)

lemma PackageNonceSet_data:
  "StateDB_PackageNonceSet s a = (if sdb_view s a = None then None else Some (acPackageNonceSet (get_data s a)))"
  by (simp add: StateDB_PackageNonceSet_def get_data_def get_view_def sdb_view_def obj_view_def split: option.split)

lemma sdb_exec_db: "sdb_wf s \<Longrightarrow> sdbDb (sdb_exec p s) = sdbDb s"
  using sdb_exec_frame [of s p] sdb_env_db [of "sdb_exec p s" s] by blast

lemma sdb_exec_view: "sdb_wf s \<Longrightarrow>
   sdb_view (sdb_exec p s) = abView (sdb_spec (sdb_env_of s) p (sdb_abs_of s))"
  using sdb_exec_frame [of s p] by (metis sdb_abs_simps(1))

lemma exec_wf [simp, intro]: "sdb_wf s \<Longrightarrow> sdb_wf (sdb_exec p s)"
  by (rule sdb_store.exec_wf)

lemmas exec_wf_ops [simp, intro] =
  exec_wf [of _ "OpAddBalance a n" for a n, simplified]
  exec_wf [of _ "OpSubBalance a n" for a n, simplified]
  exec_wf [of _ "OpUpdateTxNonceSet a ns" for a ns, simplified]
  exec_wf [of _ "OpCreateAccount a" for a, simplified]
  exec_wf [of _ "OpSetCode a c" for a c, simplified]
  exec_wf [of _ "OpSetContractOwner a c" for a c, simplified]
  exec_wf [of _ "OpSetBalance a n" for a n, simplified]
  exec_wf [of _ "OpSnapshot", simplified]

lemma get_data_cong: "sdb_view t = sdb_view s \<Longrightarrow> sdbDb t = sdbDb s \<Longrightarrow> get_data t = get_data s"
  by (rule ext) (simp only: get_data_def get_view_def)

lemma get_data_exec:
  assumes "sdb_wf s" "sdb_view (sdb_exec p s) = (sdb_view s)(a \<mapsto> v)"
  shows "get_data (sdb_exec p s) = (get_data s)(a := avData v)"
proof (rule ext)
  show "get_data (sdb_exec p s) b = ((get_data s)(a := avData v)) b" for b
    unfolding get_data_def get_view_def sdb_exec_db [OF assms(1)] assms(2) by simp
qed

lemma view_AddBalance: "sdb_wf s \<Longrightarrow> sdb_view (StateDB_AddBalance s a n) = (sdb_view s)(a \<mapsto>
    (get_view s a)\<lparr>avData := (get_data s a)\<lparr>acBalance := acBalance (get_data s a) + n\<rparr>\<rparr>)"
  using sdb_exec_view [of s "OpAddBalance a n"] by (simp add: sdb_env_of_def gv_get_view get_data_def Let_def)

lemma view_SubBalance: "sdb_wf s \<Longrightarrow> sdb_view (StateDB_SubBalance s a n) = (sdb_view s)(a \<mapsto>
    (get_view s a)\<lparr>avData := (get_data s a)\<lparr>acBalance := acBalance (get_data s a) - n\<rparr>\<rparr>)"
  using sdb_exec_view [of s "OpSubBalance a n"] by (simp add: sdb_env_of_def gv_get_view get_data_def Let_def)

lemma view_UpdateTxNonceSet: "sdb_wf s \<Longrightarrow> sdb_view s a \<noteq> None \<Longrightarrow>
  sdb_view (StateDB_UpdateTxNonceSet s a ns) = (sdb_view s)(a \<mapsto>
    (get_view s a)\<lparr>avData := (get_data s a)\<lparr>acTxNonceSet := ns\<rparr>\<rparr>)"
  using sdb_exec_view [of s "OpUpdateTxNonceSet a ns"]
  by (auto simp: sdb_env_of_def get_view_def get_data_def Let_def)

lemma data_AddBalance [sdb_effects]: "sdb_wf s \<Longrightarrow> get_data (StateDB_AddBalance s a n) =
    (get_data s)(a := (get_data s a)\<lparr>acBalance := acBalance (get_data s a) + n\<rparr>)"
  using get_data_exec [of s "OpAddBalance a n" a] view_AddBalance [of s a n] by simp

lemma data_SubBalance [sdb_effects]: "sdb_wf s \<Longrightarrow> get_data (StateDB_SubBalance s a n) =
    (get_data s)(a := (get_data s a)\<lparr>acBalance := acBalance (get_data s a) - n\<rparr>)"
  using get_data_exec [of s "OpSubBalance a n" a] view_SubBalance [of s a n] by simp

lemma data_UpdateTxNonceSet [sdb_effects]: "sdb_wf s \<Longrightarrow> sdb_view s a \<noteq> None \<Longrightarrow>
   get_data (StateDB_UpdateTxNonceSet s a ns) = (get_data s)(a := (get_data s a)\<lparr>acTxNonceSet := ns\<rparr>)"
  using get_data_exec [of s "OpUpdateTxNonceSet a ns" a] view_UpdateTxNonceSet [of s a ns] by simp

lemma exists_ops [sdb_effects]:
  "sdb_wf s \<Longrightarrow> sdb_view (StateDB_AddBalance s a n) b = None \<longleftrightarrow> sdb_view s b = None \<and> b \<noteq> a"
  "sdb_wf s \<Longrightarrow> sdb_view (StateDB_SubBalance s a n) b = None \<longleftrightarrow> sdb_view s b = None \<and> b \<noteq> a"
  "sdb_wf s \<Longrightarrow> sdb_view s a \<noteq> None \<Longrightarrow> sdb_view (StateDB_UpdateTxNonceSet s a ns) b = None \<longleftrightarrow> sdb_view s b = None"
  by (auto simp: view_AddBalance view_SubBalance view_UpdateTxNonceSet)

lemma refund_ops [sdb_effects]:
  "sdb_wf s \<Longrightarrow> sdbRefund (StateDB_AddBalance s a n) = sdbRefund s"
  "sdb_wf s \<Longrightarrow> sdbRefund (StateDB_SubBalance s a n) = sdbRefund s"
  "sdb_wf s \<Longrightarrow> sdbRefund (StateDB_UpdateTxNonceSet s a ns) = sdbRefund s"
proof -
  assume wf: "sdb_wf s"
  have r: "sdbRefund (sdb_exec p s) = abRefund (sdb_spec (sdb_env_of s) p (sdb_abs_of s))" for p
    using sdb_exec_frame [OF wf, of p] by (metis sdb_abs_simps(2))
  show "sdbRefund (StateDB_AddBalance s a n) = sdbRefund s"
    using r [of "OpAddBalance a n"] by (simp add: sdb_env_of_def Let_def)
  show "sdbRefund (StateDB_SubBalance s a n) = sdbRefund s"
    using r [of "OpSubBalance a n"] by (simp add: sdb_env_of_def Let_def)
  show "sdbRefund (StateDB_UpdateTxNonceSet s a ns) = sdbRefund s"
    using r [of "OpUpdateTxNonceSet a ns"] by (simp add: sdb_env_of_def Let_def split: option.splits)
qed

lemma FinaliseOne_effects [sdb_effects]:
  "sdb_view (StateDB_FinaliseOne s) = sdb_view s" "get_data (StateDB_FinaliseOne s) = get_data s"
  "sdb_wf (StateDB_FinaliseOne s) = sdb_wf s" "sdbRefund (StateDB_FinaliseOne s) = 0"
  "revisions_wf (StateDB_FinaliseOne s)" "journal_exact (StateDB_FinaliseOne s)"
proof -
  show v: "sdb_view (StateDB_FinaliseOne s) = sdb_view s"
    by (rule sdb_view_only_live)
      (simp_all add: StateDB_FinaliseOne_def StateDB_clearJournalAndRefund_def StateDB_markDirty_def)
  show "sdb_wf (StateDB_FinaliseOne s) = sdb_wf s"
    by (rule sdb_wf_only_live)
      (simp_all add: StateDB_FinaliseOne_def StateDB_clearJournalAndRefund_def StateDB_markDirty_def)
  have "sdbDb (StateDB_FinaliseOne s) = sdbDb s"
    by (simp add: StateDB_FinaliseOne_def StateDB_clearJournalAndRefund_def StateDB_markDirty_def)
  with v show "get_data (StateDB_FinaliseOne s) = get_data s" by (rule get_data_cong)
qed (simp_all add: StateDB_FinaliseOne_def StateDB_clearJournalAndRefund_def StateDB_markDirty_def
    revisions_wf_def journal_exact_def dirties_exact_def dirty_count_def newJournal_def)

lemma Snapshot_effects [sdb_effects]:
  "sdb_view (snd (StateDB_Snapshot s)) = sdb_view s" "get_data (snd (StateDB_Snapshot s)) = get_data s"
  "sdbRefund (snd (StateDB_Snapshot s)) = sdbRefund s"
proof -
  show v: "sdb_view (snd (StateDB_Snapshot s)) = sdb_view s"
    by (rule sdb_view_only_live) (simp_all add: StateDB_Snapshot_def Let_def)
  then show "get_data (snd (StateDB_Snapshot s)) = get_data s"
    by (rule get_data_cong) (simp add: StateDB_Snapshot_def Let_def)
qed (simp add: StateDB_Snapshot_def Let_def)

lemma sdb_same_data: "sdb_same t s \<Longrightarrow> get_data t = get_data s \<and> sdb_view t = sdb_view s \<and> sdbRefund t = sdbRefund s"
  unfolding sdb_same_def using sdb_env_db [of t s] get_data_cong [of t s] sdb_abs_simps(1,2) by metis

section \<open>Runs of operations\<close>

definition sdb_runs :: "StateDB \<Rightarrow> StateDB \<Rightarrow> bool" where
  "sdb_runs s t \<longleftrightarrow> (\<exists>ps. t = fold sdb_exec ps s)"

lemma sdb_runs_refl [simp, intro]: "sdb_runs s s"
  by (auto simp: sdb_runs_def intro: exI [of _ "[]"])

lemma sdb_runs_trans: "sdb_runs s t \<Longrightarrow> sdb_runs t u \<Longrightarrow> sdb_runs s u"
  unfolding sdb_runs_def by (metis fold_append comp_apply)

lemma sdb_runs_exec: "sdb_runs s t \<Longrightarrow> sdb_runs s (sdb_exec p t)"
  unfolding sdb_runs_def by (metis fold.simps fold_append comp_apply id_apply)

lemmas sdb_runs_ops [intro] =
  sdb_runs_exec [of _ _ "OpAddBalance a n" for a n, simplified]
  sdb_runs_exec [of _ _ "OpSubBalance a n" for a n, simplified]
  sdb_runs_exec [of _ _ "OpUpdateTxNonceSet a ns" for a ns, simplified]
  sdb_runs_exec [of _ _ "OpCreateAccount a" for a, simplified]

lemma revert_runs:
  assumes "sdb_wf s" "revisions_wf s" "journal_exact s" "sdb_runs (snd (StateDB_Snapshot s)) u"
  obtains t where "StateDB_RevertToSnapshot u (fst (StateDB_Snapshot s)) = Some t" "sdb_wf t" "sdb_same t s"
     "revisions_wf t" "journal_exact t"
  using RevertToSnapshot_undoes [OF assms(1-3) prod.collapse [symmetric]] assms(4)
  by (auto simp: sdb_runs_def)

end
