(* ===== verification/Tx_Safety.thy ===== *)
theory Tx_Safety
  imports Tx_Exec State_Effects
begin

text \<open>
  What the executors guarantee: what a transaction does to balances, nonces and the gas pool, that
  a rejected transaction leaves the state as it was, and that no nonce of a sender is executed
  twice.
\<close>

section \<open>Invariant of the executed state\<close>

abbreviation tx_nonces :: "StateDB \<Rightarrow> address \<Rightarrow> NonceSet" where
  "tx_nonces s a \<equiv> acTxNonceSet (get_data s a)"

definition nonce_spent :: "NonceSet \<Rightarrow> nat \<Rightarrow> bool" where
  "nonce_spent ns n \<longleftrightarrow> n < unat (nsStart ns) \<or> n \<in> used ns"

definition tx_inv :: "u64 \<Rightarrow> StateDB \<Rightarrow> bool" where
  "tx_inv m s \<longleftrightarrow> sdb_wf s \<and> (\<forall>a. NonceSet_wf (tx_nonces s a) \<and> window_fits (tx_nonces s a) m)"

text \<open>The nonces of the previous state leave room for the window.\<close>

definition prev_fits :: "u64 \<Rightarrow> StateDB option \<Rightarrow> bool" where
  "prev_fits m prev \<longleftrightarrow> (case prev of None \<Rightarrow> True | Some p \<Rightarrow> \<forall>a. unat (StateDB_GetNonce p a) + unat m < 2 ^ 64)"

definition set_nonces :: "(address \<Rightarrow> Account) \<Rightarrow> address \<Rightarrow> NonceSet \<Rightarrow> address \<Rightarrow> Account" where
  "set_nonces d a ns = d(a := (d a)\<lparr>acTxNonceSet := ns\<rparr>)"

definition add_balance :: "(address \<Rightarrow> Account) \<Rightarrow> address \<Rightarrow> int \<Rightarrow> address \<Rightarrow> Account" where
  "add_balance d a n = d(a := (d a)\<lparr>acBalance := acBalance (d a) + n\<rparr>)"

lemma set_nonces_simps [simp]:
  "acBalance (set_nonces d a ns b) = acBalance (d b)"
  "acTxNonceSet (set_nonces d a ns b) = (if b = a then ns else acTxNonceSet (d b))"
  "acBalance (add_balance d a n b) = acBalance (d b) + (if b = a then n else 0)"
  "acTxNonceSet (add_balance d a n b) = acTxNonceSet (d b)"
  by (simp_all add: set_nonces_def add_balance_def)

lemma set_nonces_same [simp]: "set_nonces d a (acTxNonceSet (d a)) = d"
  by (simp add: set_nonces_def)

lemmas data_ops =
  data_AddBalance [folded add_balance_def]
  data_SubBalance [where n = n for n, unfolded diff_conv_add_uminus, folded add_balance_def]
  data_UpdateTxNonceSet [folded set_nonces_def]

lemma tx_invI:
  "sdb_wf t \<Longrightarrow> tx_inv m s \<Longrightarrow> (\<And>a. tx_nonces t a = tx_nonces s a) \<Longrightarrow> tx_inv m t"
  by (simp add: tx_inv_def)

lemma tx_inv_wf [simp]: "tx_inv m s \<Longrightarrow> sdb_wf s" by (simp add: tx_inv_def)

lemma tx_inv_ops [simp, intro]:
  "tx_inv m s \<Longrightarrow> tx_inv m (StateDB_AddBalance s a n)"
  "tx_inv m s \<Longrightarrow> tx_inv m (StateDB_SubBalance s a n)"
  by (auto intro!: tx_invI [of _ m s] simp: data_ops)

section \<open>Steps of a transition\<close>

lemma resetNonce_spec:
  assumes inv: "tx_inv m (stState st)" "sdb_view (stState st) (st_from st) \<noteq> None" "prev_fits m (stPrevStateDb st)"
  obtains err s' ns where "st_resetNonce st = Some (err, st\<lparr>stState := s'\<rparr>)" "sdb_runs (stState st) s'"
    "tx_inv m s'" "get_data s' = set_nonces (get_data (stState st)) (st_from st) ns"
    "\<And>a. sdb_view s' a = None \<longleftrightarrow> sdb_view (stState st) a = None" "sdbRefund s' = sdbRefund (stState st)"
    "\<And>n. nonce_spent (tx_nonces (stState st) (st_from st)) n \<Longrightarrow> nonce_spent ns n"
proof -
  note goal = that
  let ?s = "stState st" and ?f = "st_from st"
  let ?ns = "tx_nonces ?s ?f"
  have ns: "st_nonceSet st = ?ns"
    using inv(2) by (auto simp: st_nonceSet_def TxNonceSet_data)
  have wf: "sdb_wf ?s" "NonceSet_wf ?ns" using inv(1) by (simp_all add: tx_inv_def)
  have same: thesis if eq: "st_resetNonce st = Some (err, st)" for err
    by (rule goal [of err ?s ?ns]) (use eq inv(1) in auto)
  show ?thesis
  proof (cases "stPrevStateDb st")
    case None
    then show ?thesis by (intro same) (simp add: st_resetNonce_def)
  next
    case (Some p)
    let ?n = "StateDB_GetNonce p ?f"
    show ?thesis
    proof (cases "?n < nsStart ?ns")
      case True
      then show ?thesis by (intro same) (simp add: st_resetNonce_def Some ns NonceSet_Reset_def)
    next
      case False
      then have le: "nsStart ?ns \<le> ?n" by simp
      obtain ns' where r: "NonceSet_Reset ?ns ?n = Some (None, ?n \<noteq> nsStart ?ns, ns')" "NonceSet_wf ns'"
        "nsStart ns' = ?n" "used ns' = {n \<in> used ?ns. unat ?n \<le> n}"
        by (rule NonceSet_Reset_spec [OF wf(2) le])
      show ?thesis
      proof (cases "?n = nsStart ?ns")
        case True
        with r show ?thesis by (intro same) (simp add: st_resetNonce_def Some ns)
      next
        case False
        let ?s' = "StateDB_UpdateTxNonceSet ?s ?f ns'"
        have d: "get_data ?s' = set_nonces (get_data ?s) ?f ns'"
          using wf(1) inv(2) by (rule data_ops)
        have fits: "window_fits ns' m"
          using inv(1,3) r(3) Some by (simp add: tx_inv_def window_fits_def prev_fits_def)
        show ?thesis
        proof (rule goal [of None ?s' ns'])
          show "tx_inv m ?s'" using inv(1) r(2) fits wf(1) by (simp add: tx_inv_def d)
          have "unat (nsStart ?ns) \<le> unat ?n" using le by (rule word_le_nat_alt [THEN iffD1])
          then show "nonce_spent ns' n" if "nonce_spent ?ns n" for n
            using that unfolding nonce_spent_def r(3,4) mem_Collect_eq by linarith
        qed (use r False Some ns wf inv(2) d in \<open>auto simp: st_resetNonce_def sdb_effects\<close>)
      qed
    qed
  qed
qed

lemma checkNonce_spec:
  assumes inv: "tx_inv (stMaxBitLength st) (stState st)" "sdb_view (stState st) (st_from st) \<noteq> None"
    and check: "msgCheckNonce (stMsg st)"
  obtains err where "st_checkNonce st = Some err"
    "err = None \<longleftrightarrow> \<not> nonce_spent (tx_nonces (stState st) (st_from st)) (unat (msgNonce (stMsg st)))
       \<and> unat (msgNonce (stMsg st)) < unat (nsStart (tx_nonces (stState st) (st_from st))) + unat (stMaxBitLength st)"
proof -
  let ?ns = "tx_nonces (stState st) (st_from st)"
  have ns: "st_nonceSet st = ?ns" using inv(2) by (auto simp: st_nonceSet_def TxNonceSet_data)
  have "NonceSet_wf ?ns" "window_fits ?ns (stMaxBitLength st)" using inv(1) by (simp_all add: tx_inv_def)
  from NonceSet_Search_spec [OF this, of "msgNonce (stMsg st)"] check
  have "\<exists>err. st_checkNonce st = Some err \<and> (err = None \<longleftrightarrow> \<not> nonce_spent ?ns (unat (msgNonce (stMsg st)))
     \<and> unat (msgNonce (stMsg st)) < unat (nsStart ?ns) + unat (stMaxBitLength st))"
    by (simp add: st_checkNonce_def ns nonce_spent_def not_less)
  with that show ?thesis by blast
qed

lemma addNonce_spec:
  assumes inv: "tx_inv (stMaxBitLength st) (stState st)" "sdb_view (stState st) (st_from st) \<noteq> None"
    and fresh: "\<not> nonce_spent (tx_nonces (stState st) (st_from st)) (unat (msgNonce (stMsg st)))"
    "unat (msgNonce (stMsg st)) < unat (nsStart (tx_nonces (stState st) (st_from st))) + unat (stMaxBitLength st)"
  obtains ns where
    "st_addNonce st = (None, st\<lparr>stState := StateDB_UpdateTxNonceSet (stState st) (st_from st) ns\<rparr>)"
    "\<And>n. nonce_spent ns n \<longleftrightarrow> nonce_spent (tx_nonces (stState st) (st_from st)) n \<or> n = unat (msgNonce (stMsg st))"
    "tx_inv (stMaxBitLength st) (StateDB_UpdateTxNonceSet (stState st) (st_from st) ns)"
proof -
  let ?s = "stState st" and ?f = "st_from st" and ?n = "msgNonce (stMsg st)" and ?m = "stMaxBitLength st"
  let ?ns = "tx_nonces ?s ?f"
  have ns: "st_nonceSet st = ?ns" using inv(2) by (auto simp: st_nonceSet_def TxNonceSet_data)
  have wf: "NonceSet_wf ?ns" "window_fits ?ns ?m" "sdb_wf ?s" using inv(1) by (simp_all add: tx_inv_def)
  have "nsStart ?ns \<le> ?n" "?n < nsStart ?ns + ?m"
    using fresh unat_window_end [OF wf(2)] by (simp_all add: nonce_spent_def word_le_nat_alt word_less_nat_alt)
  note low = this
  obtain ns' where
    a: "NonceSet_Add ?ns ?n ?m = (None, unat ?n \<notin> used ?ns, ns')" "NonceSet_wf ns'" "nsStart ns' = nsStart ?ns"
      "used ns' = insert (unat ?n) (used ?ns)"
    by (rule NonceSet_Add_spec [OF wf(1,2) low])
  have d: "get_data (StateDB_UpdateTxNonceSet ?s ?f ns') = set_nonces (get_data ?s) ?f ns'"
    using wf(3) inv(2) by (rule data_ops)
  show ?thesis
  proof (rule that [of ns'])
    show "st_addNonce st = (None, st\<lparr>stState := StateDB_UpdateTxNonceSet ?s ?f ns'\<rparr>)"
      using a(1) fresh(1) by (simp add: st_addNonce_def ns nonce_spent_def)
    show "nonce_spent ns' n \<longleftrightarrow> nonce_spent ?ns n \<or> n = unat ?n" for n
      using a(3,4) by (auto simp: nonce_spent_def)
    show "tx_inv ?m (StateDB_UpdateTxNonceSet ?s ?f ns')"
      using inv(1) a(2,3) wf by (simp add: tx_inv_def d window_fits_def)
  qed
qed

text \<open>The state of a transition that is about to start.\<close>

definition st_start :: "StateTransition \<Rightarrow> bool" where
  "st_start st \<longleftrightarrow> tx_inv (stMaxBitLength st) (stState st) \<and> prev_fits (stMaxBitLength st) (stPrevStateDb st)
     \<and> sdb_view (stState st) (st_from st) \<noteq> None \<and> msgCheckNonce (stMsg st) \<and> stGas st = 0"

text \<open>What has been checked and done when the pre-check passes.\<close>

definition preCheck_passed :: "StateTransition \<Rightarrow> StateTransition \<Rightarrow> bool" where
  "preCheck_passed st st' \<longleftrightarrow>
     (let f = st_from st; d = get_data (stState st); gas = msgGasLimit (stMsg st);
          fee = GasFee gas (stGasPrice st); n = unat (msgNonce (stMsg st))
      in fee \<le> acBalance (d f) \<and> stValue st + fee \<le> acBalance (d f)
         \<and> GasPool_SubGas (stGp st) gas = Some (stGp st') \<and> stGas st' = gas \<and> stInitialGas st' = gas
         \<and> (\<exists>ns. get_data (stState st') = add_balance (set_nonces d f ns) f (- fee)
              \<and> (\<forall>k. nonce_spent (acTxNonceSet (d f)) k \<longrightarrow> nonce_spent ns k)
              \<and> \<not> nonce_spent ns n \<and> n < unat (nsStart ns) + unat (stMaxBitLength st))
         \<and> sdbRefund (stState st') = sdbRefund (stState st)
         \<and> (\<forall>a. sdb_view (stState st') a = None \<longleftrightarrow> sdb_view (stState st) a = None))"

lemma preCheck_spec:
  assumes "st_start st" "st_preCheck st = Some (err, st')"
  shows "sdb_runs (stState st) (stState st')" "tx_inv (stMaxBitLength st) (stState st')"
    "stMsg st' = stMsg st \<and> stValue st' = stValue st \<and> stGasPrice st' = stGasPrice st \<and> stData st' = stData st
     \<and> stMaxBitLength st' = stMaxBitLength st \<and> unat (stGp st') \<le> unat (stGp st)"
    "err = None \<Longrightarrow> preCheck_passed st st'"
    "sdb_view (stState st') (st_from st) \<noteq> None"
proof -
  let ?m = "stMaxBitLength st" and ?f = "st_from st"
  have st: "tx_inv ?m (stState st)" "prev_fits ?m (stPrevStateDb st)" "sdb_view (stState st) ?f \<noteq> None"
    "msgCheckNonce (stMsg st)" "stGas st = 0"
    using assms(1) by (simp_all add: st_start_def)
  obtain rerr s1 ns where r: "st_resetNonce st = Some (rerr, st\<lparr>stState := s1\<rparr>)" "sdb_runs (stState st) s1"
    "tx_inv ?m s1" "get_data s1 = set_nonces (get_data (stState st)) ?f ns"
    "\<And>a. sdb_view s1 a = None \<longleftrightarrow> sdb_view (stState st) a = None" "sdbRefund s1 = sdbRefund (stState st)"
    "\<And>n. nonce_spent (tx_nonces (stState st) ?f) n \<Longrightarrow> nonce_spent ns n"
    by (rule resetNonce_spec [OF st(1,3,2)]) blast
  have ex1: "sdb_view s1 ?f \<noteq> None" using r(5) [of ?f] st(3) by simp
  let ?st1 = "st\<lparr>stState := s1\<rparr>"
  have f1: "st_from ?st1 = ?f" by (simp add: st_from_def)
  obtain nerr where n: "st_checkNonce ?st1 = Some nerr"
    "nerr = None \<longleftrightarrow> \<not> nonce_spent ns (unat (msgNonce (stMsg st)))
        \<and> unat (msgNonce (stMsg st)) < unat (nsStart ns) + unat ?m"
    using checkNonce_spec [of ?st1] r st by (auto simp: f1)
  let ?fee = "GasFee (msgGasLimit (stMsg st)) (stGasPrice st)"
  obtain berr st2 where b: "st_buyGas ?st1 = (berr, st2)" by (metis surj_pair)
  have st2: "(st2 = ?st1 \<and> berr \<noteq> None) \<or> (berr = None \<and> ?fee \<le> acBalance (get_data (stState st) ?f)
     \<and> (\<exists>gp. GasPool_SubGas (stGp st) (msgGasLimit (stMsg st)) = Some gp
       \<and> st2 = ?st1\<lparr>stGp := gp, stGas := msgGasLimit (stMsg st), stInitialGas := msgGasLimit (stMsg st),
            stState := StateDB_SubBalance s1 ?f ?fee\<rparr>))"
    using b r(3,4) st(5)
    by (auto simp: st_buyGas_def Let_def f1 GetBalance_data split: if_splits option.splits)
  have pool: "unat gp \<le> unat (stGp st)" if "GasPool_SubGas (stGp st) g = Some gp" for gp g
    using that by (simp add: GasPool_SubGas_def unat_sub not_less split: if_splits) (use unat_sub in fastforce)
  obtain ok where ok: "st_transferIsAllowed st = Some ok"
    using assms(2) by (cases "st_transferIsAllowed st") (simp_all add: st_preCheck_def)
  have "st' = st \<or> st' = ?st1 \<or> st' = st2 \<and> berr = None"
    using assms(2) ok r(1) n(1) b st2 by (auto simp: st_preCheck_def split: if_splits)
  note res = this
  show "sdb_runs (stState st) (stState st')" using res r(2) st2 by auto
  show "tx_inv ?m (stState st')" using res r(3) st(1) st2 by auto
  show "stMsg st' = stMsg st \<and> stValue st' = stValue st \<and> stGasPrice st' = stGasPrice st \<and> stData st' = stData st
     \<and> stMaxBitLength st' = stMaxBitLength st \<and> unat (stGp st') \<le> unat (stGp st)"
    using res st2 pool by auto
  show "sdb_view (stState st') ?f \<noteq> None" using res r(3) ex1 st(3) st2 by (auto simp: view_SubBalance)
  assume "err = None"
  then have "st' = st2" "berr = None" "nerr = None" "CanTransfer (stState st2) (st_from st2) (stValue st2)"
    using assms(2) ok r(1) n(1) b st2 by (auto simp: st_preCheck_def split: if_splits)
  with st2 n r st(3) show "preCheck_passed st st'"
    by (auto simp: preCheck_passed_def Let_def data_ops sdb_effects CanTransfer_def GetBalance_data st_from_def)
qed

lemma stState_updates: "stState (st\<lparr>stState := s\<rparr>) = s" by simp

lemma st_gasUsed_state [simp]: "st_gasUsed (st\<lparr>stState := s\<rparr>) = st_gasUsed st"
  by (simp add: st_gasUsed_def)

lemma refundGas_spec:
  assumes "sdb_wf (stState st)" "sdbRefund (stState st) = 0" "st_refundGas st = Some st'"
  shows "stState st' = StateDB_AddBalance (stState st) (st_from st) (GasFee (stGas st) (stGasPrice st))
    \<and> GasPool_AddGas (stGp st) (stGas st) = Some (stGp st') \<and> stGas st' = stGas st
    \<and> stInitialGas st' = stInitialGas st \<and> stGasPrice st' = stGasPrice st \<and> stMsg st' = stMsg st
    \<and> stMaxBitLength st' = stMaxBitLength st"
proof -
  have r: "(if st_gasUsed st div 2 > 0 then 0 else st_gasUsed st div 2) = 0"
    by (simp add: word_less_nat_alt unat_eq_zero)
  show ?thesis
    using assms(2,3) unfolding st_refundGas_def Let_def assms(2) r by (auto simp: st_from_def split: bind_splits)
qed

text \<open>What a successful plain transfer does.\<close>

definition transfer_done :: "StateTransition \<Rightarrow> address \<Rightarrow> u64 \<Rightarrow> StateTransition \<Rightarrow> bool" where
  "transfer_done st coinbase gasUsed st' \<longleftrightarrow>
     (\<exists>dest gp ns. msgTo (stMsg st) = Some dest
       \<and> (let f = st_from st; d = get_data (stState st); gas = msgGasLimit (stMsg st); p = stGasPrice st;
              n = unat (msgNonce (stMsg st))
          in GasFee gas p \<le> acBalance (d f) \<and> stValue st + GasFee gas p \<le> acBalance (d f)
            \<and> gasUsed = TxGas \<and> TxGas \<le> gas
            \<and> GasPool_SubGas (stGp st) gas = Some gp \<and> GasPool_AddGas gp (gas - TxGas) = Some (stGp st')
            \<and> get_data (stState st') =
                add_balance (add_balance (add_balance (add_balance (add_balance (set_nonces d f ns)
                  f (- GasFee gas p)) f (- stValue st)) dest (stValue st))
                  f (GasFee (gas - TxGas) p)) coinbase (GasFee TxGas p)
            \<and> \<not> nonce_spent (acTxNonceSet (d f)) n \<and> nonce_spent ns n
            \<and> (\<forall>k. nonce_spent (acTxNonceSet (d f)) k \<longrightarrow> nonce_spent ns k)))"

lemma IntrinsicGas_empty [simp]: "IntrinsicGas [] False = Inr TxGas"
  by (simp add: IntrinsicGas_def)

lemma set_nonces_add_balance [simp]:
  "set_nonces (add_balance d a n) a ns = add_balance (set_nonces d a ns) a n"
  "set_nonces (set_nonces d a ms) a ns = set_nonces d a ns"
  by (simp_all add: set_nonces_def add_balance_def fun_eq_iff)

lemma SimpleTransitionDb_spec:
  assumes st: "st_start st" "sdbRefund (stState st) = 0"
    and run: "st_SimpleTransitionDb st coinbase = Some (gasUsed, err, st')"
  shows "sdb_runs (stState st) (stState st')" "tx_inv (stMaxBitLength st) (stState st')"
    "err = None \<Longrightarrow> transfer_done st coinbase gasUsed st'"
    "err \<noteq> None \<Longrightarrow> unat (stGp st') \<le> unat (stGp st)"
    "err \<noteq> None \<Longrightarrow> st_preCheck st = Some (None, st1) \<Longrightarrow> msgTo (stMsg st) = None \<or> stGas st1 < TxGas"
proof -
  let ?m = "stMaxBitLength st" and ?f = "st_from st"
  let ?late = "\<forall>st1. st_preCheck st = Some (None, st1) \<longrightarrow> msgTo (stMsg st) = None \<or> stGas st1 < TxGas"
  obtain perr st1 where p: "st_preCheck st = Some (perr, st1)"
    using run by (cases "st_preCheck st") (auto simp: st_SimpleTransitionDb_def)
  note pre = preCheck_spec [OF st(1) p]
  have f1: "st_from st1 = ?f" using pre(3) by (simp add: st_from_def)
  have "sdb_runs (stState st) (stState st') \<and> tx_inv ?m (stState st') \<and> (err = None \<longrightarrow> transfer_done st coinbase gasUsed st')
    \<and> (err \<noteq> None \<longrightarrow> unat (stGp st') \<le> unat (stGp st) \<and> ?late)"
  proof (cases "perr \<noteq> None \<or> msgTo (stMsg st) = None \<or> stGas st1 < TxGas")
    case True
    then have "err \<noteq> None" "stState st' = stState st1" "stGp st' = stGp st1"
      using run p pre(3) by (auto simp: st_SimpleTransitionDb_def st_useGas_def split: option.splits if_splits)
    then show ?thesis using pre(1,2,3) True p by auto
  next
    case False
    then obtain dest where dest: "perr = None" "msgTo (stMsg st) = Some dest" "TxGas \<le> stGas st1" by auto
    obtain ns1 where c: "GasFee (msgGasLimit (stMsg st)) (stGasPrice st) \<le> acBalance (get_data (stState st) ?f)"
      "stValue st + GasFee (msgGasLimit (stMsg st)) (stGasPrice st) \<le> acBalance (get_data (stState st) ?f)"
      "GasPool_SubGas (stGp st) (msgGasLimit (stMsg st)) = Some (stGp st1)"
      "stGas st1 = msgGasLimit (stMsg st)" "stInitialGas st1 = msgGasLimit (stMsg st)"
      "get_data (stState st1) = add_balance (set_nonces (get_data (stState st)) ?f ns1) ?f
         (- GasFee (msgGasLimit (stMsg st)) (stGasPrice st))"
      "\<And>k. nonce_spent (tx_nonces (stState st) ?f) k \<Longrightarrow> nonce_spent ns1 k"
      "\<not> nonce_spent ns1 (unat (msgNonce (stMsg st)))"
      "unat (msgNonce (stMsg st)) < unat (nsStart ns1) + unat ?m"
      "sdbRefund (stState st1) = 0"
      using pre(4) [OF dest(1)] unfolding preCheck_passed_def Let_def st(2) by blast
    let ?st2 = "st1\<lparr>stGas := stGas st1 - TxGas\<rparr>"
    have f2: "st_from ?st2 = ?f" using f1 by (simp add: st_from_def)
    obtain ns where a: "st_addNonce ?st2 = (None, ?st2\<lparr>stState := StateDB_UpdateTxNonceSet (stState st1) ?f ns\<rparr>)"
      "\<And>n. nonce_spent ns n \<longleftrightarrow> nonce_spent ns1 n \<or> n = unat (msgNonce (stMsg st))"
      "tx_inv ?m (StateDB_UpdateTxNonceSet (stState st1) ?f ns)"
      using addNonce_spec [of ?st2] pre(2,3,5) c(6,8,9) by (auto simp: f2)
    let ?s3 = "StateDB_UpdateTxNonceSet (stState st1) ?f ns"
    let ?st3 = "?st2\<lparr>stState := Transfer ?s3 ?f dest (stValue st)\<rparr>"
    have f3: "st_from ?st3 = ?f" using f1 by (simp add: st_from_def)
    let ?fin = "\<lambda>st4. st4\<lparr>stState := StateDB_AddBalance (stState st4) coinbase
                 (GasFee (st_gasUsed st4) (stGasPrice st4))\<rparr>"
    have "st_useGas st1 TxGas = (None, ?st2)" using dest(3) by (simp add: st_useGas_def not_less)
    then have eq: "st_SimpleTransitionDb st coinbase
      = Option.bind (st_refundGas ?st3) (\<lambda>st4. Some (st_gasUsed st4, None, ?fin st4))"
      using p dest pre(3) f1 a(1) by (simp add: st_SimpleTransitionDb_def st_from_def Let_def)
    obtain st4 where r: "st_refundGas ?st3 = Some st4"
      and "Some (st_gasUsed st4, None, ?fin st4) = Some (gasUsed, err, st')"
      using run unfolding eq Option.bind_eq_Some_conv by blast
    then have st': "st' = ?fin st4" "gasUsed = st_gasUsed st4" "err = None"
      unfolding option.inject prod.inject by metis+
    have wf: "sdb_wf (stState st1)" "sdb_wf ?s3" using pre(2) by auto
    have d3: "get_data ?s3 = set_nonces (get_data (stState st1)) ?f ns"
      using wf(1) pre(5) by (rule data_ops)
    have "sdbRefund (stState ?st3) = 0"
      using wf c(10) by (simp add: Transfer_def sdb_effects)
    from refundGas_spec [OF _ this r] wf(2)
    have r4: "stState st4 = StateDB_AddBalance (Transfer ?s3 ?f dest (stValue st)) ?f
        (GasFee (stGas st1 - TxGas) (stGasPrice st))"
      "GasPool_AddGas (stGp st1) (stGas st1 - TxGas) = Some (stGp st4)" "stGas st4 = stGas st1 - TxGas"
      "stInitialGas st4 = stInitialGas st1" "stGasPrice st4 = stGasPrice st"
      using pre(3) f3 by (auto simp: Transfer_def)
    have used: "st_gasUsed st4 = TxGas" using r4(3,4) c(4,5) by (simp add: st_gasUsed_def)
    have "sdb_runs (stState st) (stState st')"
      using pre(1) unfolding st' Transfer_def stState_updates r4(1) by (intro sdb_runs_ops)
    moreover have "tx_inv ?m (stState st')" unfolding st' r4(1) Transfer_def using a(3) by auto
    moreover have "transfer_done st coinbase gasUsed st'"
      unfolding transfer_done_def Let_def
      by (intro exI [of _ dest] exI [of _ "stGp st1"] exI [of _ ns])
        (use dest c a(2) used r4 wf st' in \<open>auto simp: data_ops d3 Transfer_def\<close>)
    ultimately show ?thesis using st'(3) by simp
  qed
  then show "sdb_runs (stState st) (stState st')" "tx_inv ?m (stState st')"
    "err = None \<Longrightarrow> transfer_done st coinbase gasUsed st'" "err \<noteq> None \<Longrightarrow> unat (stGp st') \<le> unat (stGp st)"
    "err \<noteq> None \<Longrightarrow> st_preCheck st = Some (None, st1) \<Longrightarrow> msgTo (stMsg st) = None \<or> stGas st1 < TxGas" for st1
    by auto
qed

section \<open>Executing one transaction\<close>

text \<open>What holds of the executed state between two transactions.\<close>

definition exec_inv :: "exec_config \<Rightarrow> StateDB \<Rightarrow> bool" where
  "exec_inv c s \<longleftrightarrow> tx_inv (ecMaxBitLength c) s \<and> revisions_wf s \<and> journal_exact s \<and> sdbRefund s = 0
     \<and> prev_fits (ecMaxBitLength c) (ecPrevStateDb c)"

definition start_of :: "exec_config \<Rightarrow> exec_state \<Rightarrow> Message \<Rightarrow> StateTransition" where
  "start_of c x msg = NewStateTransition (ecPrevStateDb c) (exState x) msg (exGasPool x) (ecMaxBitLength c)"

lemma start_of_simps [simp]:
  "stState (start_of c x msg) = exState x" "stMsg (start_of c x msg) = msg" "stGp (start_of c x msg) = exGasPool x"
  "stGas (start_of c x msg) = 0" "stGasPrice (start_of c x msg) = msgGasPrice msg" "stValue (start_of c x msg) = msgAmount msg"
  "stMaxBitLength (start_of c x msg) = ecMaxBitLength c" "stPrevStateDb (start_of c x msg) = ecPrevStateDb c"
  "stData (start_of c x msg) = msgData msg" "st_from (start_of c x msg) = msgFrom msg"
  by (simp_all add: start_of_def NewStateTransition_def st_from_def)

lemma snapshot_inv:
  assumes "exec_inv c s"
  shows "tx_inv (ecMaxBitLength c) (snd (StateDB_Snapshot s))"
  using assms exec_wf_ops(8) [of s] by (simp add: exec_inv_def tx_inv_def sdb_effects)

lemma exec_inv_same:
  assumes "exec_inv c s" "sdb_wf t" "sdb_same t s" "revisions_wf t" "journal_exact t"
  shows "exec_inv c t"
  using assms sdb_same_data [OF assms(3)] by (simp add: exec_inv_def tx_inv_def)

lemma exec_inv_finalise: "tx_inv (ecMaxBitLength c) s \<Longrightarrow> prev_fits (ecMaxBitLength c) (ecPrevStateDb c) \<Longrightarrow>
   exec_inv c (StateDB_FinaliseOne s)"
  by (simp add: exec_inv_def tx_inv_def sdb_effects)

lemma AsMessage_check: "Transaction_AsMessage C sg tx = Inr msg \<Longrightarrow>
   msgCheckNonce msg \<and> msgNonce msg = txAccountNonce tx \<and> Signer_Sender C sg tx = Inr (msgFrom msg)"
  by (auto simp: Transaction_AsMessage_def split: sum.splits)

lemma start_of_ok:
  assumes "exec_inv c (exState x)" "Transaction_AsMessage C sg tx = Inr msg" "sdb_view (exState x) (msgFrom msg) \<noteq> None"
  shows "st_start (start_of c (x\<lparr>exState := snd (StateDB_Snapshot (exState x))\<rparr>) msg)"
  using assms snapshot_inv [OF assms(1)] AsMessage_check [OF assms(2)]
  by (simp add: st_start_def sdb_effects exec_inv_def)

text \<open>The two outcomes of \<^verbatim>\<open>ExecuteTransaction\<close>.\<close>

lemma SimpleExecute_cases:
  assumes inv: "exec_inv c (exState x)" and run: "SimpleExecutor_ExecuteTransaction c x tx = Some (err, x')"
  obtains (failed) e where "err = Some e" "sdb_same (exState x') (exState x)" "exec_inv c (exState x')"
      "exUsedGas x' = exUsedGas x" "unat (exGasPool x') \<le> unat (exGasPool x)"
  | (executed) msg st' where "err = None" "Transaction_AsMessage (ecCrypto c) (ecSigner c) tx = Inr msg"
      "transfer_done (start_of c x msg) (ecCoinbase c) TxGas st'" "tx_inv (ecMaxBitLength c) (stState st')"
      "x' = \<lparr>exState = StateDB_FinaliseOne (stState st'), exGasPool = stGp st', exUsedGas = exUsedGas x + TxGas\<rparr>"
      "exec_inv c (exState x')"
proof -
  let ?s0 = "snd (StateDB_Snapshot (exState x))" and ?i = "fst (StateDB_Snapshot (exState x))"
  let ?x0 = "x\<lparr>exState := ?s0\<rparr>" and ?m = "ecMaxBitLength c"
  have wf: "sdb_wf (exState x)" "revisions_wf (exState x)" "journal_exact (exState x)"
    using inv by (auto simp: exec_inv_def)
  obtain aerr x1 where a: "SimpleExecutor_ApplyTransaction c ?x0 tx = Some (aerr, x1)"
    using run by (cases "SimpleExecutor_ApplyTransaction c ?x0 tx")
      (auto simp: SimpleExecutor_ExecuteTransaction_def case_prod_beta)
  have reverted: thesis if f: "aerr = Some e" "sdb_runs ?s0 (exState x1)" "exUsedGas x1 = exUsedGas x"
    "unat (exGasPool x1) \<le> unat (exGasPool x)" for e
  proof -
    obtain t where t: "StateDB_RevertToSnapshot (exState x1) ?i = Some t" "sdb_wf t" "sdb_same t (exState x)"
      "revisions_wf t" "journal_exact t"
      by (rule revert_runs [OF wf f(2)])
    have "err = Some e" "x' = x1\<lparr>exState := t\<rparr>"
      using run a f(1) t(1) by (auto simp: SimpleExecutor_ExecuteTransaction_def case_prod_beta)
    then show thesis using t exec_inv_same [OF inv t(2-5)] f by (intro failed [of e]) auto
  qed
  show thesis
  proof (cases "Transaction_AsMessage (ecCrypto c) (ecSigner c) tx")
    case (Inl e)
    with a show ?thesis by (intro reverted [of "ErrSig e"]) (auto simp: SimpleExecutor_ApplyTransaction_def)
  next
    case (Inr msg)
    show ?thesis
    proof (cases "sdb_view (exState x) (msgFrom msg) = None")
      case True
      with a Inr show ?thesis
        by (intro reverted [of ErrNonceSetNotFound])
          (auto simp: SimpleExecutor_ApplyTransaction_def SimpleApplyMessage_def TxNonceSet_data sdb_effects)
    next
      case False
      note start = start_of_ok [OF inv Inr False]
      have ns: "StateDB_TxNonceSet ?s0 (msgFrom msg) \<noteq> None"
        using False by (simp add: TxNonceSet_data sdb_effects)
      obtain g serr st' where s: "st_SimpleTransitionDb (start_of c ?x0 msg) (ecCoinbase c) = Some (g, serr, st')"
        using a Inr ns by (cases "st_SimpleTransitionDb (start_of c ?x0 msg) (ecCoinbase c)")
          (auto simp: SimpleExecutor_ApplyTransaction_def SimpleApplyMessage_def start_of_def)
      have x1: "aerr = serr" "x1 = x\<lparr>exState := stState st', exGasPool := stGp st',
          exUsedGas := exUsedGas x + (if serr = None then g else 0)\<rparr>"
        using a Inr ns s by (auto simp: SimpleExecutor_ApplyTransaction_def SimpleApplyMessage_def start_of_def
            split: if_splits)
      have "sdbRefund (stState (start_of c ?x0 msg)) = 0" using inv by (simp add: exec_inv_def sdb_effects)
      note sp = SimpleTransitionDb_spec [OF start this s]
      show ?thesis
      proof (cases serr)
        case (Some e)
        with sp x1 show ?thesis by (intro reverted [of e]) auto
      next
        case None
        have d: "transfer_done (start_of c x msg) (ecCoinbase c) g st'"
          using sp(3) [OF None] by (simp add: transfer_done_def sdb_effects)
        then have "g = TxGas" by (auto simp: transfer_done_def Let_def)
        moreover have "x' = x1\<lparr>exState := StateDB_FinaliseOne (exState x1)\<rparr>" "err = None"
          using run a x1(1) None by (auto simp: SimpleExecutor_ExecuteTransaction_def case_prod_beta)
        ultimately show ?thesis
          using d Inr sp(2) x1 None inv exec_inv_finalise [of c "stState st'"]
          by (intro executed [of msg st']) (auto simp: exec_inv_def)
      qed
    qed
  qed
qed

end
