(* ===== verification/Tx_Props.thy ===== *)
theory Tx_Props
  imports Tx_Safety
begin

text \<open>
  The guarantees of the executors as theorems about their entry points: failed transactions, value
  transfer, the gas of a block, replays, and the packages of a block.
\<close>

section \<open>Failed transactions of the WASM executor\<close>

lemma callWasm_error: "st_callWasm W st = Some (Some e, st') \<Longrightarrow> e = ErrWasmExec"
  by (auto simp: st_callWasm_def Let_def split: if_splits option.splits)

lemma createWasmAccount_runs:
  assumes "st_createWasmAccount A st = (Some e, st')"
  shows "sdb_runs (stState st) (stState st') \<and> stGp st' = stGp st"
  using assms unfolding st_createWasmAccount_def Let_def Transfer_def
  by (auto simp: st_useGas_def split: if_splits intro!: sdb_runs_ops)

lemma WasmTransitionDb_failed:
  assumes st: "st_start st" and run: "st_WasmTransitionDb W A st coinbase = Some (g, False, Some e, st')"
  shows "sdb_runs (stState st) (stState st')" "unat (stGp st') \<le> unat (stGp st)"
proof -
  let ?m = "stMaxBitLength st" and ?f = "st_from st" and ?deploy = "msgTo (stMsg st) = None"
  obtain perr st1 where p: "st_preCheck st = Some (perr, st1)"
    using run by (cases "st_preCheck st") (auto simp: st_WasmTransitionDb_def)
  note pre = preCheck_spec [OF st p]
  have f1: "st_from st1 = ?f" using pre(3) by (simp add: st_from_def)
  have "sdb_runs (stState st) (stState st') \<and> unat (stGp st') \<le> unat (stGp st)"
  proof (cases "stState st' = stState st1 \<and> stGp st' = stGp st1")
    case True
    then show ?thesis using pre(1,3) by simp
  next
    case False
    with run p have ok: "perr = None" by (cases perr) (auto simp: st_WasmTransitionDb_def)
    obtain gas where gas: "IntrinsicGas (stData st1) ?deploy = Inr gas" "gas \<le> stGas st1"
      using run p False pre(3) ok
      by (cases "IntrinsicGas (stData st1) ?deploy") (auto simp: st_WasmTransitionDb_def st_useGas_def Let_def not_less split: if_splits)
    let ?st2 = "st1\<lparr>stGas := stGas st1 - gas\<rparr>"
    have f2: "st_from ?st2 = ?f" using f1 by (simp add: st_from_def)
    obtain ns1 where c: "get_data (stState st1) = add_balance (set_nonces (get_data (stState st)) ?f ns1) ?f
         (- GasFee (msgGasLimit (stMsg st)) (stGasPrice st))"
      "\<not> nonce_spent ns1 (unat (msgNonce (stMsg st)))"
      "unat (msgNonce (stMsg st)) < unat (nsStart ns1) + unat ?m"
      using pre(4) [OF ok] unfolding preCheck_passed_def Let_def by blast
    obtain ns where a: "st_addNonce ?st2 = (None, ?st2\<lparr>stState := StateDB_UpdateTxNonceSet (stState st1) ?f ns\<rparr>)"
      using addNonce_spec [of ?st2] pre(2,3,5) c by (auto simp: f2)
    let ?st3 = "?st2\<lparr>stState := StateDB_UpdateTxNonceSet (stState st1) ?f ns\<rparr>"
    have u: "st_useGas st1 gas = (None, ?st2)" using gas(2) by (simp add: st_useGas_def not_less)
    have deploy: ?deploy "st_createWasmAccount A ?st3 = (Some e, st')"
      using run p ok gas(1) u a pre(3) callWasm_error
      by (auto simp: st_WasmTransitionDb_def Let_def split: if_splits bind_splits prod.splits)
    have "sdb_runs (stState st) (stState ?st3)" using pre(1) unfolding stState_updates by (intro sdb_runs_ops)
    moreover have "sdb_runs (stState ?st3) (stState st')" "stGp st' = stGp st1"
      using createWasmAccount_runs [OF deploy(2)] by simp_all
    ultimately show ?thesis using pre(3) sdb_runs_trans by simp
  qed
  then show "sdb_runs (stState st) (stState st')" "unat (stGp st') \<le> unat (stGp st)" by auto
qed

lemma WasmExecute_failed:
  assumes inv: "exec_inv c (exState x)" and run: "WasmExecutor_ExecuteTransaction W A c x tx = Some (r, Some e, x')"
  shows "r = None \<and> sdb_same (exState x') (exState x) \<and> exec_inv c (exState x') \<and> exUsedGas x' = exUsedGas x"
proof -
  let ?s0 = "snd (StateDB_Snapshot (exState x))" and ?i = "fst (StateDB_Snapshot (exState x))"
  let ?x0 = "x\<lparr>exState := ?s0\<rparr>"
  have wf: "sdb_wf (exState x)" "revisions_wf (exState x)" "journal_exact (exState x)"
    using inv by (auto simp: exec_inv_def)
  obtain r1 aerr x1 where a: "WasmExecutor_ApplyTransaction W A c ?x0 tx = Some (r1, aerr, x1)"
    using run by (cases "WasmExecutor_ApplyTransaction W A c ?x0 tx")
      (auto simp: WasmExecutor_ExecuteTransaction_def case_prod_beta)
  have aerr: "aerr = Some e"
    using run a by (auto simp: WasmExecutor_ExecuteTransaction_def case_prod_beta split: if_splits bind_splits)
  have "sdb_runs ?s0 (exState x1) \<and> exUsedGas x1 = exUsedGas x"
  proof (cases "Transaction_AsMessage (ecCrypto c) (ecSigner c) tx")
    case (Inl e)
    with a show ?thesis by (auto simp: WasmExecutor_ApplyTransaction_def)
  next
    case (Inr msg)
    show ?thesis
    proof (cases "sdb_view (exState x) (msgFrom msg) = None")
      case True
      with a Inr show ?thesis
        by (auto simp: WasmExecutor_ApplyTransaction_def WasmApplyMessage_def TxNonceSet_data sdb_effects)
    next
      case False
      note start = start_of_ok [OF inv Inr False]
      have ns: "StateDB_TxNonceSet ?s0 (msgFrom msg) \<noteq> None"
        using False by (simp add: TxNonceSet_data sdb_effects)
      obtain g failed serr st' where
        s: "st_WasmTransitionDb W A (start_of c ?x0 msg) (ecCoinbase c) = Some (g, failed, serr, st')"
        using a Inr ns by (cases "st_WasmTransitionDb W A (start_of c ?x0 msg) (ecCoinbase c)")
          (auto simp: WasmExecutor_ApplyTransaction_def WasmApplyMessage_def start_of_def)
      have x1: "serr = Some e" "\<not> failed" "x1 = x\<lparr>exState := stState st', exGasPool := stGp st'\<rparr>"
        using a aerr Inr ns s
        by (auto simp: WasmExecutor_ApplyTransaction_def WasmApplyMessage_def start_of_def Let_def
            split: if_splits bind_splits)
      from s x1 have "st_WasmTransitionDb W A (start_of c ?x0 msg) (ecCoinbase c) = Some (g, False, Some e, st')"
        by simp
      from WasmTransitionDb_failed [OF start this] x1 show ?thesis by simp
    qed
  qed
  then obtain t where t: "StateDB_RevertToSnapshot (exState x1) ?i = Some t" "sdb_wf t" "sdb_same t (exState x)"
      "revisions_wf t" "journal_exact t" "exUsedGas x1 = exUsedGas x"
    using revert_runs [OF wf] by metis
  have "r = None" "x' = x1\<lparr>exState := t\<rparr>"
    using run a aerr t(1) by (auto simp: WasmExecutor_ExecuteTransaction_def case_prod_beta)
  then show ?thesis using t exec_inv_same [OF inv t(2-5)] by simp
qed

section \<open>The gas pool\<close>

lemma GasPool_SubGas_iff: "GasPool_SubGas gp a = Some gp' \<longleftrightarrow> unat a \<le> unat gp \<and> gp' = gp - a"
  by (auto simp: GasPool_SubGas_def word_less_nat_alt)

lemma GasPool_AddGas_iff: "GasPool_AddGas gp a = Some gp' \<longleftrightarrow> unat gp + unat a < 2 ^ 64 \<and> gp' = gp + a"
proof -
  have m: "unat (- 1 :: u64) = 2 ^ 64 - 1" by (simp add: unsigned_minus_1_eq_mask mask_eq_exp_minus_1)
  have "unat (- 1 - a :: u64) = 2 ^ 64 - 1 - unat a"
    using unat_sub [of a "- 1"] by (simp add: m)
  moreover have "unat a < 2 ^ 64" using unsigned_less [of a, where ?'a = nat] by simp
  ultimately have "(unat (- 1 - a) < unat gp) = (\<not> unat gp + unat a < 2 ^ 64)" by linarith
  then show ?thesis by (simp add: GasPool_AddGas_def word_less_nat_alt eq_commute)
qed

text \<open>Buying gas and returning all but \<open>u\<close> of it takes \<open>u\<close> from the pool and cannot panic.\<close>

lemma GasPool_buy_return:
  assumes "GasPool_SubGas gp gas = Some gp1" "unat u \<le> unat gas"
  shows "GasPool_AddGas gp1 (gas - u) = Some (gp - u) \<and> unat (gp - u) = unat gp - unat u \<and> unat u \<le> unat gp"
proof -
  have g: "unat gas \<le> unat gp" "gp1 = gp - gas" using assms(1) by (simp_all add: GasPool_SubGas_iff)
  have s: "unat (gp - gas) = unat gp - unat gas" "unat (gas - u) = unat gas - unat u" "unat (gp - u) = unat gp - unat u"
    using g(1) assms(2) by (simp_all add: unat_sub word_le_nat_alt)
  have "unat gp - unat u < 2 ^ LENGTH(64)" by (rule less_imp_diff_less [OF unsigned_less])
  with g s assms(2) show ?thesis by (simp add: GasPool_AddGas_iff)
qed

section \<open>No panic\<close>

lemma preCheck_total:
  assumes st: "st_start st" and allowed: "msgTo (stMsg st) \<noteq> None \<or> stPrevStateDb st = None"
  obtains err st' where "st_preCheck st = Some (err, st')"
proof -
  let ?m = "stMaxBitLength st" and ?f = "st_from st"
  have s: "tx_inv ?m (stState st)" "prev_fits ?m (stPrevStateDb st)" "sdb_view (stState st) ?f \<noteq> None"
    "msgCheckNonce (stMsg st)"
    using st by (simp_all add: st_start_def)
  obtain rerr s1 where r: "st_resetNonce st = Some (rerr, st\<lparr>stState := s1\<rparr>)" "tx_inv ?m s1"
    "\<And>a. sdb_view s1 a = None \<longleftrightarrow> sdb_view (stState st) a = None"
    by (rule resetNonce_spec [OF s(1,3,2)]) blast
  have "sdb_view s1 ?f \<noteq> None" using r(3) [of ?f] s(3) by simp
  then obtain nerr where n: "st_checkNonce (st\<lparr>stState := s1\<rparr>) = Some nerr"
    using checkNonce_spec [of "st\<lparr>stState := s1\<rparr>"] r(2) s(4) by (auto simp: st_from_def)
  have "st_transferIsAllowed st \<noteq> None"
    using allowed by (auto simp: st_transferIsAllowed_def split: option.splits)
  then obtain ok where "st_transferIsAllowed st = Some ok" by blast
  then have "st_preCheck st \<noteq> None"
    using r(1) n by (simp add: st_preCheck_def case_prod_beta Let_def)
  with that show ?thesis by auto
qed

lemma refundGas_total:
  assumes "sdbRefund (stState st) = 0" "GasPool_AddGas (stGp st) (stGas st) = Some gp"
  shows "st_refundGas st \<noteq> None"
proof -
  have r: "(if st_gasUsed st div 2 > 0 then 0 else st_gasUsed st div 2) = 0"
    by (simp add: word_less_nat_alt unat_eq_zero)
  show ?thesis unfolding st_refundGas_def Let_def assms(1) r using assms(2) by simp
qed

lemma SimpleTransitionDb_total:
  assumes st: "st_start st" "sdbRefund (stState st) = 0" and allowed: "msgTo (stMsg st) \<noteq> None \<or> stPrevStateDb st = None"
  shows "st_SimpleTransitionDb st coinbase \<noteq> None"
proof -
  let ?f = "st_from st" and ?m = "stMaxBitLength st"
  obtain perr st1 where p: "st_preCheck st = Some (perr, st1)" by (rule preCheck_total [OF st(1) allowed])
  note pre = preCheck_spec [OF st(1) p]
  show ?thesis
  proof (cases "perr \<noteq> None \<or> msgTo (stMsg st) = None \<or> stGas st1 < TxGas")
    case True
    then show ?thesis
      using p pre(3) by (auto simp: st_SimpleTransitionDb_def st_useGas_def split: option.splits)
  next
    case False
    then obtain dest where dest: "perr = None" "msgTo (stMsg st) = Some dest" "TxGas \<le> stGas st1" by auto
    let ?st2 = "st1\<lparr>stGas := stGas st1 - TxGas\<rparr>"
    have f2: "st_from ?st2 = ?f" using pre(3) by (simp add: st_from_def)
    obtain ns1 where c: "GasPool_SubGas (stGp st) (msgGasLimit (stMsg st)) = Some (stGp st1)"
      "stGas st1 = msgGasLimit (stMsg st)"
      "get_data (stState st1) = add_balance (set_nonces (get_data (stState st)) ?f ns1) ?f
         (- GasFee (msgGasLimit (stMsg st)) (stGasPrice st))"
      "\<not> nonce_spent ns1 (unat (msgNonce (stMsg st)))"
      "unat (msgNonce (stMsg st)) < unat (nsStart ns1) + unat ?m" "sdbRefund (stState st1) = 0"
      using pre(4) [OF dest(1)] unfolding preCheck_passed_def Let_def st(2) by blast
    obtain ns where a: "st_addNonce ?st2 = (None, ?st2\<lparr>stState := StateDB_UpdateTxNonceSet (stState st1) ?f ns\<rparr>)"
      using addNonce_spec [of ?st2] pre(2,3,5) c(3-5) by (auto simp: f2)
    have wf: "sdb_wf (stState st1)" using pre(2) by auto
    have pool: "GasPool_AddGas (stGp st1) (stGas st1 - TxGas) = Some (stGp st - TxGas)"
      using GasPool_buy_return [OF c(1), of TxGas] dest(3) c(2) by (simp add: word_le_nat_alt)
    let ?st3 = "?st2\<lparr>stState := Transfer (StateDB_UpdateTxNonceSet (stState st1) ?f ns) ?f dest (stValue st)\<rparr>"
    have "st_refundGas ?st3 \<noteq> None"
      by (rule refundGas_total) (use pool wf c(6) in \<open>simp_all add: Transfer_def sdb_effects\<close>)
    then obtain st4 where "st_refundGas ?st3 = Some st4" by blast
    moreover have "st_useGas st1 TxGas = (None, ?st2)" using dest(3) by (simp add: st_useGas_def not_less)
    moreover have "st_from st1 = ?f" using pre(3) by (simp add: st_from_def)
    ultimately show ?thesis
      using p dest pre(3) a by (simp add: st_SimpleTransitionDb_def st_from_def Let_def)
  qed
qed

lemma SimpleExecute_total:
  assumes inv: "exec_inv c (exState x)" and allowed: "txRecipient tx \<noteq> None \<or> ecPrevStateDb c = None"
  shows "SimpleExecutor_ExecuteTransaction c x tx \<noteq> None"
proof -
  let ?s0 = "snd (StateDB_Snapshot (exState x))"
  let ?x0 = "x\<lparr>exState := ?s0\<rparr>"
  have wf: "sdb_wf (exState x)" "revisions_wf (exState x)" "journal_exact (exState x)"
    using inv by (auto simp: exec_inv_def)
  have "\<exists>aerr x1. SimpleExecutor_ApplyTransaction c ?x0 tx = Some (aerr, x1) \<and> sdb_runs ?s0 (exState x1)"
  proof (cases "Transaction_AsMessage (ecCrypto c) (ecSigner c) tx")
    case (Inr msg)
    have to: "msgTo msg = txRecipient tx" using Inr by (auto simp: Transaction_AsMessage_def split: sum.splits)
    show ?thesis
    proof (cases "sdb_view (exState x) (msgFrom msg) = None")
      case False
      note start = start_of_ok [OF inv Inr False]
      have ns: "StateDB_TxNonceSet ?s0 (msgFrom msg) \<noteq> None" and r0: "sdbRefund (stState (start_of c ?x0 msg)) = 0"
        using False inv by (simp_all add: TxNonceSet_data sdb_effects exec_inv_def)
      obtain g serr st' where s: "st_SimpleTransitionDb (start_of c ?x0 msg) (ecCoinbase c) = Some (g, serr, st')"
        using SimpleTransitionDb_total [OF start r0, of "ecCoinbase c"] allowed to by auto
      have "sdb_runs ?s0 (stState st')" using SimpleTransitionDb_spec(1) [OF start r0 s] by simp
      with s show ?thesis
        using Inr ns by (auto simp: SimpleExecutor_ApplyTransaction_def SimpleApplyMessage_def start_of_def)
    qed (use Inr in \<open>auto simp: SimpleExecutor_ApplyTransaction_def SimpleApplyMessage_def TxNonceSet_data sdb_effects\<close>)
  qed (auto simp: SimpleExecutor_ApplyTransaction_def)
  then obtain aerr x1 where a: "SimpleExecutor_ApplyTransaction c ?x0 tx = Some (aerr, x1)" "sdb_runs ?s0 (exState x1)"
    by blast
  obtain t where "StateDB_RevertToSnapshot (exState x1) (fst (StateDB_Snapshot (exState x))) = Some t"
    by (rule revert_runs [OF wf a(2)])
  with a(1) show ?thesis by (auto simp: SimpleExecutor_ExecuteTransaction_def case_prod_beta)
qed

end
