(* ===== verification/Tx_Runs.thy ===== *)
theory Tx_Runs
  imports Tx_Props
begin

text \<open>
  Runs of the executors: when a transfer succeeds, what a sequence of transactions keeps, and the
  properties of the entry points.
\<close>

section \<open>Examples\<close>

definition sample_crypto :: Crypto where
  "sample_crypto = \<lparr>cSigHash = (\<lambda>_ _. 0), cTxHash = (\<lambda>tx. ucast (txAccountNonce tx)), cPackingHash = (\<lambda>_ _. 0),
     cEcrecover = (\<lambda>_ _. None), cKeccak = (\<lambda>_. 0)\<rparr>"

definition sample_config :: exec_config where
  "sample_config = \<lparr>ecCrypto = sample_crypto, ecSigner = FakeSigner, ecMaxBitLength = 1024, ecCoinbase = 9,
     ecPrevStateDb = None\<rparr>"

definition sample_exec :: "int \<Rightarrow> exec_state" where
  "sample_exec balance = \<lparr>exState = StateDB_FinaliseOne (StateDB_AddBalance empty_state 7 balance),
     exGasPool = 20000000000, exUsedGas = 0\<rparr>"

definition sample_transfer :: Transaction where
  "sample_transfer = (NewTransaction 3 8 (Some 100) 2000000 (Some 1) [] True)\<lparr>txR := 7 * 2 ^ 96\<rparr>"

lemma zero_nonces [simp]: "NonceSet_wf NonceSet_zero" "window_fits NonceSet_zero 1024"
  "acTxNonceSet (Account_zero db) = NonceSet_zero"
  by (simp_all add: NonceSet_wf_def window_fits_def NonceSet_zero_def Account_zero_def)

lemma empty_state_data [simp]: "get_data empty_state a = Account_zero empty_db" "sdb_view empty_state a = None"
  by (simp_all add: get_data_def get_view_def zero_view_def sdb_view_def empty_state_def StateDB_New_def empty_db_def
     StateDB_getStateObject_def)

lemma sample_exec_inv: "exec_inv sample_config (exState (sample_exec n))"
  unfolding sample_exec_def exec_state.simps
  by (rule exec_inv_finalise) (use empty_state_wf in \<open>simp_all add: sample_config_def prev_fits_def tx_inv_def data_ops\<close>)

lemma sample_sender: "Transaction_AsMessage sample_crypto FakeSigner sample_transfer = Inr
   \<lparr>msgFrom = 7, msgTo = Some 8, msgNonce = 3, msgAmount = 100, msgGasLimit = 2000000, msgGasPrice = 1,
    msgData = [], msgCheckNonce = True\<rparr>"
proof -
  have "(be_word (take 20 (int_bytes32 (7 * 2 ^ 96))) :: address) = 7" by code_simp
  then show ?thesis
    by (simp add: Transaction_AsMessage_def Signer_Sender_def sample_transfer_def NewTransaction_def newTransaction_def)
qed

section \<open>When a transfer succeeds\<close>

lemma preCheck_passes:
  assumes st: "st_start st" "stPrevStateDb st = None"
    and nonce: "\<not> nonce_spent (tx_nonces (stState st) (st_from st)) (unat (msgNonce (stMsg st)))"
      "unat (msgNonce (stMsg st)) < unat (nsStart (tx_nonces (stState st) (st_from st))) + unat (stMaxBitLength st)"
    and money: "stValue st + GasFee (msgGasLimit (stMsg st)) (stGasPrice st) \<le> acBalance (get_data (stState st) (st_from st))"
      "0 \<le> stValue st"
    and pool: "unat (msgGasLimit (stMsg st)) \<le> unat (stGp st)"
  shows "\<exists>st'. st_preCheck st = Some (None, st') \<and> stGas st' = msgGasLimit (stMsg st) \<and> stMsg st' = stMsg st"
proof -
  have s: "tx_inv (stMaxBitLength st) (stState st)" "sdb_view (stState st) (st_from st) \<noteq> None" "msgCheckNonce (stMsg st)"
    "stGas st = 0" using st by (simp_all add: st_start_def)
  have n: "st_checkNonce st = Some None" using checkNonce_spec [OF s(1-3)] nonce by metis
  have wf: "sdb_wf (stState st)" using s(1) by simp
  have "GasPool_SubGas (stGp st) (msgGasLimit (stMsg st)) = Some (stGp st - msgGasLimit (stMsg st))"
    using pool by (simp add: GasPool_SubGas_iff)
  then show ?thesis
    using st(2) n wf money s(4)
    by (simp add: st_preCheck_def st_transferIsAllowed_def st_resetNonce_def st_buyGas_def GetBalance_data
        CanTransfer_def data_ops st_from_def Let_def)
qed

lemma SimpleExecute_succeeds:
  assumes inv: "exec_inv c (exState x)" and msg: "Transaction_AsMessage (ecCrypto c) (ecSigner c) tx = Inr msg"
    and prev: "ecPrevStateDb c = None" and acc: "sdb_view (exState x) (msgFrom msg) \<noteq> None" and dest: "msgTo msg \<noteq> None"
    and nonce: "\<not> nonce_spent (tx_nonces (exState x) (msgFrom msg)) (unat (msgNonce msg))"
      "unat (msgNonce msg) < unat (nsStart (tx_nonces (exState x) (msgFrom msg))) + unat (ecMaxBitLength c)"
    and money: "msgAmount msg + GasFee (msgGasLimit msg) (msgGasPrice msg) \<le> acBalance (get_data (exState x) (msgFrom msg))"
      "0 \<le> msgAmount msg"
    and gas: "TxGas \<le> msgGasLimit msg" "msgGasLimit msg \<le> exGasPool x"
  shows "\<exists>x'. SimpleExecutor_ExecuteTransaction c x tx = Some (None, x')"
proof -
  let ?s0 = "snd (StateDB_Snapshot (exState x))"
  let ?x0 = "x\<lparr>exState := ?s0\<rparr>"
  let ?st = "start_of c ?x0 msg"
  note start = start_of_ok [OF inv msg acc]
  obtain st1 where p: "st_preCheck ?st = Some (None, st1)" "stGas st1 = msgGasLimit msg" "stMsg st1 = msg"
    using preCheck_passes [OF start] prev nonce money gas(2) by (auto simp: sdb_effects word_le_nat_alt)
  have r0: "sdbRefund (stState ?st) = 0" using inv by (simp add: exec_inv_def sdb_effects)
  obtain g serr st' where s: "st_SimpleTransitionDb ?st (ecCoinbase c) = Some (g, serr, st')"
    using SimpleTransitionDb_total [OF start r0, of "ecCoinbase c"] dest by auto
  have "serr = None"
    using SimpleTransitionDb_spec(5) [OF start r0 s _ p(1)] dest gas(1) p(2)
    by (cases serr) (auto simp: not_less [symmetric])
  moreover have "StateDB_TxNonceSet ?s0 (msgFrom msg) \<noteq> None"
    using acc by (simp add: TxNonceSet_data sdb_effects)
  ultimately show ?thesis
    using s msg by (auto simp: SimpleExecutor_ExecuteTransaction_def case_prod_beta SimpleExecutor_ApplyTransaction_def
        SimpleApplyMessage_def start_of_def)
qed

lemma sample_facts:
  "sdb_view (exState (sample_exec n)) 7 \<noteq> None" "acBalance (get_data (exState (sample_exec n)) 7) = n"
  "tx_nonces (exState (sample_exec n)) 7 = NonceSet_zero"
  using empty_state_wf by (simp_all add: sample_exec_def sdb_effects view_AddBalance Account_zero_def)

lemma sample_run:
  obtains x' where "SimpleExecutor_ExecuteTransaction sample_config (sample_exec 1000000) sample_transfer = Some (None, x')"
proof -
  have f: "GasFee 2000000 1 = 200000" by code_simp
  have g: "TxGas \<le> 2000000" by (simp add: TxGas_def)
  have msg: "Transaction_AsMessage (ecCrypto sample_config) (ecSigner sample_config) sample_transfer = Inr
     \<lparr>msgFrom = 7, msgTo = Some 8, msgNonce = 3, msgAmount = 100, msgGasLimit = 2000000, msgGasPrice = 1,
      msgData = [], msgCheckNonce = True\<rparr>"
    using sample_sender by (simp add: sample_config_def)
  have "\<not> nonce_spent NonceSet_zero 3" "unat (nsStart NonceSet_zero) = 0" "ecMaxBitLength sample_config = 1024"
    "ecPrevStateDb sample_config = None" "exGasPool (sample_exec n) = 20000000000" for n
    by (simp_all add: nonce_spent_def NonceSet_zero_def used_def sample_config_def sample_exec_def)
  with that SimpleExecute_succeeds [OF sample_exec_inv msg, of 1000000] f g sample_facts show ?thesis by auto
qed

section \<open>Runs of transactions\<close>

text \<open>The sender and nonce a transaction claims.\<close>

definition tx_key :: "exec_config \<Rightarrow> Transaction \<Rightarrow> (sig_error + address) \<times> u64" where
  "tx_key c tx = (Signer_Sender (ecCrypto c) (ecSigner c) tx, txAccountNonce tx)"

definition tx_spent :: "exec_config \<Rightarrow> StateDB \<Rightarrow> Transaction \<Rightarrow> bool" where
  "tx_spent c s tx \<longleftrightarrow> (case Signer_Sender (ecCrypto c) (ecSigner c) tx of
      Inl _ \<Rightarrow> False | Inr f \<Rightarrow> nonce_spent (tx_nonces s f) (unat (txAccountNonce tx)))"

lemma tx_spent_key: "tx_key c tx = tx_key c ty \<Longrightarrow> tx_spent c s tx = tx_spent c s ty"
  by (simp add: tx_key_def tx_spent_def split: sum.split)

lemma transfer_done_nonces:
  assumes "transfer_done st coinbase g st'"
  shows "\<not> nonce_spent (tx_nonces (stState st) (st_from st)) (unat (msgNonce (stMsg st)))"
    "nonce_spent (tx_nonces (stState st') (st_from st)) (unat (msgNonce (stMsg st)))"
    "nonce_spent (tx_nonces (stState st) a) n \<Longrightarrow> nonce_spent (tx_nonces (stState st') a) n"
  using assms by (auto simp: transfer_done_def Let_def)

lemma SimpleExecute_spent:
  assumes inv: "exec_inv c (exState x)" and run: "SimpleExecutor_ExecuteTransaction c x tx = Some (err, x')"
  shows "tx_spent c (exState x) ty \<Longrightarrow> tx_spent c (exState x') ty"
    and "err = None \<Longrightarrow> \<not> tx_spent c (exState x) tx \<and> tx_spent c (exState x') tx"
proof -
  have "(tx_spent c (exState x) ty \<longrightarrow> tx_spent c (exState x') ty)
    \<and> (err = None \<longrightarrow> \<not> tx_spent c (exState x) tx \<and> tx_spent c (exState x') tx)"
    using inv run
  proof (cases rule: SimpleExecute_cases)
    case (failed e)
    then show ?thesis using sdb_same_data [OF failed(2)] by (simp add: tx_spent_def split: sum.split)
  next
    case (executed msg st')
    note n = transfer_done_nonces [OF executed(3), unfolded start_of_simps]
    show ?thesis
      using executed(5) n AsMessage_check [OF executed(2)]
      by (auto simp: tx_spent_def sdb_effects split: sum.splits)
  qed
  then show "tx_spent c (exState x) ty \<Longrightarrow> tx_spent c (exState x') ty"
    "err = None \<Longrightarrow> \<not> tx_spent c (exState x) tx \<and> tx_spent c (exState x') tx" by auto
qed

lemma SimpleExecute_gas:
  assumes inv: "exec_inv c (exState x)" and run: "SimpleExecutor_ExecuteTransaction c x tx = Some (err, x')"
  shows "unat (exGasPool x') + (if err = None then unat TxGas else 0) \<le> unat (exGasPool x)"
    and "exUsedGas x' = exUsedGas x + (if err = None then TxGas else 0)"
    and "exec_inv c (exState x')"
proof -
  have "unat (exGasPool x') + (if err = None then unat TxGas else 0) \<le> unat (exGasPool x)
    \<and> exUsedGas x' = exUsedGas x + (if err = None then TxGas else 0) \<and> exec_inv c (exState x')"
    using inv run
  proof (cases rule: SimpleExecute_cases)
    case (executed msg st')
    obtain gp where "GasPool_SubGas (exGasPool x) (msgGasLimit msg) = Some gp" "TxGas \<le> msgGasLimit msg"
      "GasPool_AddGas gp (msgGasLimit msg - TxGas) = Some (stGp st')"
      using executed(3) unfolding transfer_done_def Let_def start_of_simps by blast
    with GasPool_buy_return [of "exGasPool x" "msgGasLimit msg" gp TxGas]
    have "unat (stGp st') + unat TxGas = unat (exGasPool x)" by (auto simp: word_le_nat_alt)
    with executed show ?thesis by simp
  qed auto
  then show "unat (exGasPool x') + (if err = None then unat TxGas else 0) \<le> unat (exGasPool x)"
    "exUsedGas x' = exUsedGas x + (if err = None then TxGas else 0)" "exec_inv c (exState x')" by auto
qed

text \<open>What the loop over transactions keeps, with the transactions executed before it as accumulator.\<close>

lemma txLoop_spec:
  assumes "exec_inv c (exState x)" "SimpleExecutor_txLoop c pix i txs x acc = Some (res, k, x')"
  shows "\<exists>new. res = acc @ new \<and> set (map twTx new) \<subseteq> set txs \<and> exec_inv c (exState x')
     \<and> unat (exGasPool x') + length new * unat TxGas \<le> unat (exGasPool x)
     \<and> exUsedGas x' = exUsedGas x + of_nat (length new) * TxGas
     \<and> (\<forall>ty. tx_spent c (exState x) ty \<longrightarrow> tx_spent c (exState x') ty)
     \<and> (\<forall>e \<in> set new. \<not> tx_spent c (exState x) (twTx e) \<and> tx_spent c (exState x') (twTx e))
     \<and> distinct (map (\<lambda>e. tx_key c (twTx e)) new) \<and> i \<le> k \<and> k \<le> i + length txs"
  using assms
proof (induction txs arbitrary: i x acc)
  case Nil
  then show ?case by auto
next
  case (Cons tx txs)
  obtain err x1 where r: "SimpleExecutor_ExecuteTransaction c x tx = Some (err, x1)"
    using Cons.prems(2) by (cases "SimpleExecutor_ExecuteTransaction c x tx") auto
  note g = SimpleExecute_gas [OF Cons.prems(1) r] and sp = SimpleExecute_spent [OF Cons.prems(1) r]
  let ?e = "\<lparr>twTx = tx, twTxPackageIndex = pix, twTxIndex = of_nat i\<rparr>"
  show ?case
  proof (cases "err = Some ErrGasLimitReached")
    case True
    then have "res = acc" "k = i" "x' = x1" using Cons.prems(2) r by auto
    then show ?thesis using g sp True by auto
  next
    case False
    let ?now = "if err = None then [?e] else []"
    have "SimpleExecutor_txLoop c pix (i + 1) txs x1 (acc @ ?now) = Some (res, k, x')"
      using Cons.prems(2) r False by (auto split: if_splits)
    from Cons.IH [OF g(3) this] obtain new where
      new: "res = (acc @ ?now) @ new" "set (map twTx new) \<subseteq> set txs" "exec_inv c (exState x')"
      "unat (exGasPool x') + length new * unat TxGas \<le> unat (exGasPool x1)"
      "exUsedGas x' = exUsedGas x1 + of_nat (length new) * TxGas"
      "\<forall>ty. tx_spent c (exState x1) ty \<longrightarrow> tx_spent c (exState x') ty"
      "\<forall>e \<in> set new. \<not> tx_spent c (exState x1) (twTx e) \<and> tx_spent c (exState x') (twTx e)"
      "distinct (map (\<lambda>e. tx_key c (twTx e)) new)" "i + 1 \<le> k" "k \<le> i + 1 + length txs"
      by blast
    have "tx_key c tx \<noteq> tx_key c (twTx e)" if "err = None" "e \<in> set new" for e
      using tx_spent_key [of c tx "twTx e"] sp(2) [OF that(1)] new(7) that(2) by blast
    then show ?thesis
      using new g sp by (intro exI [of _ "?now @ new"]) (auto simp: algebra_simps)
  qed
qed

section \<open>Rejection after the gas was bought\<close>

lemma checkNonce_errors: "st_checkNonce st = Some (Some e) \<Longrightarrow> e \<noteq> ErrInsufficientBalance"
  by (auto simp: st_checkNonce_def split: if_splits option.splits SearchResult.splits)

lemma preCheck_insufficient:
  assumes "st_preCheck st = Some (Some ErrInsufficientBalance, st')"
  shows "GasPool_SubGas (stGp st) (msgGasLimit (stMsg st)) = Some (stGp st')"
proof -
  obtain ok where ok: "st_transferIsAllowed st = Some ok"
    using assms by (cases "st_transferIsAllowed st") (simp_all add: st_preCheck_def)
  have r: "stGp st1 = stGp st \<and> stMsg st1 = stMsg st \<and> rerr \<noteq> Some ErrInsufficientBalance" if "st_resetNonce st = Some (rerr, st1)" for rerr st1
    using that by (auto simp: st_resetNonce_def split: option.splits prod.splits if_splits)
  have b: "(berr = None \<longrightarrow> GasPool_SubGas (stGp s) (msgGasLimit (stMsg s)) = Some (stGp s2)) \<and> berr \<noteq> Some ErrInsufficientBalance"
    if "st_buyGas s = (berr, s2)" for s berr s2
    using that by (auto simp: st_buyGas_def Let_def split: if_splits option.splits)
  obtain rerr st1 where r1: "st_resetNonce st = Some (rerr, st1)"
    using assms ok by (cases "st_resetNonce st") (auto simp: st_preCheck_def split: if_splits)
  obtain berr st2 where b1: "st_buyGas st1 = (berr, st2)" by (metis surj_pair)
  have "st' = st2" "berr = None"
    using assms ok r1 r [OF r1] b1 b [OF b1] checkNonce_errors [of st1]
    by (auto simp: st_preCheck_def split: if_splits bind_splits)
  with b [OF b1] r [OF r1] show ?thesis by simp
qed

lemma addNonce_errors: "st_addNonce st = (Some e, st') \<Longrightarrow> e \<noteq> ErrInsufficientBalance"
  by (auto simp: st_addNonce_def split: option.splits prod.splits)

lemma SimpleTransitionDb_insufficient:
  assumes "st_SimpleTransitionDb st coinbase = Some (g, Some ErrInsufficientBalance, st')"
  shows "GasPool_SubGas (stGp st) (msgGasLimit (stMsg st)) = Some (stGp st')"
proof -
  obtain perr st1 where p: "st_preCheck st = Some (perr, st1)"
    using assms by (cases "st_preCheck st") (auto simp: st_SimpleTransitionDb_def)
  have "perr = Some ErrInsufficientBalance \<and> st' = st1"
    using assms p addNonce_errors
    by (auto simp: st_SimpleTransitionDb_def st_useGas_def Let_def split: if_splits option.splits bind_splits prod.splits)
  with p preCheck_insufficient show ?thesis by simp
qed

lemma preCheck_cannot_pay:
  assumes st: "st_start st" "stPrevStateDb st = None"
    and nonce: "\<not> nonce_spent (tx_nonces (stState st) (st_from st)) (unat (msgNonce (stMsg st)))"
      "unat (msgNonce (stMsg st)) < unat (nsStart (tx_nonces (stState st) (st_from st))) + unat (stMaxBitLength st)"
    and money: "GasFee (msgGasLimit (stMsg st)) (stGasPrice st) \<le> acBalance (get_data (stState st) (st_from st))"
      "acBalance (get_data (stState st) (st_from st)) < stValue st + GasFee (msgGasLimit (stMsg st)) (stGasPrice st)"
    and pool: "unat (msgGasLimit (stMsg st)) \<le> unat (stGp st)"
  shows "\<exists>st'. st_preCheck st = Some (Some ErrInsufficientBalance, st')"
proof -
  have s: "tx_inv (stMaxBitLength st) (stState st)" "sdb_view (stState st) (st_from st) \<noteq> None" "msgCheckNonce (stMsg st)"
    using st by (simp_all add: st_start_def)
  have n: "st_checkNonce st = Some None" using checkNonce_spec [OF s(1-3)] nonce by metis
  have "GasPool_SubGas (stGp st) (msgGasLimit (stMsg st)) = Some (stGp st - msgGasLimit (stMsg st))"
    using pool by (simp add: GasPool_SubGas_iff)
  then show ?thesis
    using st(2) n tx_inv_wf [OF s(1)] money
    by (simp add: st_preCheck_def st_transferIsAllowed_def st_resetNonce_def st_buyGas_def GetBalance_data
        CanTransfer_def data_ops st_from_def Let_def)
qed

lemma sample_insufficient:
  "\<exists>x'. SimpleExecutor_ExecuteTransaction sample_config (sample_exec 200050) sample_transfer
     = Some (Some ErrInsufficientBalance, x')"
proof -
  let ?msg = "\<lparr>msgFrom = 7, msgTo = Some 8, msgNonce = 3, msgAmount = 100, msgGasLimit = 2000000, msgGasPrice = 1,
      msgData = [], msgCheckNonce = True\<rparr> :: Message"
  let ?x = "sample_exec 200050"
  let ?snap = "?x\<lparr>exState := snd (StateDB_Snapshot (exState ?x))\<rparr>"
  have msg: "Transaction_AsMessage (ecCrypto sample_config) (ecSigner sample_config) sample_transfer = Inr ?msg"
    using sample_sender by (simp add: sample_config_def)
  have f: "GasFee 2000000 1 = 200000" by code_simp
  have c: "\<not> nonce_spent NonceSet_zero 3" "unat (nsStart NonceSet_zero) = 0" "ecMaxBitLength sample_config = 1024"
    "ecPrevStateDb sample_config = None" "exGasPool ?x = 20000000000"
    by (simp_all add: nonce_spent_def NonceSet_zero_def used_def sample_config_def sample_exec_def)
  have "st_start (start_of sample_config ?snap ?msg)"
    by (rule start_of_ok [OF sample_exec_inv msg]) (simp add: sample_facts)
  from preCheck_cannot_pay [OF this] obtain st' where
    "st_preCheck (start_of sample_config ?snap ?msg) = Some (Some ErrInsufficientBalance, st')"
    using c f sample_facts by (auto simp: sdb_effects)
  then have s: "st_SimpleTransitionDb (start_of sample_config ?snap ?msg) (ecCoinbase sample_config)
      = Some (0, Some ErrInsufficientBalance, st')"
    by (simp add: st_SimpleTransitionDb_def)
  obtain err x' where r: "SimpleExecutor_ExecuteTransaction sample_config ?x sample_transfer = Some (err, x')"
    using SimpleExecute_total [OF sample_exec_inv, of sample_transfer 200050] by (auto simp: sample_config_def)
  have "StateDB_TxNonceSet (exState ?snap) 7 \<noteq> None" using sample_facts(1) [of 200050] by (simp add: TxNonceSet_data sdb_effects)
  then have "err = Some ErrInsufficientBalance"
    using r s msg by (auto simp: SimpleExecutor_ExecuteTransaction_def SimpleExecutor_ApplyTransaction_def
        SimpleApplyMessage_def start_of_def case_prod_beta split: bind_splits)
  with r show ?thesis by blast
qed

section \<open>Properties\<close>

text \<open>C10. A transaction that is rejected leaves no trace in the state: whatever the error, and for
  both executors, \<^verbatim>\<open>ExecuteTransaction\<close> reverts to a state that shows the same accounts, code,
  storage, logs and refund, keeps the gas used so far, and keeps the invariant under which the next
  transaction runs.\<close>

theorem ExecuteTransaction_failed_restores:
  assumes inv: "exec_inv c (exState x)"
    and "SimpleExecutor_ExecuteTransaction c x tx = Some (Some e, x')
      \<or> WasmExecutor_ExecuteTransaction W A c x tx = Some (r, Some e, x')"
  shows "sdb_same (exState x') (exState x) \<and> exUsedGas x' = exUsedGas x \<and> exec_inv c (exState x')"
  using assms(2)
proof
  assume "SimpleExecutor_ExecuteTransaction c x tx = Some (Some e, x')"
  with inv show ?thesis by (cases rule: SimpleExecute_cases) auto
qed (use WasmExecute_failed [OF inv] in blast)

text \<open>A transfer whose sender has no account.\<close>

lemma sample_failure:
  "\<exists>e x'. SimpleExecutor_ExecuteTransaction sample_config (sample_exec n)
     (sample_transfer\<lparr>txR := 0\<rparr>) = Some (Some e, x')"
proof -
  let ?tx = "sample_transfer\<lparr>txR := 0\<rparr>"
  obtain err x' where r: "SimpleExecutor_ExecuteTransaction sample_config (sample_exec n) ?tx = Some (err, x')"
    using SimpleExecute_total [OF sample_exec_inv, of ?tx n] by (auto simp: sample_config_def)
  have "(be_word (take 20 (int_bytes32 0)) :: address) = 0" by code_simp
  then have "Signer_Sender (ecCrypto sample_config) (ecSigner sample_config) ?tx = Inr 0"
    by (simp add: Signer_Sender_def sample_config_def)
  moreover have "sdb_view (exState (sample_exec n)) 0 = None"
    using empty_state_wf by (simp add: sample_exec_def sdb_effects view_AddBalance)
  ultimately have "err \<noteq> None"
    using r by (auto simp: SimpleExecutor_ExecuteTransaction_def SimpleExecutor_ApplyTransaction_def
        Transaction_AsMessage_def SimpleApplyMessage_def TxNonceSet_data sdb_effects case_prod_beta split: bind_splits)
  with r show ?thesis by auto
qed

theorem ExecuteTransaction_failed_restores_witness:
  "\<exists>e x'. SimpleExecutor_ExecuteTransaction sample_config (sample_exec 5) (sample_transfer\<lparr>txR := 0\<rparr>) = Some (Some e, x')
     \<and> sdb_same (exState x') (exState (sample_exec 5))"
proof -
  obtain e x' where r: "SimpleExecutor_ExecuteTransaction sample_config (sample_exec 5) (sample_transfer\<lparr>txR := 0\<rparr>) = Some (Some e, x')"
    using sample_failure by blast
  with ExecuteTransaction_failed_restores [OF sample_exec_inv disjI1 [OF r]] show ?thesis by blast
qed

text \<open>C11. What a successful transfer does to the balances: the sender pays the value and the fee of
  the gas used (bought at the gas limit, the rest refunded), the recipient gets the value and the
  block's coinbase the fee; no other balance changes. The total supply is kept but for at most one
  unit of the fee lost to rounding, and no balance becomes negative.\<close>

theorem ExecuteTransaction_transfers:
  assumes inv: "exec_inv c (exState x)" and run: "SimpleExecutor_ExecuteTransaction c x tx = Some (None, x')"
    and nonneg: "0 \<le> txPrice tx" "0 \<le> txAmount tx"
  shows "\<exists>from dest. Signer_Sender (ecCrypto c) (ecSigner c) tx = Inr from \<and> txRecipient tx = Some dest
     \<and> (let b = StateDB_GetBalance (exState x); b' = StateDB_GetBalance (exState x'); p = txPrice tx;
            fee = GasFee TxGas p; gap = GasFee (txGasLimit tx) p - GasFee (txGasLimit tx - TxGas) p - fee
        in (\<forall>a. b' a = b a - (if a = from then txAmount tx + fee + gap else 0)
              + (if a = dest then txAmount tx else 0) + (if a = ecCoinbase c then fee else 0))
         \<and> 0 \<le> gap \<and> gap \<le> 1 \<and> (\<Sum>a \<in> UNIV. b' a) = (\<Sum>a \<in> UNIV. b a) - gap
         \<and> ((\<forall>a. 0 \<le> b a) \<longrightarrow> (\<forall>a. 0 \<le> b' a)))"
  using inv run
proof (cases rule: SimpleExecute_cases)
  case (executed msg st')
  have m: "msgTo msg = txRecipient tx" "msgGasPrice msg = txPrice tx" "msgAmount msg = txAmount tx"
    "msgGasLimit msg = txGasLimit tx" "Signer_Sender (ecCrypto c) (ecSigner c) tx = Inr (msgFrom msg)"
    using executed(2) by (auto simp: Transaction_AsMessage_def split: sum.splits)
  let ?from = "msgFrom msg" and ?p = "txPrice tx" and ?gas = "txGasLimit tx" and ?v = "txAmount tx"
  let ?b = "StateDB_GetBalance (exState x)" and ?b' = "StateDB_GetBalance (exState x')"
  let ?fee = "GasFee TxGas ?p" and ?unspent = "GasFee (?gas - TxGas) ?p"
  let ?gap = "GasFee ?gas ?p - ?unspent - ?fee"
  have wf: "sdb_wf (exState x)" "sdb_wf (exState x')" using inv executed(6) by (auto simp: exec_inv_def)
  obtain dest ns where d: "txRecipient tx = Some dest" "TxGas \<le> ?gas"
    "?v + GasFee ?gas ?p \<le> acBalance (get_data (exState x) ?from)"
    "get_data (stState st') = add_balance (add_balance (add_balance (add_balance (add_balance
        (set_nonces (get_data (exState x)) ?from ns) ?from (- GasFee ?gas ?p)) ?from (- ?v)) dest ?v)
        ?from ?unspent) (ecCoinbase c) ?fee"
    using executed(3) unfolding transfer_done_def Let_def start_of_simps m by blast
  have x': "get_data (exState x') = get_data (stState st')" using executed(5) by (simp add: sdb_effects)
  have b': "?b' a = ?b a - (if a = ?from then ?v + ?fee + ?gap else 0)
      + (if a = dest then ?v else 0) + (if a = ecCoinbase c then ?fee else 0)" for a
    using wf by (simp add: GetBalance_data x' d(4))
  have "unat TxGas + unat (?gas - TxGas) = unat ?gas" using d(2) by (simp add: unat_sub word_le_nat_alt)
  then have nw: "unat TxGas + unat (?gas - TxGas) < 2 ^ 64"
    using unsigned_less [of ?gas, where ?'a = nat] by simp
  have gap: "0 \<le> ?gap" "?gap \<le> 1" using GasFee_split [OF nonneg(1) nw] by simp_all
  have one: "(\<Sum>a \<in> UNIV. if a = k then n else 0) = n" for k :: address and n :: int by simp
  have "(\<Sum>a \<in> UNIV. ?b' a) = (\<Sum>a \<in> UNIV. ?b a) - (?v + ?fee + ?gap) + ?v + ?fee"
    unfolding b' by (simp add: sum.distrib sum_subtractf)
  then have sum: "(\<Sum>a \<in> UNIV. ?b' a) = (\<Sum>a \<in> UNIV. ?b a) - ?gap" by simp
  have "0 \<le> ?fee" "0 \<le> ?unspent" using GasFee_nonneg [OF nonneg(1)] by simp_all
  then have "0 \<le> ?b' a" if "\<forall>a. 0 \<le> ?b a" for a
    using that [rule_format, of a] d(3) nonneg(2) GetBalance_data [OF wf(1), of a] unfolding b' by auto
  with b' gap sum m(5) d(1) show ?thesis
    unfolding Let_def by blast
qed simp

theorem ExecuteTransaction_transfers_witness:
  "\<exists>x'. SimpleExecutor_ExecuteTransaction sample_config (sample_exec 1000000) sample_transfer = Some (None, x')
     \<and> StateDB_GetBalance (exState x') 8 = 100"
proof -
  obtain x' where r: "SimpleExecutor_ExecuteTransaction sample_config (sample_exec 1000000) sample_transfer = Some (None, x')"
    by (rule sample_run)
  have "0 \<le> txPrice sample_transfer" "0 \<le> txAmount sample_transfer" "txRecipient sample_transfer = Some 8"
    "txAmount sample_transfer = 100"
    by (simp_all add: sample_transfer_def NewTransaction_def newTransaction_def)
  moreover have "Signer_Sender (ecCrypto sample_config) (ecSigner sample_config) sample_transfer = Inr 7"
    using AsMessage_check [OF sample_sender] by (simp add: sample_config_def)
  moreover have "StateDB_GetBalance (exState (sample_exec 1000000)) 8 = 0"
    using empty_state_wf by (simp add: sample_exec_def GetBalance_data sdb_effects Account_zero_def)
  ultimately show ?thesis
    using r ExecuteTransaction_transfers [OF sample_exec_inv r] by (auto simp: Let_def sample_config_def)
qed



text \<open>C13. No replay inside a run: among the transactions that one call of \<^verbatim>\<open>ExecuteTransactions\<close>
  executes, no two have the same sender and nonce, and none has a sender and nonce that was already
  spent in the state it started from.\<close>

theorem ExecuteTransactions_no_replay:
  assumes "exec_inv c (exState x)" "SimpleExecutor_ExecuteTransactions c pix txs x [] = Some (res, k, x')"
  shows "distinct (map (\<lambda>e. tx_key c (twTx e)) res)
     \<and> list_all (\<lambda>e. \<not> tx_spent c (exState x) (twTx e) \<and> tx_spent c (exState x') (twTx e)) res"
  using txLoop_spec [of c x pix 0 txs "[]"] assms
  by (auto simp: SimpleExecutor_ExecuteTransactions_def list_all_iff)

lemma sample_block: "\<exists>res k x'. SimpleExecutor_ExecuteTransactions sample_config 0 [sample_transfer, sample_transfer]
   (sample_exec 1000000) [] = Some (res, k, x') \<and> length res = 1"
proof -
  obtain x1 where 1: "SimpleExecutor_ExecuteTransaction sample_config (sample_exec 1000000) sample_transfer = Some (None, x1)"
    by (rule sample_run)
  have inv: "exec_inv sample_config (exState x1)" by (rule SimpleExecute_gas(3) [OF sample_exec_inv 1])
  obtain err x2 where 2: "SimpleExecutor_ExecuteTransaction sample_config x1 sample_transfer = Some (err, x2)"
    using SimpleExecute_total [OF inv, of sample_transfer] by (auto simp: sample_config_def)
  have "tx_spent sample_config (exState x1) sample_transfer" using SimpleExecute_spent(2) [OF sample_exec_inv 1] by simp
  then have "err \<noteq> None" using SimpleExecute_spent(2) [OF inv 2] by auto
  with 1 2 show ?thesis by (auto simp: SimpleExecutor_ExecuteTransactions_def)
qed

theorem ExecuteTransactions_no_replay_witness:
  "\<exists>res k x'. SimpleExecutor_ExecuteTransactions sample_config 0 [sample_transfer, sample_transfer]
       (sample_exec 1000000) [] = Some (res, k, x')
     \<and> length res = 1 \<and> distinct (map (\<lambda>e. tx_key sample_config (twTx e)) res)"
proof -
  obtain res k x' where r: "SimpleExecutor_ExecuteTransactions sample_config 0 [sample_transfer, sample_transfer]
       (sample_exec 1000000) [] = Some (res, k, x')" "length res = 1"
    using sample_block by blast
  from ExecuteTransactions_no_replay [OF sample_exec_inv r(1)] r show ?thesis by blast
qed

text \<open>C14. The gas of a block: the gas that the transactions of a call use is accounted exactly (a
  plain transfer costs \<^verbatim>\<open>TxGas\<close>) and, together with what is left in the pool, never exceeds
  what the pool held, so that a block cannot use more gas than its limit.\<close>

theorem ExecuteTransactions_block_gas:
  assumes "exec_inv c (exState x)" "SimpleExecutor_ExecuteTransactions c pix txs x [] = Some (res, k, x')"
  shows "exUsedGas x' = exUsedGas x + of_nat (length res) * TxGas
     \<and> unat (exGasPool x') + length res * unat TxGas \<le> unat (exGasPool x) \<and> k \<le> length txs
     \<and> exec_inv c (exState x')"
  using txLoop_spec [of c x pix 0 txs "[]"] assms by (auto simp: SimpleExecutor_ExecuteTransactions_def)

theorem ExecuteTransactions_block_gas_witness:
  "\<exists>res k x'. SimpleExecutor_ExecuteTransactions sample_config 0 [sample_transfer, sample_transfer]
       (sample_exec 1000000) [] = Some (res, k, x') \<and> length res = 1 \<and> exUsedGas x' = TxGas"
proof -
  obtain res k x' where r: "SimpleExecutor_ExecuteTransactions sample_config 0 [sample_transfer, sample_transfer]
       (sample_exec 1000000) [] = Some (res, k, x')" "length res = 1"
    using sample_block by blast
  from ExecuteTransactions_block_gas [OF sample_exec_inv r(1)] r show ?thesis by (auto simp: sample_exec_def)
qed

text \<open>C16. Gas is lost from the pool by rejected transactions: when the sender can pay for the gas but
  not for the value, the state is reverted, but the whole gas limit stays deducted from the block's
  gas pool although no gas counts as used.\<close>

theorem rejected_transfer_keeps_gas:
  assumes run: "SimpleExecutor_ExecuteTransaction c x tx = Some (Some ErrInsufficientBalance, x')"
  shows "unat (exGasPool x') + unat (txGasLimit tx) = unat (exGasPool x) \<and> exUsedGas x' = exUsedGas x"
proof -
  let ?x0 = "x\<lparr>exState := snd (StateDB_Snapshot (exState x))\<rparr>"
  obtain x1 where a: "SimpleExecutor_ApplyTransaction c ?x0 tx = Some (Some ErrInsufficientBalance, x1)"
    "exGasPool x' = exGasPool x1" "exUsedGas x' = exUsedGas x1"
    using run by (auto simp: SimpleExecutor_ExecuteTransaction_def case_prod_beta split: if_splits bind_splits)
  obtain msg where msg: "Transaction_AsMessage (ecCrypto c) (ecSigner c) tx = Inr msg"
    using a(1) by (cases "Transaction_AsMessage (ecCrypto c) (ecSigner c) tx")
      (auto simp: SimpleExecutor_ApplyTransaction_def)
  then have gas: "msgGasLimit msg = txGasLimit tx" by (auto simp: Transaction_AsMessage_def split: sum.splits)
  obtain g st' where "st_SimpleTransitionDb (start_of c ?x0 msg) (ecCoinbase c) = Some (g, Some ErrInsufficientBalance, st')"
    "exGasPool x1 = stGp st'" "exUsedGas x1 = exUsedGas x"
    using a(1) msg by (auto simp: SimpleExecutor_ApplyTransaction_def SimpleApplyMessage_def start_of_def
        split: option.splits if_splits bind_splits)
  with SimpleTransitionDb_insufficient gas a(2,3) show ?thesis
    by (force simp: GasPool_SubGas_iff unat_sub word_le_nat_alt)
qed

theorem rejected_transfer_keeps_gas_witness:
  "\<exists>x'. SimpleExecutor_ExecuteTransaction sample_config (sample_exec 200050) sample_transfer
       = Some (Some ErrInsufficientBalance, x')
     \<and> unat (exGasPool x') = 20000000000 - 2000000 \<and> exUsedGas x' = 0"
proof -
  obtain x' where r: "SimpleExecutor_ExecuteTransaction sample_config (sample_exec 200050) sample_transfer
     = Some (Some ErrInsufficientBalance, x')" using sample_insufficient by blast
  have "unat (txGasLimit sample_transfer) = 2000000" "unat (exGasPool (sample_exec 200050)) = 20000000000"
    "exUsedGas (sample_exec 200050) = 0"
    by (simp_all add: sample_transfer_def NewTransaction_def newTransaction_def sample_exec_def)
  with rejected_transfer_keeps_gas [OF r] r show ?thesis by auto
qed

text \<open>C17. \<^verbatim>\<open>ExecuteTxPackages\<close> forgets what it executed: when the packer of the last package has no
  account (or its nonce is refused), \<^verbatim>\<open>ExecuteTxPackage\<close> returns empty results, which overwrite the
  transactions collected from all the packages before it, although their effects stay in the
  state.\<close>

lemma pkgLoop_append:
  "executor_pkgLoop ex i (ps @ qs) x res =
     Option.bind (executor_pkgLoop ex i ps x res)
       (\<lambda>(res', k, x'). if k < i + length ps then Some (res', k, x') else executor_pkgLoop ex k qs x' res')"
proof (induction ps arbitrary: i x res)
  case (Cons p ps)
  show ?case
  proof (cases "ex (of_nat i) p x res")
    case (Some r)
    obtain res1 reached x1 where "r = (res1, reached, x1)" by (metis surj_pair)
    with Some Cons.IH [of "i + 1" x1 res1] show ?thesis
      by (cases reached) (auto simp: add.commute split: bind_splits)
  qed simp
qed simp

theorem ExecuteTxPackages_drops_results:
  assumes "SimpleExecutor_ExecuteTxPackages c pkgs x executedTxs = Some (res, length pkgs, x')"
    and "StateDB_PackageNonceSet (exState x') (pkPacker pkg) = None" "\<not> StateDB_copyPanics (exState x')"
  shows "SimpleExecutor_ExecuteTxPackages c (pkgs @ [pkg]) x executedTxs = Some ([], length pkgs + 1, x')"
  using assms
  by (simp add: SimpleExecutor_ExecuteTxPackages_def pkgLoop_append SimpleExecutor_ExecuteTxPackage_def
      executor_ExecuteTxPackage_def StateDB_Copy_def)

lemma sample_copy: "\<not> StateDB_copyPanics (exState (sample_exec 5))"
  by (simp add: StateDB_copyPanics_def sample_exec_def StateDB_FinaliseOne_def StateDB_clearJournalAndRefund_def
      StateDB_markDirty_def StateDB_AddBalance_def StateDB_GetOrNewStateObject_def StateDB_getStateObject_def
      empty_state_def StateDB_New_def empty_db_def StateDB_createObject_def stateObject_SetBalance_def
      StateDB_journal_def journal_append_def journal_dirty_def newJournal_def newObject_def Let_def
      stateObject_setBalance_def)

theorem ExecuteTxPackages_drops_results_witness:
  "SimpleExecutor_ExecuteTxPackages sample_config
      [\<lparr>pkPacker = 0, pkNonce = 1, pkTransactions = [], pkBlockFullHash = 0\<rparr>] (sample_exec 5)
      [\<lparr>twTx = sample_transfer, twTxPackageIndex = 0, twTxIndex = 0\<rparr>]
    = Some ([], 1, sample_exec 5)"
proof -
  have "StateDB_PackageNonceSet (exState (sample_exec 5)) 0 = None"
    using empty_state_wf by (simp add: PackageNonceSet_data sample_exec_def sdb_effects view_AddBalance)
  with ExecuteTxPackages_drops_results [of sample_config "[]" "sample_exec 5" _ _ "sample_exec 5"
      "\<lparr>pkPacker = 0, pkNonce = 1, pkTransactions = [], pkBlockFullHash = 0\<rparr>"] sample_copy
  show ?thesis by (simp add: SimpleExecutor_ExecuteTxPackages_def)
qed

section \<open>Intrinsic gas\<close>

lemma nonzero_bytes_eq: "nonzero_bytes data = of_nat (length (filter (\<lambda>b. b \<noteq> 0) data))"
proof -
  have "foldl (\<lambda>nz byt. if byt \<noteq> 0 then nz + 1 else nz) n bs = n + of_nat (length (filter (\<lambda>b. b \<noteq> 0) bs))"
    for n :: u64 and bs :: bytes
    by (induction bs arbitrary: n) (auto simp: algebra_simps)
  then show ?thesis by (simp add: nonzero_bytes_def)
qed

text \<open>The overflow test of the code, on naturals.\<close>

lemma gas_fits:
  fixes gas n p :: u64
  assumes "0 < unat p"
  shows "\<not> (- 1 - gas) div p < n \<longleftrightarrow> unat gas + unat n * unat p < 2 ^ 64"
    and "unat gas + unat n * unat p < 2 ^ 64 \<Longrightarrow> unat (gas + n * p) = unat gas + unat n * unat p"
proof -
  have m: "unat (- 1 :: u64) = 2 ^ 64 - 1" by (simp add: unsigned_minus_1_eq_mask mask_eq_exp_minus_1)
  have s: "unat (- 1 - gas :: u64) = 2 ^ 64 - 1 - unat gas" using unat_sub [of gas "- 1"] by (simp add: m)
  have g: "unat gas < 2 ^ 64" using unsigned_less [of gas, where ?'a = nat] by simp
  have "\<not> (- 1 - gas) div p < n \<longleftrightarrow> unat n \<le> (2 ^ 64 - 1 - unat gas) div unat p"
    by (simp add: word_less_nat_alt unat_div s not_less)
  also have "\<dots> \<longleftrightarrow> unat n * unat p \<le> 2 ^ 64 - 1 - unat gas"
    using assms by (simp add: less_eq_div_iff_mult_less_eq)
  also have "\<dots> \<longleftrightarrow> unat gas + unat n * unat p < 2 ^ 64" using g by linarith
  finally show "\<not> (- 1 - gas) div p < n \<longleftrightarrow> unat gas + unat n * unat p < 2 ^ 64" .
  assume b: "unat gas + unat n * unat p < 2 ^ 64"
  then have "unat (n * p) = unat n * unat p"
    by (subst unat_mult_lem [THEN iffD1]) auto
  with b show "unat (gas + n * p) = unat gas + unat n * unat p"
    by (subst unat_add_no_wrap) auto
qed

text \<open>The exact price.\<close>

definition intrinsic_price :: "bytes \<Rightarrow> bool \<Rightarrow> nat" where
  "intrinsic_price data create = (if create then 5000000 else 2000000)
     + length (filter (\<lambda>b. b \<noteq> 0) data) * 6800 + length (filter (\<lambda>b. b = 0) data) * 400"

lemma byte_counts:
  fixes data :: bytes
  assumes "length data < 2 ^ 64"
  shows "unat (nonzero_bytes data) = length (filter (\<lambda>b. b \<noteq> 0) data)"
    "unat (of_nat (length data) - nonzero_bytes data :: u64) = length (filter (\<lambda>b. b = 0) data)"
proof -
  let ?nz = "length (filter (\<lambda>b. b \<noteq> 0) data)" and ?z = "length (filter (\<lambda>b. b = 0) data)"
  have sum: "?nz + ?z = length data" using sum_length_filter_compl [of "\<lambda>b. b \<noteq> 0" data] by simp
  then have small: "?nz < 2 ^ 64" "?z < 2 ^ 64" using assms by linarith+
  then show "unat (nonzero_bytes data) = ?nz" by (simp add: nonzero_bytes_eq unat_of_nat)
  have "of_nat (length data) - nonzero_bytes data = (of_nat ?z :: u64)"
    by (simp add: nonzero_bytes_eq flip: sum)
  then show "unat (of_nat (length data) - nonzero_bytes data :: u64) = ?z"
    using small by (simp add: unat_of_nat)
qed

text \<open>C15. \<^verbatim>\<open>IntrinsicGas\<close> is the exact price of a transaction (a base, 6800 for every non-zero and 400
  for every zero byte of data), computed without wrap-around: when the exact price does not fit 64
  bits the result is \<^verbatim>\<open>ErrOutOfGas\<close>, never a smaller number.\<close>

theorem IntrinsicGas_exact:
  assumes "length data < 2 ^ 64"
  shows "IntrinsicGas data create =
     (if intrinsic_price data create < 2 ^ 64 then Inr (of_nat (intrinsic_price data create)) else Inl ErrOutOfGas)"
proof -
  let ?price = "intrinsic_price data create"
  let ?nz = "length (filter (\<lambda>b. b \<noteq> 0) data)" and ?z = "length (filter (\<lambda>b. b = 0) data)"
  let ?base = "if create then TxGasContractCreation else TxGas"
  note nz = byte_counts(1) [OF assms] and z = byte_counts(2) [OF assms]
  have base: "unat ?base = (if create then 5000000 else 2000000)"
    by (simp add: TxGasContractCreation_def TxGas_def)
  have p: "unat TxDataNonZeroGas = 6800" "unat TxDataZeroGas = 400"
    by (simp_all add: TxDataNonZeroGas_def TxDataZeroGas_def)
  let ?g1 = "?base + nonzero_bytes data * TxDataNonZeroGas"
  let ?g2 = "?g1 + (of_nat (length data) - nonzero_bytes data) * TxDataZeroGas"
  show ?thesis
  proof (cases "data = []")
    case True
    then show ?thesis
      by (simp add: IntrinsicGas_def intrinsic_price_def TxGasContractCreation_def TxGas_def)
  next
    case False
    note f1 = gas_fits [of TxDataNonZeroGas ?base "nonzero_bytes data", unfolded p nz base]
    note f2 = gas_fits [of TxDataZeroGas ?g1 "of_nat (length data) - nonzero_bytes data", unfolded p z]
    have i: "IntrinsicGas data create =
      (if (- 1 - ?base) div TxDataNonZeroGas < nonzero_bytes data then Inl ErrOutOfGas
       else if (- 1 - ?g1) div TxDataZeroGas < of_nat (length data) - nonzero_bytes data then Inl ErrOutOfGas
       else Inr ?g2)"
      using False by (simp add: IntrinsicGas_def Let_def)
    show ?thesis
    proof (cases "(if create then 5000000 else 2000000) + ?nz * 6800 < (2 ^ 64 :: nat)")
      case fits: True
      then have g1: "unat ?g1 = (if create then 5000000 else 2000000) + ?nz * 6800" using f1(2) by simp
      show ?thesis
      proof (cases "?price < 2 ^ 64")
        case True
        then have "unat ?g2 = ?price" using f2(2) g1 by (simp add: intrinsic_price_def)
        then have "of_nat ?price = (of_nat (unat ?g2) :: u64)" by (simp only:)
        then have "?g2 = of_nat ?price" by simp
        then show ?thesis using True fits f1(1) f2(1) g1 unfolding i intrinsic_price_def by simp
      next
        case False
        then show ?thesis using fits f1(1) f2(1) g1 unfolding i intrinsic_price_def by simp
      qed
    next
      case nofit: False
      then have "\<not> ?price < 2 ^ 64" by (simp add: intrinsic_price_def)
      with nofit f1(1) show ?thesis unfolding i by simp
    qed
  qed
qed

theorem IntrinsicGas_exact_witness: "IntrinsicGas [0, 1, 2, 0] True = Inr 5014400"
  using IntrinsicGas_exact [of "[0, 1, 2, 0]" True] by (simp add: intrinsic_price_def)

end
