(* ===== verification/Rlp_Encode.thy ===== *)
theory Rlp_Encode
  imports Go_Stdlib
begin

text \<open>
  The RLP encoder (\<^verbatim>\<open>rlp/encode.go\<close>): minimal big-endian integers, headers, and the buffer that
  collects string data and list headers separately and joins them at the end. Values are trees of
  strings and lists (\<open>rlp_item\<close>), what the reflection-based writers of the package reduce every Go
  value to. The header buffers the Go code fills are returned as the bytes written.
\<close>

section \<open>Integers and headers\<close>

definition putint :: "u64 \<Rightarrow> bytes" where
  "putint i =
     (if i < 0x100 then [ucast i]
      else if i < 0x10000 then [ucast (drop_bit 8 i), ucast i]
      else if i < 0x1000000 then [ucast (drop_bit 16 i), ucast (drop_bit 8 i), ucast i]
      else if i < 0x100000000 then
        [ucast (drop_bit 24 i), ucast (drop_bit 16 i), ucast (drop_bit 8 i), ucast i]
      else if i < 0x10000000000 then
        [ucast (drop_bit 32 i), ucast (drop_bit 24 i), ucast (drop_bit 16 i), ucast (drop_bit 8 i), ucast i]
      else if i < 0x1000000000000 then
        [ucast (drop_bit 40 i), ucast (drop_bit 32 i), ucast (drop_bit 24 i), ucast (drop_bit 16 i),
         ucast (drop_bit 8 i), ucast i]
      else if i < 0x100000000000000 then
        [ucast (drop_bit 48 i), ucast (drop_bit 40 i), ucast (drop_bit 32 i), ucast (drop_bit 24 i),
         ucast (drop_bit 16 i), ucast (drop_bit 8 i), ucast i]
      else
        [ucast (drop_bit 56 i), ucast (drop_bit 48 i), ucast (drop_bit 40 i), ucast (drop_bit 32 i),
         ucast (drop_bit 24 i), ucast (drop_bit 16 i), ucast (drop_bit 8 i), ucast i])"

lemma unat_drop_8: "unat (drop_bit 8 (i :: u64)) = unat i div 256"
  by (simp add: drop_bit_eq_div unat_div)

function intsize_loop :: "nat \<Rightarrow> u64 \<Rightarrow> nat" where
  "intsize_loop sz i = (let i = drop_bit 8 i in if i = 0 then sz else intsize_loop (sz + 1) i)"
  by pat_completeness auto
termination
  by (relation "measure (\<lambda>(sz, i). unat i)") (auto simp: unat_drop_8 word_unat_eq_iff)

declare intsize_loop.simps [simp del]

definition intsize :: "u64 \<Rightarrow> nat" where
  "intsize i = intsize_loop 1 i"

definition headsize :: "u64 \<Rightarrow> nat" where
  "headsize sz = (if sz < 56 then 1 else 1 + intsize sz)"

definition puthead :: "u8 \<Rightarrow> u8 \<Rightarrow> u64 \<Rightarrow> bytes" where
  "puthead smalltag largetag sz =
     (if sz < 56 then [smalltag + ucast sz]
      else let sizebytes = putint sz in (largetag + of_nat (length sizebytes)) # sizebytes)"

definition ListSize :: "u64 \<Rightarrow> u64" where
  "ListSize contentSize = of_nat (headsize contentSize) + contentSize"

section \<open>The encoding buffer\<close>

record listhead =
  lhOffset :: nat
  lhSize :: nat

record encbuf =
  ebStr :: bytes
  ebLheads :: "listhead list"
  ebLhsize :: nat

definition encbuf_empty :: encbuf where
  "encbuf_empty = \<lparr>ebStr = [], ebLheads = [], ebLhsize = 0\<rparr>"

definition encbuf_reset :: "encbuf \<Rightarrow> encbuf" where
  "encbuf_reset w = w\<lparr>ebLhsize := 0, ebStr := [], ebLheads := []\<rparr>"

definition encbuf_Write :: "bytes \<Rightarrow> encbuf \<Rightarrow> encbuf" where
  "encbuf_Write b w = w\<lparr>ebStr := ebStr w @ b\<rparr>"

definition encbuf_encodeStringHeader :: "nat \<Rightarrow> encbuf \<Rightarrow> encbuf" where
  "encbuf_encodeStringHeader sz w =
     (if sz < 56 then encbuf_Write [0x80 + of_nat sz] w
      else let sizebytes = putint (of_nat sz)
           in encbuf_Write ((0xB7 + of_nat (length sizebytes)) # sizebytes) w)"

definition encbuf_encodeString :: "bytes \<Rightarrow> encbuf \<Rightarrow> encbuf" where
  "encbuf_encodeString b w =
     (if length b = 1 \<and> b ! 0 \<le> 0x7F then encbuf_Write [b ! 0] w
      else encbuf_Write b (encbuf_encodeStringHeader (length b) w))"

text \<open>A list header is referred to by its index.\<close>

definition encbuf_list :: "encbuf \<Rightarrow> nat \<times> encbuf" where
  "encbuf_list w =
     (length (ebLheads w), w\<lparr>ebLheads := ebLheads w @ [\<lparr>lhOffset = length (ebStr w), lhSize = ebLhsize w\<rparr>]\<rparr>)"

definition encbuf_size :: "encbuf \<Rightarrow> nat" where
  "encbuf_size w = length (ebStr w) + ebLhsize w"

definition encbuf_listEnd :: "nat \<Rightarrow> encbuf \<Rightarrow> encbuf" where
  "encbuf_listEnd lh w =
     (let h = ebLheads w ! lh;
          sz = encbuf_size w - lhOffset h - lhSize h
      in w\<lparr>ebLheads := (ebLheads w)[lh := h\<lparr>lhSize := sz\<rparr>],
           ebLhsize := ebLhsize w + (if sz < 56 then 1 else 1 + intsize (of_nat sz))\<rparr>)"

definition listhead_encode :: "listhead \<Rightarrow> bytes" where
  "listhead_encode h = puthead 0xC0 0xF7 (of_nat (lhSize h))"

text \<open>\<^verbatim>\<open>copy(out[pos:], src)\<close>\<close>

definition copy_at :: "bytes \<Rightarrow> nat \<Rightarrow> bytes \<Rightarrow> bytes" where
  "copy_at out pos src = take pos out @ copy_into (drop pos out) src"

text \<open>The loop of \<^verbatim>\<open>toBytes\<close>; \<open>None\<close> is a slice or index out of range.\<close>

primrec encbuf_toBytes_loop :: "bytes \<Rightarrow> listhead list \<Rightarrow> nat \<Rightarrow> nat \<Rightarrow> bytes \<Rightarrow> bytes option" where
  "encbuf_toBytes_loop str [] strpos pos out =
     (if strpos > length str \<or> pos > length out then None else Some (copy_at out pos (drop strpos str)))"
| "encbuf_toBytes_loop str (h # hs) strpos pos out =
     (if strpos > lhOffset h \<or> lhOffset h > length str \<or> pos > length out then None
      else
        let piece = take (lhOffset h - strpos) (drop strpos str);
            n = min (length out - pos) (length piece);
            out1 = copy_at out pos piece;
            enc = listhead_encode h
        in if pos + n + length enc > length out then None
           else encbuf_toBytes_loop str hs (strpos + n) (pos + n + length enc) (copy_at out1 (pos + n) enc))"

definition encbuf_toBytes :: "encbuf \<Rightarrow> bytes option" where
  "encbuf_toBytes w = encbuf_toBytes_loop (ebStr w) (ebLheads w) 0 0 (replicate (encbuf_size w) 0)"

text \<open>
  \<^verbatim>\<open>toWriter\<close> into a writer that accepts every byte: the result is what was written, \<open>None\<close> a slice out of
  range.
\<close>

primrec encbuf_toWriter_loop :: "bytes \<Rightarrow> listhead list \<Rightarrow> nat \<Rightarrow> bytes \<Rightarrow> bytes option" where
  "encbuf_toWriter_loop str [] strpos out =
     Some (if strpos < length str then out @ drop strpos str else out)"
| "encbuf_toWriter_loop str (h # hs) strpos out =
     (if lhOffset h > strpos then
        if lhOffset h > length str then None
        else
          let piece = take (lhOffset h - strpos) (drop strpos str)
          in encbuf_toWriter_loop str hs (strpos + length piece) (out @ piece @ listhead_encode h)
      else encbuf_toWriter_loop str hs strpos (out @ listhead_encode h))"

definition encbuf_toWriter :: "encbuf \<Rightarrow> bytes option" where
  "encbuf_toWriter w = encbuf_toWriter_loop (ebStr w) (ebLheads w) 0 []"

text \<open>
  The reader of \<^verbatim>\<open>EncodeToReader\<close>. A nil piece is \<open>None\<close>; \<open>encReader_next\<close> returns the piece together with the
  reader, and \<open>None\<close> is a slice out of range.
\<close>

record encReader =
  erBuf :: "encbuf option"
  erLhpos :: nat
  erStrpos :: nat
  erPiece :: "bytes option"

definition encReader_next :: "encReader \<Rightarrow> (bytes option \<times> encReader) option" where
  "encReader_next r =
     (case erBuf r of
        None \<Rightarrow> Some (None, r)
      | Some buf \<Rightarrow>
          if erPiece r \<noteq> None then Some (erPiece r, r)
          else if erLhpos r < length (ebLheads buf) then
            let head = ebLheads buf ! erLhpos r
            in if lhOffset head > erStrpos r then
                 if lhOffset head > length (ebStr buf) then None
                 else Some (Some (take (lhOffset head - erStrpos r) (drop (erStrpos r) (ebStr buf))),
                            r\<lparr>erStrpos := lhOffset head\<rparr>)
               else Some (Some (listhead_encode head), r\<lparr>erLhpos := erLhpos r + 1\<rparr>)
          else if erStrpos r < length (ebStr buf) then
            Some (Some (drop (erStrpos r) (ebStr buf)), r\<lparr>erStrpos := length (ebStr buf)\<rparr>)
          else Some (None, r))"

definition encReader_todo :: "encReader \<Rightarrow> nat" where
  "encReader_todo r =
     (case erBuf r of
        None \<Rightarrow> 0
      | Some buf \<Rightarrow> (length (ebLheads buf) - erLhpos r) + (length (ebStr buf) - erStrpos r)
          + (if erPiece r = None then 0 else 1))"

lemma encReader_next_todo:
  "encReader_next r = Some (Some piece, r') \<Longrightarrow> encReader_todo (r'\<lparr>erPiece := None\<rparr>) < encReader_todo r"
  by (auto simp: encReader_next_def encReader_todo_def Let_def split: option.splits if_splits)

text \<open>
  \<^verbatim>\<open>Read\<close> into a buffer of \<open>cap\<close> bytes of which \<open>out\<close> are filled; the flag says that the error is \<^verbatim>\<open>io.EOF\<close>.
\<close>

function encReader_Read_loop :: "nat \<Rightarrow> bytes \<Rightarrow> encReader \<Rightarrow> (bytes \<times> bool \<times> encReader) option" where
  "encReader_Read_loop cap out r =
     (case encReader_next r of
        None \<Rightarrow> None
      | Some (None, r') \<Rightarrow> Some (out, True, r'\<lparr>erBuf := None, erPiece := None\<rparr>)
      | Some (Some piece, r') \<Rightarrow>
          let nn = min (cap - length out) (length piece);
              out' = out @ take nn piece
          in if nn < length piece then Some (out', False, r'\<lparr>erPiece := Some (drop nn piece)\<rparr>)
             else encReader_Read_loop cap out' (r'\<lparr>erPiece := None\<rparr>))"
  by pat_completeness auto
termination
  by (relation "measure (\<lambda>(cap, out, r). encReader_todo r)") (auto dest: encReader_next_todo)

declare encReader_Read_loop.simps [simp del]

definition encReader_Read :: "nat \<Rightarrow> encReader \<Rightarrow> (bytes \<times> bool \<times> encReader) option" where
  "encReader_Read cap r = encReader_Read_loop cap [] r"

section \<open>Writers\<close>

text \<open>
  A value as the writers see it: a string, a list, or a \<^verbatim>\<open>RawValue\<close> (bytes copied as they are).
\<close>

datatype rlp_item = Str bytes | Lst "rlp_item list" | Raw bytes

fun write_item :: "rlp_item \<Rightarrow> encbuf \<Rightarrow> encbuf" and write_items :: "rlp_item list \<Rightarrow> encbuf \<Rightarrow> encbuf" where
  "write_item (Str b) w = encbuf_encodeString b w"
| "write_item (Lst xs) w = (let (lh, w) = encbuf_list w in encbuf_listEnd lh (write_items xs w))"
| "write_item (Raw b) w = encbuf_Write b w"
| "write_items [] w = w"
| "write_items (x # xs) w = write_items xs (write_item x w)"

definition EncodeToBytes :: "rlp_item \<Rightarrow> bytes option" where
  "EncodeToBytes val = encbuf_toBytes (write_item val (encbuf_reset encbuf_empty))"

definition Encode :: "rlp_item \<Rightarrow> bytes option" where
  "Encode val = encbuf_toWriter (write_item val (encbuf_reset encbuf_empty))"

definition EncodeToReader :: "rlp_item \<Rightarrow> nat \<times> encReader" where
  "EncodeToReader val =
     (let eb = write_item val (encbuf_reset encbuf_empty)
      in (encbuf_size eb, \<lparr>erBuf = Some eb, erLhpos = 0, erStrpos = 0, erPiece = None\<rparr>))"

text \<open>The writers of integers and booleans.\<close>

definition writeUint :: "u64 \<Rightarrow> encbuf \<Rightarrow> encbuf" where
  "writeUint i w =
     (if i = 0 then encbuf_Write [0x80] w
      else if i < 128 then encbuf_Write [ucast i] w
      else let s = putint i in encbuf_Write ((0x80 + of_nat (length s)) # s) w)"

definition writeBool :: "bool \<Rightarrow> encbuf \<Rightarrow> encbuf" where
  "writeBool b w = encbuf_Write (if b then [1] else [0x80]) w"

text \<open>\<^verbatim>\<open>big.Int.Bytes\<close>: the absolute value, big-endian without leading zeros.\<close>

function nat_bytes :: "nat \<Rightarrow> bytes" where
  "nat_bytes n = (if n = 0 then [] else nat_bytes (n div 256) @ [of_nat n])"
  by pat_completeness auto
termination by (relation "measure id") auto

declare nat_bytes.simps [simp del]

definition writeBigInt :: "int \<Rightarrow> encbuf \<Rightarrow> encbuf option" where
  "writeBigInt i w =
     (if i < 0 then None
      else if i = 0 then Some (encbuf_Write [0x80] w)
      else Some (encbuf_encodeString (nat_bytes (nat i)) w))"

section \<open>The encoding as a function of the value\<close>

definition str_head :: "nat \<Rightarrow> bytes" where
  "str_head n = puthead 0x80 0xB7 (of_nat n)"

definition list_head :: "nat \<Rightarrow> bytes" where
  "list_head n = puthead 0xC0 0xF7 (of_nat n)"

definition rlp_string :: "bytes \<Rightarrow> bytes" where
  "rlp_string b = (if length b = 1 \<and> hd b < 0x80 then b else str_head (length b) @ b)"

fun rlp :: "rlp_item \<Rightarrow> bytes" where
  "rlp (Str b) = rlp_string b"
| "rlp (Lst xs) = (let c = concat (map rlp xs) in list_head (length c) @ c)"
| "rlp (Raw b) = b"

section \<open>Minimal big-endian integers\<close>

primrec be_nat :: "bytes \<Rightarrow> nat" where
  "be_nat [] = 0"
| "be_nat (b # bs) = unat b * 256 ^ length bs + be_nat bs"

lemma be_nat_snoc: "be_nat (bs @ [b]) = be_nat bs * 256 + unat b"
  by (induction bs) (simp_all add: algebra_simps)

lemma unat_byte: "unat (b :: u8) < 256"
  using unsigned_less [of b, where ?'a = nat] by simp

lemma be_nat_bound: "be_nat bs < 256 ^ length bs"
proof (induction bs)
  case (Cons b bs)
  have "be_nat (b # bs) < unat b * 256 ^ length bs + 256 ^ length bs" using Cons by simp
  also have "\<dots> = (unat b + 1) * 256 ^ length bs" by (simp add: algebra_simps)
  also have "\<dots> \<le> 256 * 256 ^ length bs" using unat_byte [of b] by (intro mult_right_mono) auto
  finally show ?case by simp
qed simp

lemma be_nat_lower: "bs \<noteq> [] \<Longrightarrow> hd bs \<noteq> 0 \<Longrightarrow> 256 ^ (length bs - 1) \<le> be_nat bs"
proof (cases bs)
  case (Cons b bs')
  assume "hd bs \<noteq> 0"
  then have "1 \<le> unat b" using Cons by (simp add: Suc_le_eq unat_gt_0)
  then have "1 * 256 ^ length bs' \<le> unat b * 256 ^ length bs'" by (rule mult_right_mono) simp
  then have "256 ^ length bs' \<le> unat b * 256 ^ length bs' + be_nat bs'" by linarith
  then show ?thesis using Cons by simp
qed simp

lemma unat_ucast_byte: "unat (ucast (b :: u8) :: u64) = unat b"
  using unat_byte [of b] by (simp add: unsigned_ucast_eq take_bit_nat_eq_self)

lemma push_or_byte:
  fixes w :: u64
  shows "push_bit 8 w OR ucast (b :: u8) = push_bit 8 w + ucast b"
  by (rule disjunctive_add [symmetric]) (auto simp: bit_simps dest: bit_imp_le_length)

lemma unat_push_or_byte:
  assumes "unat (w :: u64) < 2 ^ 56"
  shows "unat (push_bit 8 w OR ucast (b :: u8)) = unat w * 256 + unat b"
proof -
  have "push_bit 8 w = w * 256" by (simp add: push_bit_eq_mult)
  then have "unat (push_bit 8 w) = (unat w * 256) mod 2 ^ 64" by (simp add: unat_word_ariths)
  also have "\<dots> = unat w * 256" using assms by (intro mod_less) simp
  finally have 1: "unat (push_bit 8 w) = unat w * 256" .
  have "unat (push_bit 8 w + ucast b) = (unat w * 256 + unat b) mod 2 ^ 64"
    by (simp add: unat_word_ariths(1) 1 unat_ucast_byte)
  also have "\<dots> = unat w * 256 + unat b" using assms unat_byte [of b] by (intro mod_less) simp
  finally show ?thesis by (simp add: push_or_byte)
qed

lemma drop_push_or_byte:
  assumes "unat (w :: u64) < 2 ^ 56"
  shows "drop_bit 8 (push_bit 8 w OR ucast (b :: u8)) = w"
proof -
  have "unat (drop_bit 8 (push_bit 8 w OR ucast b)) = unat w"
    unfolding unat_drop_8 unat_push_or_byte [OF assms] using unat_byte [of b] by simp
  then show ?thesis by (simp add: word_unat_eq_iff)
qed

lemma ucast_push_or_byte: "ucast (push_bit 8 (w :: u64) OR ucast b) = (b :: u8)"
  by (rule bit_word_eqI) (simp add: bit_simps)

lemma be_word_nat:
  "length bs \<le> 8 \<Longrightarrow> unat (be_word bs :: u64) = be_nat bs \<and> be_bytes (length bs) (be_word bs :: u64) = bs"
proof (induction bs rule: rev_induct)
  case (snoc b bs)
  let ?w = "be_word bs :: u64"
  have "be_nat bs < 256 ^ length bs" by (rule be_nat_bound)
  also have "\<dots> \<le> 256 ^ 7" using snoc.prems by (intro power_increasing) auto
  finally have "unat ?w < 2 ^ 56" using snoc by simp
  note p = unat_push_or_byte [OF this, of b] drop_push_or_byte [OF this, of b] ucast_push_or_byte [of ?w b]
  show ?case using snoc p by (simp add: be_word_append1 be_nat_snoc be_bytes_Suc)
qed (simp_all add: be_word_def be_bytes_def)

lemma intsize_loop_eq:
  "unat i < 256 ^ Suc k \<Longrightarrow> k = 0 \<or> 256 ^ k \<le> unat i \<Longrightarrow> intsize_loop s i = s + k"
proof (induction k arbitrary: s i)
  case 0
  then have "drop_bit 8 i = 0" by (simp add: word_unat_eq_iff unat_drop_8)
  then show ?case by (subst intsize_loop.simps) simp
next
  case (Suc k)
  have "unat (drop_bit 8 i) < 256 ^ Suc k" "256 ^ k \<le> unat (drop_bit 8 i)"
    using Suc.prems by (simp_all add: unat_drop_8 less_mult_imp_div_less div_le_mono mult.commute less_eq_div_iff_mult_less_eq)
  moreover from this have "drop_bit 8 i \<noteq> 0" by (metis not_less unat_0 zero_less_numeral zero_less_power)
  ultimately show ?case using Suc.IH by (subst intsize_loop.simps) simp
qed

lemma intsize_eq: "unat i < 256 ^ Suc k \<Longrightarrow> k = 0 \<or> 256 ^ k \<le> unat i \<Longrightarrow> intsize i = Suc k"
  by (simp add: intsize_def intsize_loop_eq)

lemma putint_be_bytes:
  "putint i =
     (if unat i < 256 then be_bytes 1 i else if unat i < 256 ^ 2 then be_bytes 2 i
      else if unat i < 256 ^ 3 then be_bytes 3 i else if unat i < 256 ^ 4 then be_bytes 4 i
      else if unat i < 256 ^ 5 then be_bytes 5 i else if unat i < 256 ^ 6 then be_bytes 6 i
      else if unat i < 256 ^ 7 then be_bytes 7 i else be_bytes 8 i)"
  by (simp add: putint_def word_less_nat_alt be_bytes_def upt_rec)

lemma putint_minimal:
  obtains k where "k < 8" "putint i = be_bytes (Suc k) i" "unat i < 256 ^ Suc k" "k = 0 \<or> 256 ^ k \<le> unat i"
proof -
  have "unat i < 256 ^ 8" using unsigned_less [of i, where ?'a = nat] by simp
  then consider "unat i < 256 ^ 1" | "256 ^ 1 \<le> unat i" "unat i < 256 ^ 2"
    | "256 ^ 2 \<le> unat i" "unat i < 256 ^ 3" | "256 ^ 3 \<le> unat i" "unat i < 256 ^ 4"
    | "256 ^ 4 \<le> unat i" "unat i < 256 ^ 5" | "256 ^ 5 \<le> unat i" "unat i < 256 ^ 6"
    | "256 ^ 6 \<le> unat i" "unat i < 256 ^ 7" | "256 ^ 7 \<le> unat i" "unat i < 256 ^ 8"
    by linarith
  then show thesis
  proof cases
    case 1 then show ?thesis using that [of 0] by (simp add: putint_be_bytes)
  next
    case 2 then show ?thesis by (intro that [of 1]) (simp_all add: putint_be_bytes numeral_2_eq_2 [symmetric])
  next
    case 3 then show ?thesis by (intro that [of 2]) (simp_all add: putint_be_bytes Suc_numeral)
  next
    case 4 then show ?thesis by (intro that [of 3]) (simp_all add: putint_be_bytes Suc_numeral)
  next
    case 5 then show ?thesis by (intro that [of 4]) (simp_all add: putint_be_bytes Suc_numeral)
  next
    case 6 then show ?thesis by (intro that [of 5]) (simp_all add: putint_be_bytes Suc_numeral)
  next
    case 7 then show ?thesis by (intro that [of 6]) (simp_all add: putint_be_bytes Suc_numeral)
  next
    case 8 then show ?thesis by (intro that [of 7]) (simp_all add: putint_be_bytes Suc_numeral)
  qed
qed

lemma length_putint: "length (putint i) = intsize i"
proof -
  obtain k where "putint i = be_bytes (Suc k) i" "unat i < 256 ^ Suc k" "k = 0 \<or> 256 ^ k \<le> unat i"
    by (rule putint_minimal [of i])
  then show ?thesis by (simp add: intsize_eq)
qed

lemma intsize_bounds: "1 \<le> intsize i" "intsize i \<le> 8"
proof -
  obtain k where "k < 8" "putint i = be_bytes (Suc k) i" by (rule putint_minimal [of i])
  then show "1 \<le> intsize i" "intsize i \<le> 8" by (simp_all flip: length_putint)
qed

lemma drop_bit_bound: "unat (i :: u64) < 256 ^ n \<Longrightarrow> drop_bit (8 * n) i = 0"
proof -
  assume "unat i < 256 ^ n"
  also have "(256 :: nat) ^ n = 2 ^ (8 * n)" by (simp add: power_mult)
  finally have "unat (drop_bit (8 * n) i) = 0"
    by (subst unsigned_drop_bit_eq) (simp add: drop_bit_eq_div take_bit_nat_eq_self)
  then show ?thesis by (simp add: word_unat_eq_iff)
qed

lemma be_word_putint: "be_word (putint i) = i"
proof -
  obtain k where "putint i = be_bytes (Suc k) i" "unat i < 256 ^ Suc k" by (rule putint_minimal [of i])
  then show ?thesis using drop_bit_bound [of i "Suc k"] by (metis be_word_be_bytes)
qed

lemma be_nat_putint: "be_nat (putint i) = unat i"
  using be_word_nat [of "putint i"] be_word_putint [of i] by (simp add: length_putint intsize_bounds)

lemma hd_be_nat_0: "bs \<noteq> [] \<Longrightarrow> hd bs = 0 \<Longrightarrow> be_nat bs < 256 ^ (length bs - 1)"
  by (cases bs) (simp_all add: be_nat_bound)

lemma hd_putint: "i \<noteq> 0 \<Longrightarrow> hd (putint i) \<noteq> 0"
proof
  assume i: "i \<noteq> 0" and h: "hd (putint i) = 0"
  obtain k where k: "putint i = be_bytes (Suc k) i" "k = 0 \<or> 256 ^ k \<le> unat i"
    by (rule putint_minimal [of i])
  then have l: "length (putint i) = Suc k" by simp
  then have "putint i \<noteq> []" by auto
  from hd_be_nat_0 [OF this h] have "unat i < 256 ^ k" unfolding l be_nat_putint by simp
  then show False using k(2) i by (auto simp: word_unat_eq_iff)
qed

lemma putint_be_word: "bs \<noteq> [] \<Longrightarrow> hd bs \<noteq> 0 \<Longrightarrow> length bs \<le> 8 \<Longrightarrow> putint (be_word bs) = bs"
proof -
  assume bs: "bs \<noteq> []" "hd bs \<noteq> 0" "length bs \<le> 8"
  let ?i = "be_word bs :: u64"
  note n = be_word_nat [OF bs(3)]
  obtain k where k: "putint ?i = be_bytes (Suc k) ?i" "unat ?i < 256 ^ Suc k" "k = 0 \<or> 256 ^ k \<le> unat ?i"
    by (rule putint_minimal)
  have "intsize ?i = Suc (length bs - 1)"
    using be_nat_lower [OF bs(1,2)] be_nat_bound [of bs] n bs(1)
    by (intro intsize_eq) (cases bs, simp_all)
  then have "Suc k = length bs" using k(1) bs(1) by (simp add: intsize_eq [OF k(2,3)])
  then show ?thesis using k(1) n by simp
qed

section \<open>The buffer produces the encoding\<close>

text \<open>The string data and the list headers (with relative offsets) a value contributes.\<close>

abbreviation shift_head :: "nat \<Rightarrow> listhead \<Rightarrow> listhead" where
  "shift_head d h \<equiv> h\<lparr>lhOffset := d + lhOffset h\<rparr>"

fun strs :: "rlp_item \<Rightarrow> bytes" and heads :: "rlp_item \<Rightarrow> listhead list" and
    strs_list :: "rlp_item list \<Rightarrow> bytes" and heads_list :: "rlp_item list \<Rightarrow> listhead list" where
  "strs (Str b) = rlp_string b"
| "strs (Lst xs) = strs_list xs"
| "strs (Raw b) = b"
| "heads (Str b) = []"
| "heads (Lst xs) = \<lparr>lhOffset = 0, lhSize = length (concat (map rlp xs))\<rparr> # heads_list xs"
| "heads (Raw b) = []"
| "strs_list [] = []"
| "strs_list (x # xs) = strs x @ strs_list xs"
| "heads_list [] = []"
| "heads_list (x # xs) = heads x @ map (shift_head (length (strs x))) (heads_list xs)"

lemma rlp_item_inducts [case_names Str Lst Raw Nil Cons]:
  assumes "\<And>b. P (Str b)" "\<And>xs. Q xs \<Longrightarrow> P (Lst xs)" "\<And>b. P (Raw b)" "Q []" "\<And>x xs. P x \<Longrightarrow> Q xs \<Longrightarrow> Q (x # xs)"
  shows "P it" "Q its"
proof -
  have Q: "Q ys" if "\<And>x. x \<in> set ys \<Longrightarrow> P x" for ys
    using that by (induction ys) (auto intro: assms)
  show P: "P it" for it by (induction it) (auto intro: assms Q)
  show "Q its" using P by (rule Q)
qed

text \<open>The pieces of string data from position \<open>p\<close> on, with the headers in between.\<close>

primrec render :: "bytes \<Rightarrow> listhead list \<Rightarrow> nat \<Rightarrow> bytes" where
  "render str [] p = drop p str"
| "render str (h # hs) p =
     take (lhOffset h - p) (drop p str) @ listhead_encode h @ render str hs (lhOffset h)"

primrec heads_ok :: "listhead list \<Rightarrow> nat \<Rightarrow> nat \<Rightarrow> bool" where
  "heads_ok [] p n = (p \<le> n)"
| "heads_ok (h # hs) p n = (p \<le> lhOffset h \<and> heads_ok hs (lhOffset h) n)"

lemma heads_ok_le: "heads_ok hs p n \<Longrightarrow> p \<le> n"
  by (induction hs arbitrary: p) (auto intro: le_trans)

lemma heads_ok_append:
  "heads_ok hs p n \<Longrightarrow> heads_ok hs' 0 n' \<Longrightarrow> heads_ok (hs @ map (shift_head n) hs') p (n + n')"
proof (induction hs arbitrary: p)
  case Nil
  have "heads_ok (map (shift_head n) hs') (n + q) (n + n')" if "heads_ok hs' q n'" for q
    using that by (induction hs' arbitrary: q) auto
  from this [OF Nil(2)] Nil(1) show ?case by (cases hs') (auto intro: le_trans)
qed auto

lemma render_shift: "render (s @ s') (map (shift_head (length s)) hs) (length s + q) = render s' hs q"
  by (induction hs arbitrary: q) (auto simp: listhead_encode_def)

lemma render_append:
  "heads_ok hs p (length s) \<Longrightarrow>
   render (s @ s') (hs @ map (shift_head (length s)) hs') p = render s hs p @ render s' hs' 0"
proof (induction hs arbitrary: p)
  case Nil
  then show ?case
    using render_shift [of s s' _ 0] render_shift [of s s']
    by (cases hs') (auto simp: listhead_encode_def)
next
  case (Cons h hs)
  then have "lhOffset h \<le> length s" using heads_ok_le by auto
  then show ?case using Cons by auto
qed

lemma heads_ok_heads:
  "heads_ok (heads it) 0 (length (strs it))" "heads_ok (heads_list its) 0 (length (strs_list its))"
  by (induction it and its rule: rlp_item_inducts) (auto intro: heads_ok_append)

lemma render_heads:
  "render (strs it) (heads it) 0 = rlp it"
  "render (strs_list its) (heads_list its) 0 = concat (map rlp its)"
  by (induction it and its rule: rlp_item_inducts) (auto simp: render_append heads_ok_heads list_head_def listhead_encode_def Let_def)

definition hsize :: "listhead list \<Rightarrow> nat" where
  "hsize hs = sum_list (map (length \<circ> listhead_encode) hs)"

lemma hsize_simps [simp]:
  "hsize [] = 0" "hsize (h # hs) = length (listhead_encode h) + hsize hs" "hsize (hs @ hs') = hsize hs + hsize hs'"
  "hsize (map (shift_head d) hs) = hsize hs"
  by (simp_all add: hsize_def comp_def listhead_encode_def)

text \<open>What a writer appends to the buffer.\<close>

abbreviation encbuf_add :: "bytes \<Rightarrow> listhead list \<Rightarrow> nat \<Rightarrow> encbuf \<Rightarrow> encbuf" where
  "encbuf_add s hs n w \<equiv>
     w\<lparr>ebStr := ebStr w @ s, ebLheads := ebLheads w @ map (shift_head (length (ebStr w))) hs,
       ebLhsize := ebLhsize w + n\<rparr>"

lemma length_puthead: "length (puthead s l sz) = headsize sz"
  by (simp add: puthead_def headsize_def length_putint Let_def)

lemma unat_of_nat_u64: "n < 2 ^ 64 \<Longrightarrow> unat (of_nat n :: u64) = n"
  by (simp add: unat_of_nat)

lemma ucast_of_nat_u64: "n < 2 ^ 64 \<Longrightarrow> ucast (of_nat n :: u64) = (of_nat n :: u8)"
  by (metis of_nat_unat unat_of_nat_u64)

lemma encodeStringHeader_str_head:
  "n < 2 ^ 64 \<Longrightarrow> encbuf_encodeStringHeader n w = encbuf_Write (str_head n) w"
  by (auto simp: encbuf_encodeStringHeader_def str_head_def puthead_def Let_def word_less_nat_alt unat_of_nat_u64
    ucast_of_nat_u64)

lemma encodeString_rlp:
  assumes "length b < 2 ^ 64"
  shows "encbuf_encodeString b w = encbuf_Write (rlp_string b) w"
proof -
  have lt: "b < 0x80 \<longleftrightarrow> b \<le> 0x7F" for b :: u8
    by (auto simp: word_less_nat_alt word_le_nat_alt)
  have "length b = 1 \<Longrightarrow> b = [b ! 0] \<and> hd b = b ! 0" by (cases b) simp_all
  then show ?thesis using assms
    by (auto simp: encbuf_encodeString_def rlp_string_def lt encbuf_Write_def encodeStringHeader_str_head)
qed

lemma length_rlp_parts:
  "length (rlp it) = length (strs it) + hsize (heads it)"
  "length (concat (map rlp its)) = length (strs_list its) + hsize (heads_list its)"
proof -
  have "length (render s hs p) = length s - p + hsize hs"
    if "heads_ok hs p (length s)" for s hs p
    using that
  proof (induction hs arbitrary: p)
    case (Cons h hs)
    then show ?case using heads_ok_le [of hs "lhOffset h" "length s"] by simp
  qed simp
  from this [OF heads_ok_heads(1)] this [OF heads_ok_heads(2)]
  show "length (rlp it) = length (strs it) + hsize (heads it)"
    "length (concat (map rlp its)) = length (strs_list its) + hsize (heads_list its)"
    by (simp_all add: render_heads)
qed

lemma write_item_adds:
  "length (rlp it) < 2 ^ 64 \<Longrightarrow>
   write_item it w = encbuf_add (strs it) (heads it) (hsize (heads it)) w"
  "length (concat (map rlp its)) < 2 ^ 64 \<Longrightarrow>
   write_items its w = encbuf_add (strs_list its) (heads_list its)
     (hsize (heads_list its)) w"
proof (induction it and its arbitrary: w and w rule: rlp_item_inducts)
  case (Str b)
  have "length b < 2 ^ 64" using Str by (auto simp: rlp_string_def split: if_splits)
  then show ?case by (simp add: encodeString_rlp encbuf_Write_def)
next
  case (Lst xs)
  then have l: "length (concat (map rlp xs)) < 2 ^ 64" by (simp add: Let_def)
  have n: "(of_nat (length (concat (map rlp xs))) :: u64) < 56 \<longleftrightarrow> length (concat (map rlp xs)) < 56"
    using l by (simp add: word_less_nat_alt unat_of_nat)
  have e: "length (listhead_encode \<lparr>lhOffset = 0, lhSize = length (concat (map rlp xs))\<rparr>) =
      (if length (concat (map rlp xs)) < 56 then 1 else 1 + intsize (of_nat (length (concat (map rlp xs)))))"
    unfolding listhead_encode_def length_puthead headsize_def using n by simp
  have s: "length (strs_list xs) + hsize (heads_list xs) = length (concat (map rlp xs))"
    using length_rlp_parts(2) [of xs] by simp
  show ?case
    unfolding write_item.simps strs.simps heads.simps hsize_simps e
    by (simp add: Lst.IH [OF l] s encbuf_list_def encbuf_listEnd_def encbuf_size_def nth_append list_update_append
      Let_def del: length_concat)
next
  case (Cons x xs)
  then show ?case by (simp add: add.assoc comp_def)
qed (simp_all add: encbuf_Write_def)

lemma copy_at_eq:
  "pos + length src \<le> length out \<Longrightarrow> copy_at out pos src = take pos out @ src @ drop (pos + length src) out"
  by (simp add: copy_at_def copy_into_def ac_simps)

lemma copy_at_twice:
  "pos + length a + length b \<le> length out \<Longrightarrow>
   copy_at (copy_at out pos a) (pos + length a) b = take pos out @ a @ b @ drop (pos + length a + length b) out"
proof -
  assume len: "pos + length a + length b \<le> length out"
  let ?x = "take pos out @ a" and ?y = "drop (pos + length a) out"
  have "copy_at out pos a = ?x @ ?y" using len by (simp add: copy_at_eq)
  moreover have "copy_at (x @ ?y) (length x) b = x @ copy_into ?y b" for x by (simp add: copy_at_def)
  moreover have "length ?x = pos + length a" using len by simp
  ultimately have "copy_at (copy_at out pos a) (pos + length a) b = ?x @ copy_into ?y b" by metis
  then show ?thesis using len by (simp add: copy_into_def ac_simps)
qed

lemma toBytes_loop_render:
  "heads_ok hs p (length str) \<Longrightarrow> q + length (render str hs p) = length out \<Longrightarrow>
   encbuf_toBytes_loop str hs p q out = Some (take q out @ render str hs p)"
proof (induction hs arbitrary: p q out)
  case Nil
  then show ?case by (simp add: copy_at_def copy_into_def)
next
  case (Cons h hs)
  let ?enc = "listhead_encode h" and ?piece = "take (lhOffset h - p) (drop p str)"
  let ?out1 = "copy_at out q ?piece" and ?q = "q + length ?piece"
  let ?out2 = "copy_at ?out1 ?q ?enc"
  have le: "p \<le> lhOffset h" "lhOffset h \<le> length str" and ok: "heads_ok hs (lhOffset h) (length str)"
    using Cons.prems(1) heads_ok_le by auto
  have len: "?q + length ?enc + length (render str hs (lhOffset h)) = length out"
    using Cons.prems(2) by simp
  have m: "min (length out - q) (length ?piece) = length ?piece" using len by linarith
  have pp: "p + length ?piece = lhOffset h" using le by simp
  have o2: "?out2 = take q out @ ?piece @ ?enc @ drop (?q + length ?enc) out"
    by (rule copy_at_twice) (use len in linarith)
  have l2: "length ?out2 = length out"
    unfolding o2 using len by (simp only: length_append length_take length_drop) linarith
  have "length (take q out @ ?piece @ ?enc) = ?q + length ?enc"
    using len by simp
  then have t2: "take (?q + length ?enc) ((take q out @ ?piece @ ?enc) @ r) = take q out @ ?piece @ ?enc" for r
    by (metis append_eq_conv_conj)
  have "encbuf_toBytes_loop str (h # hs) p q out = encbuf_toBytes_loop str hs (lhOffset h) (?q + length ?enc) ?out2"
    unfolding encbuf_toBytes_loop.simps Let_def m pp using le len by (subst if_not_P, linarith)+ (rule refl)
  also have "\<dots> = Some (take (?q + length ?enc) ?out2 @ render str hs (lhOffset h))"
    by (intro Cons.IH ok) (use len l2 in linarith)
  also have "take (?q + length ?enc) ?out2 = take q out @ ?piece @ ?enc"
    using t2 [of "drop (?q + length ?enc) out"] unfolding o2 append_assoc .
  finally show ?case by simp
qed

section \<open>The streaming outputs\<close>

lemma toWriter_loop_render:
  "heads_ok hs p (length str) \<Longrightarrow> encbuf_toWriter_loop str hs p out = Some (out @ render str hs p)"
proof (induction hs arbitrary: p out)
  case (Cons h hs)
  then have "lhOffset h \<le> length str" using heads_ok_le by auto
  then show ?case using Cons by (cases "lhOffset h = p") (simp_all add: Let_def)
qed simp

lemma EncodeToBytes_rlp: "length (rlp it) < 2 ^ 64 \<Longrightarrow> EncodeToBytes it = Some (rlp it)"
  using toBytes_loop_render [OF heads_ok_heads(1) [of it], of 0 "replicate (length (rlp it)) 0"] length_rlp_parts(1) [of it]
  by (simp add: EncodeToBytes_def encbuf_toBytes_def write_item_adds encbuf_empty_def encbuf_reset_def encbuf_size_def render_heads)

lemma Encode_rlp: "length (rlp it) < 2 ^ 64 \<Longrightarrow> Encode it = Some (rlp it)"
  using toWriter_loop_render [OF heads_ok_heads(1) [of it], of "[]"]
  by (simp add: Encode_def encbuf_toWriter_def write_item_adds encbuf_empty_def encbuf_reset_def render_heads)

definition pending :: "encReader \<Rightarrow> bytes" where
  "pending r =
     (case erBuf r of
        None \<Rightarrow> []
      | Some buf \<Rightarrow> (case erPiece r of None \<Rightarrow> [] | Some p \<Rightarrow> p)
          @ render (ebStr buf) (drop (erLhpos r) (ebLheads buf)) (erStrpos r))"

definition reader_ok :: "encReader \<Rightarrow> bool" where
  "reader_ok r =
     (case erBuf r of
        None \<Rightarrow> True
      | Some buf \<Rightarrow> heads_ok (drop (erLhpos r) (ebLheads buf)) (erStrpos r) (length (ebStr buf)))"

lemma listhead_encode_nonempty: "listhead_encode h \<noteq> []"
  by (simp add: listhead_encode_def puthead_def Let_def)

lemma next_None: "encReader_next r = Some (None, r') \<Longrightarrow> pending r = []"
  by (auto simp: encReader_next_def pending_def Let_def split: option.splits if_splits)

lemma next_Some:
  assumes "encReader_next r = Some (Some x, r')" "reader_ok r"
  shows "pending r = x @ pending (r'\<lparr>erPiece := None\<rparr>) \<and> reader_ok (r'\<lparr>erPiece := None\<rparr>) \<and> erBuf r' \<noteq> None"
proof -
  obtain buf where b: "erBuf r = Some buf" using assms by (auto simp: encReader_next_def split: option.splits)
  show ?thesis
  proof (cases "erPiece r")
    case (Some y)
    then show ?thesis using assms b by (auto simp: encReader_next_def pending_def reader_ok_def)
  next
    case None
    show ?thesis
    proof (cases "erLhpos r < length (ebLheads buf)")
      case True
      then have "drop (erLhpos r) (ebLheads buf) = ebLheads buf ! erLhpos r # drop (Suc (erLhpos r)) (ebLheads buf)"
        by (rule Cons_nth_drop_Suc [symmetric])
      then show ?thesis using assms b None True
        by (auto simp: encReader_next_def pending_def reader_ok_def Let_def split: if_splits)
    next
      case False
      then show ?thesis using assms b None
        by (auto simp: encReader_next_def pending_def reader_ok_def split: if_splits)
    qed
  qed
qed

lemma next_total: "reader_ok r \<Longrightarrow> encReader_next r \<noteq> None"
proof -
  assume ok: "reader_ok r"
  have "lhOffset (ebLheads buf ! erLhpos r) \<le> length (ebStr buf)"
    if "erBuf r = Some buf" "erLhpos r < length (ebLheads buf)" for buf
    using ok that heads_ok_le by (auto simp: reader_ok_def simp flip: Cons_nth_drop_Suc)
  then show ?thesis by (auto simp: encReader_next_def Let_def leD split: option.splits)
qed

lemma Read_loop_spec:
  "reader_ok r \<Longrightarrow> length out \<le> cap \<Longrightarrow>
   \<exists>r'. encReader_Read_loop cap out r =
          Some (out @ take (cap - length out) (pending r), length (pending r) \<le> cap - length out, r') \<and>
        reader_ok r' \<and> pending r' = drop (cap - length out) (pending r)"
proof (induction cap out r rule: encReader_Read_loop.induct)
  case (1 cap out r)
  obtain p r1 where n: "encReader_next r = Some (p, r1)" using next_total [OF 1(2)] by auto
  show ?case
  proof (cases p)
    case None
    then show ?thesis using n next_None [of r r1]
      by (subst encReader_Read_loop.simps) (simp add: reader_ok_def pending_def)
  next
    case (Some x)
    let ?r2 = "r1\<lparr>erPiece := None\<rparr>" and ?nn = "min (cap - length out) (length x)"
    have x: "pending r = x @ pending ?r2" "reader_ok ?r2" "erBuf r1 \<noteq> None"
      using next_Some n Some 1(2) by blast+
    show ?thesis
    proof (cases "?nn < length x")
      case True
      then show ?thesis using n Some x
        by (subst encReader_Read_loop.simps) (auto simp: Let_def reader_ok_def pending_def min_def)
    next
      case False
      then have le: "length x \<le> cap - length out" by simp
      have "\<exists>r'. encReader_Read_loop cap (out @ x) ?r2 =
          Some ((out @ x) @ take (cap - length (out @ x)) (pending ?r2), length (pending ?r2) \<le> cap - length (out @ x), r') \<and>
        reader_ok r' \<and> pending r' = drop (cap - length (out @ x)) (pending ?r2)"
        using 1(1) [OF n _ _ refl refl] Some x(2) le 1(3) by (simp add: min_def)
      then show ?thesis using n Some le 1(3)
        by (subst encReader_Read_loop.simps) (auto simp: Let_def x(1) min_def)
    qed
  qed
qed

text \<open>Successive reads into buffers of the given sizes; the outputs in order.\<close>

primrec encReader_reads :: "nat list \<Rightarrow> encReader \<Rightarrow> bytes list option" where
  "encReader_reads [] r = Some []"
| "encReader_reads (cap # caps) r =
     (case encReader_Read cap r of
        None \<Rightarrow> None
      | Some (out, eof, r') \<Rightarrow> map_option (Cons out) (encReader_reads caps r'))"

lemma reads_spec:
  "reader_ok r \<Longrightarrow> \<exists>outs. encReader_reads caps r = Some outs \<and> concat outs = take (sum_list caps) (pending r)"
proof (induction caps arbitrary: r)
  case (Cons cap caps)
  obtain r' where r': "encReader_Read cap r = Some (take cap (pending r), length (pending r) \<le> cap, r')"
    "reader_ok r'" "pending r' = drop cap (pending r)"
    using Read_loop_spec [OF Cons.prems, of "[]" cap] by (auto simp: encReader_Read_def)
  then show ?case using Cons.IH [of r'] by (auto simp: take_add)
qed simp

lemma EncodeToReader_start:
  assumes "length (rlp it) < 2 ^ 64" "EncodeToReader it = (n, r)"
  shows "n = length (rlp it) \<and> pending r = rlp it \<and> reader_ok r"
  using assms length_rlp_parts(1) [of it] heads_ok_heads(1) [of it]
  by (auto simp: EncodeToReader_def Let_def write_item_adds encbuf_empty_def encbuf_reset_def encbuf_size_def
    render_heads pending_def reader_ok_def)

section \<open>Integers are written as their minimal bytes\<close>

definition uint_bytes :: "u64 \<Rightarrow> bytes" where
  "uint_bytes i = (if i = 0 then [] else putint i)"

lemma encodeString_small: "length b \<le> 8 \<Longrightarrow> length b \<noteq> 1 \<or> b ! 0 > 0x7F \<Longrightarrow>
  encbuf_encodeString b w = encbuf_Write ((0x80 + of_nat (length b)) # b) w"
  by (auto simp: encbuf_encodeString_def encbuf_encodeStringHeader_def encbuf_Write_def)

lemma writeUint_encodeString: "writeUint i w = encbuf_encodeString (uint_bytes i) w"
proof -
  consider "i = 0" | "i \<noteq> 0" "i < 128" | "128 \<le> i" by force
  then show ?thesis
  proof cases
    case 1
    then show ?thesis by (simp add: writeUint_def uint_bytes_def encodeString_small)
  next
    case 2
    then have "putint i = [ucast i]" by (auto simp: putint_def word_less_nat_alt)
    moreover have "(ucast i :: u8) \<le> 0x7F"
      using 2 by (simp add: word_le_nat_alt word_less_nat_alt unsigned_ucast_eq take_bit_nat_eq_self)
    ultimately show ?thesis using 2 by (simp add: writeUint_def uint_bytes_def encbuf_encodeString_def)
  next
    case 3
    have "length (putint i) \<noteq> 1 \<or> putint i ! 0 > 0x7F"
    proof (cases "i < 256")
      case True
      then have "unat (ucast i :: u8) = unat i" by (simp add: word_less_nat_alt unsigned_ucast_eq take_bit_nat_eq_self)
      then have "(ucast i :: u8) > 0x7F" using 3 by (simp add: word_less_nat_alt word_le_nat_alt)
      then show ?thesis using True by (simp add: putint_def)
    qed (simp add: putint_def)
    then show ?thesis using 3 intsize_bounds [of i]
      by (auto simp: writeUint_def uint_bytes_def encodeString_small length_putint word_less_nat_alt word_le_nat_alt)
  qed
qed

lemma writeBool_encodeString: "writeBool b w = encbuf_encodeString (if b then [1] else []) w"
  by (simp add: writeBool_def encbuf_encodeString_def encbuf_encodeStringHeader_def encbuf_Write_def)

lemma nat_bytes_0 [simp]: "nat_bytes 0 = []"
  by (subst nat_bytes.simps) simp

lemma writeBigInt_encodeString: "0 \<le> i \<Longrightarrow> writeBigInt i w = Some (encbuf_encodeString (nat_bytes (nat i)) w)"
  by (simp add: writeBigInt_def encodeString_small)

section \<open>Properties\<close>

text \<open>C20. The encoder, which writes all string data into one buffer and the list headers into another and merges the two
  by offset at the end, returns the encoding defined by recursion over the value: the header of every string and
  list in front of its content.\<close>

theorem EncodeToBytes_spec: "length (rlp it) < 2 ^ 64 \<Longrightarrow> EncodeToBytes it = Some (rlp it)"
  by (rule EncodeToBytes_rlp)

theorem EncodeToBytes_spec_witness:
  "EncodeToBytes (Lst [Str [0x64, 0x6F, 0x67], Lst [], Str [0x05]]) = Some [0xC6, 0x83, 0x64, 0x6F, 0x67, 0xC0, 0x05]"
  using EncodeToBytes_spec [of "Lst [Str [0x64, 0x6F, 0x67], Lst [], Str [0x05]]"]
  by (simp add: rlp_string_def str_head_def list_head_def puthead_def)

text \<open>C21. The streaming outputs agree with it: \<^verbatim>\<open>Encode\<close> writes the same bytes, and the reader of \<^verbatim>\<open>EncodeToReader\<close>, read
  in chunks of any sizes, delivers them in order and announces their number beforehand.\<close>

theorem EncodeToReader_chunks:
  assumes "length (rlp it) < 2 ^ 64" "EncodeToReader it = (n, r)"
  shows "n = length (rlp it) \<and> Encode it = Some (rlp it) \<and>
    (\<exists>outs. encReader_reads caps r = Some outs \<and> concat outs = take (sum_list caps) (rlp it))"
  using EncodeToReader_start [OF assms] Encode_rlp [OF assms(1)] reads_spec [of r caps] by auto

theorem EncodeToReader_chunks_witness:
  "\<exists>outs. encReader_reads [2, 0, 3] (snd (EncodeToReader (Lst [Str [0x64, 0x6F, 0x67]]))) = Some outs \<and>
     concat outs = [0xC4, 0x83, 0x64, 0x6F, 0x67]"
  using EncodeToReader_chunks [OF _ prod.collapse [symmetric], of "Lst [Str [0x64, 0x6F, 0x67]]" "[2, 0, 3]"]
  by (simp add: rlp_string_def str_head_def list_head_def puthead_def)

end
