(* ===== verification/Rlp_Raw.thy ===== *)
theory Rlp_Raw
  imports Rlp_Encode
begin

text \<open>
  Splitting encoded values without decoding them (\<^verbatim>\<open>rlp/raw.go\<close>). Slices are lists of at most
  \<open>2^63 - 1\<close> bytes, the range of Go's \<^verbatim>\<open>int\<close>; the sizes are kept as 64-bit words.
\<close>

datatype Kind = Byte | String | List

datatype rlp_error =
    EOL | ErrExpectedString | ErrExpectedList | ErrCanonInt | ErrCanonSize | ErrElemTooLarge
  | ErrValueTooLarge | ErrMoreThanOneValue | errNotInList | errNotAtEOL | errUintOverflow
  | EOF | ErrUnexpectedEOF | errInvalidBool | decodeError string

definition readSize :: "bytes \<Rightarrow> u8 \<Rightarrow> rlp_error + u64" where
  "readSize b slen =
     (if unat slen > length b then Inl ErrUnexpectedEOF
      else
        let at = \<lambda>i n. push_bit n (ucast (b ! i) :: u64);
            s = (if slen = 1 then at 0 0
                 else if slen = 2 then at 0 8 OR at 1 0
                 else if slen = 3 then at 0 16 OR at 1 8 OR at 2 0
                 else if slen = 4 then at 0 24 OR at 1 16 OR at 2 8 OR at 3 0
                 else if slen = 5 then at 0 32 OR at 1 24 OR at 2 16 OR at 3 8 OR at 4 0
                 else if slen = 6 then at 0 40 OR at 1 32 OR at 2 24 OR at 3 16 OR at 4 8 OR at 5 0
                 else if slen = 7 then
                   at 0 48 OR at 1 40 OR at 2 32 OR at 3 24 OR at 4 16 OR at 5 8 OR at 6 0
                 else if slen = 8 then
                   at 0 56 OR at 1 48 OR at 2 40 OR at 3 32 OR at 4 24 OR at 5 16 OR at 6 8 OR at 7 0
                 else 0)
        in if s < 56 \<or> b ! 0 = 0 then Inl ErrCanonSize else Inr s)"

definition readKind :: "bytes \<Rightarrow> rlp_error + (Kind \<times> u64 \<times> u64)" where
  "readKind buf =
     (if length buf = 0 then Inl ErrUnexpectedEOF
      else
        let b = buf ! 0;
            check = \<lambda>k tagsize contentsize.
              if contentsize > of_nat (length buf) - tagsize then Inl ErrValueTooLarge
              else Inr (k, tagsize, contentsize)
        in if b < 0x80 then check Byte 0 1
           else if b < 0xB8 then
             if ucast (b - 0x80) = (1 :: u64) \<and> length buf > 1 \<and> buf ! 1 < 128 then Inl ErrCanonSize
             else check String 1 (ucast (b - 0x80))
           else if b < 0xC0 then
             (case readSize (drop 1 buf) (b - 0xB7) of
                Inl err \<Rightarrow> Inl err
              | Inr contentsize \<Rightarrow> check String (ucast (b - 0xB7) + 1) contentsize)
           else if b < 0xF8 then check List 1 (ucast (b - 0xC0))
           else
             (case readSize (drop 1 buf) (b - 0xF7) of
                Inl err \<Rightarrow> Inl err
              | Inr contentsize \<Rightarrow> check List (ucast (b - 0xF7) + 1) contentsize))"

text \<open>\<open>None\<close> is a slice out of range.\<close>

definition Split :: "bytes \<Rightarrow> (rlp_error + (Kind \<times> bytes \<times> bytes)) option" where
  "Split b =
     (case readKind b of
        Inl err \<Rightarrow> Some (Inl err)
      | Inr (k, ts, cs) \<Rightarrow>
          if unat (ts + cs) > length b \<or> ts > ts + cs then None
          else Some (Inr (k, take (unat (ts + cs) - unat ts) (drop (unat ts) b), drop (unat (ts + cs)) b)))"

definition SplitString :: "bytes \<Rightarrow> (rlp_error + (bytes \<times> bytes)) option" where
  "SplitString b =
     (case Split b of
        None \<Rightarrow> None
      | Some (Inl err) \<Rightarrow> Some (Inl err)
      | Some (Inr (k, content, rest)) \<Rightarrow>
          Some (if k = List then Inl ErrExpectedString else Inr (content, rest)))"

definition SplitList :: "bytes \<Rightarrow> (rlp_error + (bytes \<times> bytes)) option" where
  "SplitList b =
     (case Split b of
        None \<Rightarrow> None
      | Some (Inl err) \<Rightarrow> Some (Inl err)
      | Some (Inr (k, content, rest)) \<Rightarrow>
          Some (if k \<noteq> List then Inl ErrExpectedList else Inr (content, rest)))"

text \<open>The loop of \<^verbatim>\<open>CountValues\<close>, with fuel.\<close>

primrec CountValues_loop :: "nat \<Rightarrow> nat \<Rightarrow> bytes \<Rightarrow> (rlp_error + nat) option" where
  "CountValues_loop 0 i b = None"
| "CountValues_loop (Suc fuel) i b =
     (if length b = 0 then Some (Inr i)
      else case readKind b of
             Inl err \<Rightarrow> Some (Inl err)
           | Inr (k, tagsize, sz) \<Rightarrow>
               if unat (tagsize + sz) > length b then None
               else CountValues_loop fuel (i + 1) (drop (unat (tagsize + sz)) b))"

definition CountValues :: "nat \<Rightarrow> bytes \<Rightarrow> (rlp_error + nat) option" where
  "CountValues fuel b = CountValues_loop fuel 0 b"

section \<open>Headers\<close>

lemma be_word_take_Suc:
  "n < length b \<Longrightarrow> be_word (take (Suc n) b) = push_bit 8 (be_word (take n b)) OR ucast (b ! n)"
  by (simp add: take_Suc_conv_app_nth be_word_append1)

lemma be_word_take_numeral:
  "pred_numeral k < length b \<Longrightarrow>
   be_word (take (numeral k) b) = push_bit 8 (be_word (take (pred_numeral k) b)) OR ucast (b ! pred_numeral k)"
  by (simp add: numeral_eq_Suc be_word_take_Suc)

lemma byte_1_8:
  assumes "1 \<le> slen" "slen \<le> (8 :: u8)"
  shows "slen = 1 \<or> slen = 2 \<or> slen = 3 \<or> slen = 4 \<or> slen = 5 \<or> slen = 6 \<or> slen = 7 \<or> slen = 8"
proof -
  have "unat slen = 1 \<or> unat slen = 2 \<or> unat slen = 3 \<or> unat slen = 4 \<or> unat slen = 5 \<or> unat slen = 6 \<or>
      unat slen = 7 \<or> unat slen = 8"
    using assms by (auto simp: word_le_nat_alt)
  then show ?thesis by (auto simp: word_unat_eq_iff)
qed

lemma readSize_be_word:
  assumes "1 \<le> slen" "slen \<le> 8"
  shows "readSize b slen =
     (if unat slen > length b then Inl ErrUnexpectedEOF
      else let s = be_word (take (unat slen) b) in if s < 56 \<or> b ! 0 = 0 then Inl ErrCanonSize else Inr s)"
proof (cases "unat slen > length b")
  case False
  then have "0 < length b" using assms by (auto simp: word_le_nat_alt)
  then have 1: "be_word (take (Suc 0) b) = (ucast (b ! 0) :: u64)"
    using be_word_take_Suc [of 0 b] by (simp add: be_word_def)
  show ?thesis using byte_1_8 [OF assms] False
    by (elim disjE) (simp_all add: readSize_def be_word_take_numeral 1 push_bit_or push_bit_push_bit or.assoc)
qed (simp add: readSize_def)

lemma byte_sub: "a \<le> b \<Longrightarrow> unat (b - a) = unat b - unat (a :: u8)"
  by (simp add: unat_sub)

lemma head_small: "n < 56 \<Longrightarrow> puthead t l (of_nat n) = [t + of_nat n]"
  by (simp add: puthead_def word_less_nat_alt unat_of_nat_u64 ucast_of_nat_u64)

lemma head_large:
  "\<not> n < 56 \<Longrightarrow> n < 2 ^ 64 \<Longrightarrow>
   puthead t l (of_nat n) = (l + of_nat (length (putint (of_nat n)))) # putint (of_nat n)"
  by (simp add: puthead_def word_less_nat_alt unat_of_nat_u64 Let_def)

text \<open>The size bytes of a long header, read back.\<close>

lemma readSize_sound:
  assumes "readSize bs slen = Inr z" "1 \<le> slen" "slen \<le> 8"
  shows "56 \<le> unat z \<and> length (putint z) = unat slen \<and> bs = putint z @ drop (unat slen) bs"
proof -
  let ?s = "be_word (take (unat slen) bs) :: u64"
  have z: "unat slen \<le> length bs" "z = ?s" "56 \<le> z" "bs ! 0 \<noteq> 0"
    using assms by (auto simp: readSize_be_word Let_def split: if_splits)
  have n: "0 < unat slen" "unat slen \<le> 8" using assms(2,3) by (simp_all add: word_le_nat_alt)
  then have "take (unat slen) bs \<noteq> []" "hd (take (unat slen) bs) = bs ! 0"
    using z(1) by (cases bs; auto)+
  then have p: "putint z = take (unat slen) bs" using z n by (auto intro: putint_be_word)
  then have "length (putint z) = unat slen" using z(1) by simp
  moreover have "bs = putint z @ drop (unat slen) bs" unfolding p by simp
  ultimately show ?thesis using z(3) by (simp add: word_le_nat_alt)
qed

lemma readSize_putint:
  assumes "56 \<le> z"
  shows "readSize (putint z @ bs) (of_nat (length (putint z))) = Inr z"
proof -
  have l: "1 \<le> length (putint z)" "length (putint z) \<le> 8" unfolding length_putint by (rule intsize_bounds)+
  then have u: "unat (of_nat (length (putint z)) :: u8) = length (putint z)" by (simp add: unat_of_nat)
  have "z \<noteq> 0" using assms by auto
  then have "(putint z @ bs) ! 0 \<noteq> 0" using hd_putint [of z] l by (cases "putint z") auto
  then show ?thesis using assms l u
    by (subst readSize_be_word) (simp_all add: word_le_nat_alt Let_def be_word_putint linorder_not_less)
qed

section \<open>Splitting is the inverse of encoding\<close>

text \<open>The encoding of content \<open>c\<close> as a value of kind \<open>k\<close>.\<close>

definition enc_kind :: "Kind \<Rightarrow> bytes \<Rightarrow> bytes" where
  "enc_kind k c = (if k = List then list_head (length c) @ c else rlp_string c)"

definition kind_ok :: "Kind \<Rightarrow> bytes \<Rightarrow> bool" where
  "kind_ok k c = (k = List \<or> (k = Byte \<longleftrightarrow> length c = 1 \<and> hd c < 0x80))"

text \<open>Content of \<open>z\<close> bytes behind a header.\<close>

lemma content_small:
  assumes "z < 56" "z \<le> length bs" "k = String \<and> t = 0x80 \<and> kind_ok String (take z bs) \<or> k = List \<and> t = 0xC0"
  shows "(t + of_nat z) # bs = enc_kind k (take z bs) @ drop z bs \<and> kind_ok k (take z bs)"
  using assms by (auto simp: enc_kind_def kind_ok_def rlp_string_def str_head_def list_head_def head_small min_def)

lemma content_large:
  assumes "56 \<le> unat z" "unat z \<le> length bs" "k = String \<and> l = 0xB7 \<or> k = List \<and> l = 0xF7"
  shows "(l + of_nat (length (putint z))) # putint z @ bs = enc_kind k (take (unat z) bs) @ drop (unat z) bs
    \<and> kind_ok k (take (unat z) bs)"
proof -
  have l: "length (take (unat z) bs) = unat z" using assms(2) by simp
  then have "\<not> (length (take (unat z) bs) = 1 \<and> P)" for P using assms(1) by simp
  moreover have "puthead t l (of_nat (unat z)) = (l + of_nat (length (putint z))) # putint z" for t
    using assms(1) head_large [of "unat z" t l] unsigned_less [of z, where ?'a = nat] by simp
  ultimately show ?thesis using assms(3)
    unfolding enc_kind_def kind_ok_def rlp_string_def str_head_def list_head_def l by auto
qed

lemma byte_cases:
  obtains "(b :: u8) < 0x80" | "0x80 \<le> b" "b < 0xB8" | "0xB8 \<le> b" "b < 0xC0" | "0xC0 \<le> b" "b < 0xF8" | "0xF8 \<le> b"
  by (meson linorder_not_less)

lemma long_tag:
  "0xB8 \<le> b \<Longrightarrow> b < 0xC0 \<Longrightarrow> 1 \<le> b - 0xB7 \<and> b - 0xB7 \<le> (8 :: u8) \<and> unat (b - 0xB7) = unat b - 0xB7"
  "0xF8 \<le> b \<Longrightarrow> 1 \<le> b - 0xF7 \<and> b - 0xF7 \<le> (8 :: u8) \<and> unat (b - 0xF7) = unat b - 0xF7"
  using unat_byte [of b] by (auto simp: word_le_nat_alt word_less_nat_alt byte_sub)

lemma room_check:
  assumes "z \<le> of_nat n - of_nat m" "m \<le> n" "n < 2 ^ 63"
  shows "unat (z :: u64) \<le> n - m"
proof -
  have "(of_nat n - of_nat m :: u64) = of_nat (n - m)" using assms(2) by (simp add: of_nat_diff)
  then have "unat (of_nat n - of_nat m :: u64) = n - m"
    using assms(3) unat_of_nat_u64 [of "n - m"] by simp
  then show ?thesis using assms(1) by (simp add: word_le_nat_alt)
qed

text \<open>The buffer starts with content of kind \<open>k\<close> behind a header of \<open>ts\<close> bytes.\<close>

abbreviation starts_with :: "bytes \<Rightarrow> Kind \<Rightarrow> u64 \<Rightarrow> u64 \<Rightarrow> bool" where
  "starts_with buf k ts cs \<equiv>
     \<exists>c r. buf = enc_kind k c @ r \<and> kind_ok k c \<and> cs = of_nat (length c) \<and> length c < 2 ^ 63 \<and>
           ts = of_nat (length (enc_kind k c) - length c)"

lemma starts_small:
  assumes "length bs < 2 ^ 63" "unat z < 56" "unat z \<le> length bs" "b = t + of_nat (unat z)"
    "k = String \<and> t = 0x80 \<and> kind_ok String (take (unat z) bs) \<or> k = List \<and> t = 0xC0"
  shows "starts_with (b # bs) k 1 z"
proof (intro exI conjI)
  let ?c = "take (unat z) bs" and ?r = "drop (unat z) bs"
  note e = content_small [OF assms(2,3,5)]
  show 1: "b # bs = enc_kind k ?c @ ?r" using e assms(4) by simp
  show "kind_ok k ?c" using e by simp
  show "z = of_nat (length ?c)" "length ?c < 2 ^ 63" using assms(1,3) by simp_all
  have "length (b # bs) = length (enc_kind k ?c) + length ?r" unfolding 1 by simp
  then have "length (enc_kind k ?c) - length ?c = 1" using assms(3) by simp
  then show "1 = (of_nat (length (enc_kind k ?c) - length ?c) :: u64)" by simp
qed

lemma starts_large:
  assumes "length bs < 2 ^ 63 - 1" "readSize bs slen = Inr z" "1 \<le> slen" "slen \<le> 8" "b = l + slen"
    "z \<le> of_nat (length (b # bs)) - (ucast slen + 1)" "k = String \<and> l = 0xB7 \<or> k = List \<and> l = 0xF7"
  shows "starts_with (b # bs) k (ucast slen + 1) z"
proof (intro exI conjI)
  let ?bs = "drop (unat slen) bs"
  let ?c = "take (unat z) ?bs" and ?r = "drop (unat z) ?bs"
  have z: "56 \<le> unat z" "length (putint z) = unat slen" "bs = putint z @ ?bs"
    using readSize_sound [OF assms(2-4)] by blast+
  then have le: "unat slen + length ?bs = length bs" by (metis length_append)
  have ts: "ucast slen + 1 = (of_nat (unat slen + 1) :: u64)" by simp
  have "unat z \<le> length (b # bs) - (unat slen + 1)"
    using assms(1,6) le unfolding ts by (intro room_check) auto
  then have zl: "unat z \<le> length ?bs" using le by simp
  note e = content_large [OF z(1) zl assms(7)]
  have "b # bs = (l + of_nat (length (putint z))) # putint z @ ?bs" using z(2,3) assms(5) by simp
  then show 1: "b # bs = enc_kind k ?c @ ?r" using e by simp
  show "kind_ok k ?c" using e by simp
  show "z = of_nat (length ?c)" "length ?c < 2 ^ 63" using zl le assms(1) by simp_all
  have "length (b # bs) = length (enc_kind k ?c) + length ?r" unfolding 1 by simp
  then have "length (enc_kind k ?c) - length ?c = unat slen + 1" using zl le by simp
  then show "ucast slen + 1 = (of_nat (length (enc_kind k ?c) - length ?c) :: u64)" using ts by simp
qed

lemma readKind_sound:
  assumes "readKind buf = Inr (k, ts, cs)" "length buf < 2 ^ 63"
  shows "starts_with buf k ts cs"
proof -
  obtain b bs where buf: "buf = b # bs" using assms by (cases buf) (auto simp: readKind_def)
  have len: "length bs < 2 ^ 63 - 1" "length bs < 2 ^ 63" using assms(2) buf by simp_all
  have room: "unat z \<le> length bs" if "z \<le> of_nat (length buf) - 1" for z :: u64
    using room_check [of z "length buf" 1] that assms(2) buf by simp
  note cases = assms(1) [unfolded buf readKind_def, simplified, unfolded Let_def]
  show ?thesis
  proof (rule byte_cases [of b])
    assume 1: "b < 0x80"
    then have "k = Byte \<and> ts = 0 \<and> cs = 1" using cases by (auto split: if_splits)
    then show ?thesis using 1 buf
      by (intro exI [of _ "[b]"] exI [of _ bs]) (simp add: enc_kind_def kind_ok_def rlp_string_def)
  next
    assume 2: "0x80 \<le> b" "b < 0xB8"
    then have n: "\<not> b < 0x80" by (auto simp: word_less_nat_alt word_le_nat_alt)
    let ?z = "ucast (b - 0x80) :: u64"
    have u: "unat ?z = unat b - 0x80" using 2 by (simp add: unat_ucast_byte byte_sub)
    have c: "k = String" "ts = 1" "cs = ?z" "?z \<le> of_nat (length buf) - 1"
      "\<not> (?z = 1 \<and> 1 < length buf \<and> buf ! 1 < 128)"
      using cases 2 buf n by (auto simp: linorder_not_less split: if_splits)
    have "kind_ok String (take (unat ?z) bs)"
      using c(5) room [OF c(4)] buf by (cases bs) (auto simp: kind_ok_def word_unat_eq_iff)
    then show ?thesis using 2 room [OF c(4)] u unfolding c(1-3) buf
      by (intro starts_small [OF len(2)]) (auto simp: word_less_nat_alt word_le_nat_alt)
  next
    assume 3: "0xB8 \<le> b" "b < 0xC0"
    then have "\<not> b < 0x80" "\<not> b < 0xB8" by (auto simp: word_less_nat_alt word_le_nat_alt)
    with 3 obtain z where "readSize bs (b - 0xB7) = Inr z" "k = String" "ts = ucast (b - 0xB7) + 1" "cs = z"
      "z \<le> of_nat (length buf) - ts"
      using cases buf by (auto simp: linorder_not_less leD split: if_splits sum.splits)
    then show ?thesis using long_tag(1) [OF 3] buf len(1)
      starts_large [of bs "b - 0xB7" z b "0xB7" k] by auto
  next
    assume 4: "0xC0 \<le> b" "b < 0xF8"
    then have n: "\<not> b < 0x80" "\<not> b < 0xB8" "\<not> b < 0xC0" by (auto simp: word_less_nat_alt word_le_nat_alt)
    let ?z = "ucast (b - 0xC0) :: u64"
    have u: "unat ?z = unat b - 0xC0" using 4 by (simp add: unat_ucast_byte byte_sub)
    have c: "k = List" "ts = 1" "cs = ?z" "?z \<le> of_nat (length buf) - 1"
      using cases 4 buf n by (auto simp: linorder_not_less leD split: if_splits)
    show ?thesis using 4 room [OF c(4)] u unfolding c(1-3) buf
      by (intro starts_small [OF len(2)]) (auto simp: word_less_nat_alt word_le_nat_alt)
  next
    assume 5: "0xF8 \<le> b"
    then have "\<not> b < 0x80" "\<not> b < 0xB8" "\<not> b < 0xC0" by (auto simp: word_less_nat_alt word_le_nat_alt)
    with 5 obtain z where "readSize bs (b - 0xF7) = Inr z" "k = List" "ts = ucast (b - 0xF7) + 1" "cs = z"
      "z \<le> of_nat (length buf) - ts"
      using cases buf by (auto simp: linorder_not_less leD split: if_splits sum.splits)
    then show ?thesis using long_tag(2) [OF 5] buf len(1)
      starts_large [of bs "b - 0xF7" z b "0xF7" k] by auto
  qed
qed

lemma room_ok:
  assumes "n + m \<le> l" "l < 2 ^ 63"
  shows "(of_nat n :: u64) \<le> of_nat l - of_nat m"
proof -
  have "(of_nat l - of_nat m :: u64) = of_nat (l - m)" using assms(1) by (simp add: of_nat_diff)
  then show ?thesis using assms unat_of_nat_u64 [of n] unat_of_nat_u64 [of "l - m"] by (simp add: word_le_nat_alt)
qed

lemma readKind_small:
  assumes "n < 56" "length bs < 2 ^ 63 - 1" "n \<le> length bs"
  shows "\<not> (n = 1 \<and> bs ! 0 < 128) \<Longrightarrow> readKind ((0x80 + of_nat n) # bs) = Inr (String, 1, of_nat n)"
    "readKind ((0xC0 + of_nat n) # bs) = Inr (List, 1, of_nat n)"
proof -
  let ?b = "0x80 + of_nat n :: u8" and ?c = "0xC0 + of_nat n :: u8"
  have n: "unat (of_nat n :: u8) = n" using assms(1) by (simp add: unat_of_nat)
  have u: "unat ?b = 128 + n" "unat ?c = 192 + n" using assms(1) n by (simp_all add: unat_word_ariths)
  have s: "?b - 0x80 = of_nat n" "?c - 0xC0 = of_nat n" by simp_all
  have c: "ucast (of_nat n :: u8) = (of_nat n :: u64)" using n by (metis of_nat_unat)
  have r: "\<not> (of_nat n :: u64) > of_nat (length (x # bs)) - 1" for x
    using room_ok [of n 1 "length (x # bs)"] assms by simp
  have w1: "(1::u64) = of_nat n \<longleftrightarrow> n = 1" using assms(1) by (auto simp: word_unat_eq_iff unat_of_nat)
  show "readKind (?c # bs) = Inr (List, 1, of_nat n)"
    using u(2) assms(1) r [of ?c] unfolding readKind_def Let_def
    by (simp add: word_less_nat_alt [of _ "_ :: u8"] s c)
  show "readKind (?b # bs) = Inr (String, 1, of_nat n)" if "\<not> (n = 1 \<and> bs ! 0 < 128)"
    using u(1) assms(1) r [of ?b] that w1 unfolding readKind_def Let_def
    by (simp add: word_less_nat_alt [of _ "_ :: u8"] s c)
qed
lemma readKind_large:
  assumes "56 \<le> unat z" "length bs < 2 ^ 63 - 9" "unat z \<le> length bs"
  shows "readKind ((0xB7 + of_nat (length (putint z))) # putint z @ bs) =
      Inr (String, of_nat (length (putint z)) + 1, z)"
    "readKind ((0xF7 + of_nat (length (putint z))) # putint z @ bs) =
      Inr (List, of_nat (length (putint z)) + 1, z)"
proof -
  let ?n = "length (putint z)"
  let ?b = "0xB7 + of_nat ?n :: u8" and ?c = "0xF7 + of_nat ?n :: u8"
  have l: "1 \<le> ?n" "?n \<le> 8" unfolding length_putint by (rule intsize_bounds)+
  then have ne: "putint z \<noteq> []" by auto
  have n: "unat (of_nat ?n :: u8) = ?n" using l by (simp add: unat_of_nat)
  have u: "unat ?b = 183 + ?n" "unat ?c = 247 + ?n" using l n by (simp_all add: unat_word_ariths)
  have s: "?b - 0xB7 = of_nat ?n" "?c - 0xF7 = of_nat ?n" by simp_all
  have c: "ucast (of_nat ?n :: u8) = (of_nat ?n :: u64)" using n by (metis of_nat_unat)
  have rs: "readSize (putint z @ bs) (of_nat ?n) = Inr z"
    using assms(1) by (intro readSize_putint) (simp add: word_le_nat_alt)
  have r: "\<not> z > of_nat (length (x # putint z @ bs)) - (of_nat ?n + 1)" for x
    using room_ok [of "unat z" "?n + 1" "length (x # putint z @ bs)"] assms l by (simp add: ac_simps)
  show "readKind (?b # putint z @ bs) = Inr (String, of_nat ?n + 1, z)"
    using u(1) l r [of ?b] unfolding readKind_def Let_def
    by (simp add: word_less_nat_alt [of _ "_ :: u8"] s c rs ne)
  show "readKind (?c # putint z @ bs) = Inr (List, of_nat ?n + 1, z)"
    using u(2) l r [of ?c] unfolding readKind_def Let_def
    by (simp add: word_less_nat_alt [of _ "_ :: u8"] s c rs ne)
qed

lemma length_enc_kind:
  assumes "length (enc_kind k c) < 2 ^ 63"
  shows "length c \<le> length (enc_kind k c)" "length (enc_kind k c) \<le> length c + 9"
proof -
  have "length (puthead t l (of_nat n)) \<le> 9" for t l n
    using intsize_bounds [of "of_nat n"] by (simp add: length_puthead headsize_def)
  then show "length c \<le> length (enc_kind k c)" "length (enc_kind k c) \<le> length c + 9"
    by (auto simp: enc_kind_def rlp_string_def str_head_def list_head_def)
qed

lemma readKind_complete:
  assumes ok: "kind_ok k c" and len: "length (enc_kind k c @ r) < 2 ^ 63 - 9"
  shows "readKind (enc_kind k c @ r) = Inr (k, of_nat (length (enc_kind k c) - length c), of_nat (length c))"
proof -
  let ?n = "length c"
  have n: "?n < 2 ^ 64" using len length_enc_kind(1) [of k c] by simp
  have z: "unat (of_nat ?n :: u64) = ?n" using n by (rule unat_of_nat_u64)
  consider "k \<noteq> List" "?n = 1" "hd c < 0x80" | "k \<noteq> List" "\<not> (?n = 1 \<and> hd c < 0x80)" "?n < 56" | "k = List" "?n < 56"
    | "k \<noteq> List" "\<not> ?n < 56" | "k = List" "\<not> ?n < 56" by blast
  then show ?thesis
  proof cases
    case 1
    then obtain b where "c = [b]" "b < 0x80" by (cases c) auto
    moreover have "k = Byte" using 1 ok by (auto simp: kind_ok_def)
    moreover have "(1 :: u64) + of_nat (length r) \<noteq> 0"
      using len unat_of_nat_u64 [of "Suc (length r)"] \<open>c = [b]\<close> by (auto simp: enc_kind_def rlp_string_def)
    ultimately show ?thesis using room_ok [of 1 0 "Suc (length r)"] len
      by (simp add: enc_kind_def rlp_string_def readKind_def linorder_not_less)
  next
    case 2
    then have k: "k = String" using ok by (cases k) (auto simp: kind_ok_def)
    have e: "enc_kind k c = (0x80 + of_nat ?n) # c"
      using 2 by (auto simp: enc_kind_def rlp_string_def str_head_def head_small)
    have "\<not> (?n = 1 \<and> (c @ r) ! 0 < 128)" using 2 by (cases c) auto
    then show ?thesis using len 2 readKind_small(1) [of ?n "c @ r"] unfolding k e [unfolded k] by simp
  next
    case 3
    have e: "enc_kind k c = (0xC0 + of_nat ?n) # c"
      using 3 by (simp add: enc_kind_def list_head_def head_small)
    then show ?thesis using len 3 readKind_small(2) [of ?n "c @ r"] by simp
  next
    case 4
    then have k: "k = String" using ok by (cases k) (auto simp: kind_ok_def)
    have e: "enc_kind k c = (0xB7 + of_nat (length (putint (of_nat ?n)))) # putint (of_nat ?n) @ c"
      using 4 n by (simp add: enc_kind_def rlp_string_def str_head_def head_large)
    then show ?thesis using len 4 z readKind_large(1) [of "of_nat ?n" "c @ r"] unfolding k e [unfolded k] by simp
  next
    case 5
    have e: "enc_kind k c = (0xF7 + of_nat (length (putint (of_nat ?n)))) # putint (of_nat ?n) @ c"
      using 5 n by (simp add: enc_kind_def list_head_def head_large)
    then show ?thesis using len 5 z readKind_large(2) [of "of_nat ?n" "c @ r"] unfolding e by simp
  qed
qed

lemma Split_complete:
  assumes ok: "kind_ok k c" and len: "length (enc_kind k c @ r) < 2 ^ 63 - 9"
  shows "Split (enc_kind k c @ r) = Some (Inr (k, c, r))"
proof -
  let ?e = "enc_kind k c"
  let ?ts = "length ?e - length c"
  have le: "length c \<le> length ?e" using len length_enc_kind(1) by simp
  have s: "of_nat ?ts + of_nat (length c) = (of_nat (length ?e) :: u64)" using le by (simp flip: of_nat_add)
  have u: "unat (of_nat (length ?e) :: u64) = length ?e" "unat (of_nat ?ts :: u64) = ?ts"
    using len by (auto intro!: unat_of_nat_u64)
  have "drop ?ts ?e = c" by (auto simp: enc_kind_def rlp_string_def)
  then have d: "take (length ?e - ?ts) (drop ?ts (?e @ r)) = c" using le by simp
  have "\<not> (of_nat ?ts :: u64) > of_nat (length ?e)" using u by (simp add: word_less_nat_alt)
  then show ?thesis unfolding Split_def readKind_complete [OF assms] sum.case prod.case s u
    using d le by simp
qed

lemma Split_iff:
  assumes "length b < 2 ^ 63 - 9"
  shows "Split b = Some (Inr (k, c, r)) \<longleftrightarrow> b = enc_kind k c @ r \<and> kind_ok k c"
proof
  assume s: "Split b = Some (Inr (k, c, r))"
  then obtain ts cs where "readKind b = Inr (k, ts, cs)"
    by (auto simp: Split_def split: sum.splits prod.splits if_splits)
  with readKind_sound [OF this] assms obtain c' r' where b: "b = enc_kind k c' @ r'" "kind_ok k c'" by auto
  then have "Split b = Some (Inr (k, c', r'))" using Split_complete assms by simp
  then show "b = enc_kind k c @ r \<and> kind_ok k c" using s b by simp
next
  assume "b = enc_kind k c @ r \<and> kind_ok k c"
  then show "Split b = Some (Inr (k, c, r))" using Split_complete assms by simp
qed

lemma Split_total: "length b < 2 ^ 63 - 9 \<Longrightarrow> Split b \<noteq> None"
proof
  assume b: "length b < 2 ^ 63 - 9" "Split b = None"
  then obtain k ts cs where "readKind b = Inr (k, ts, cs)"
    by (auto simp: Split_def split: sum.splits prod.splits if_splits)
  with readKind_sound [OF this] b(1) obtain c r where "b = enc_kind k c @ r" "kind_ok k c" by auto
  then show False using Split_complete [of k c r] b by simp
qed

text \<open>Every value of an encoder has a kind and content.\<close>

fun item_kind :: "rlp_item \<Rightarrow> Kind" where
  "item_kind (Lst its) = List"
| "item_kind (Str b) = (if length b = 1 \<and> hd b < 0x80 then Byte else String)"
| "item_kind (Raw b) = Byte"

fun item_content :: "rlp_item \<Rightarrow> bytes" where
  "item_content (Lst its) = concat (map rlp its)"
| "item_content (Str b) = b"
| "item_content (Raw b) = b"

fun is_value :: "rlp_item \<Rightarrow> bool" where
  "is_value (Raw b) = False"
| "is_value it = True"

lemma rlp_enc_kind:
  "is_value it \<Longrightarrow> rlp it = enc_kind (item_kind it) (item_content it) \<and> kind_ok (item_kind it) (item_content it)"
  by (cases it) (auto simp: enc_kind_def kind_ok_def Let_def)

lemma enc_kind_nonempty: "enc_kind k c \<noteq> []"
  by (auto simp: enc_kind_def rlp_string_def str_head_def list_head_def puthead_def Let_def)

lemma values_le_bytes: "length vs \<le> length (concat (map (\<lambda>(k, c). enc_kind k c) vs))"
proof (induction vs)
  case (Cons v vs)
  obtain k c where "v = (k, c)" by (cases v)
  then show ?case using Cons enc_kind_nonempty [of k c] by (cases "enc_kind k c") auto
qed simp

text \<open>Counting consumes one value per step.\<close>

lemma count_step:
  assumes "kind_ok k c" "length (enc_kind k c @ r) < 2 ^ 63 - 9"
  shows "CountValues_loop (Suc fuel) i (enc_kind k c @ r) = CountValues_loop fuel (i + 1) r"
proof -
  have le: "length c \<le> length (enc_kind k c)" using assms(2) length_enc_kind(1) by simp
  have s: "of_nat (length (enc_kind k c) - length c) + of_nat (length c) = (of_nat (length (enc_kind k c)) :: u64)"
    using le by (simp flip: of_nat_add)
  have u: "unat (of_nat (length (enc_kind k c)) :: u64) = length (enc_kind k c)"
    using assms(2) by (auto intro!: unat_of_nat_u64)
  show ?thesis using enc_kind_nonempty [of k c]
    unfolding CountValues_loop.simps readKind_complete [OF assms] sum.case prod.case s u by simp
qed

lemma count_values:
  "length (concat (map (\<lambda>(k, c). enc_kind k c) vs)) < 2 ^ 63 - 9 \<Longrightarrow> \<forall>(k, c) \<in> set vs. kind_ok k c \<Longrightarrow>
   length vs < fuel \<Longrightarrow>
   CountValues_loop fuel i (concat (map (\<lambda>(k, c). enc_kind k c) vs)) = Some (Inr (i + length vs))"
proof (induction vs arbitrary: fuel i)
  case Nil
  then show ?case by (cases fuel) simp_all
next
  case (Cons v vs)
  obtain k c where v: "v = (k, c)" by (cases v)
  obtain m where m: "fuel = Suc m" using Cons.prems(3) by (cases fuel) auto
  have "CountValues_loop fuel i (enc_kind k c @ concat (map (\<lambda>(k, c). enc_kind k c) vs)) =
      CountValues_loop m (i + 1) (concat (map (\<lambda>(k, c). enc_kind k c) vs))"
    unfolding m using Cons.prems v by (intro count_step) simp_all
  then show ?case using Cons.IH [of m "i + 1"] Cons.prems v m by simp
qed

lemma count_sound:
  "CountValues_loop fuel i b = Some (Inr n) \<Longrightarrow> length b < 2 ^ 63 - 9 \<Longrightarrow>
   \<exists>vs. b = concat (map (\<lambda>(k, c). enc_kind k c) vs) \<and> (\<forall>(k, c) \<in> set vs. kind_ok k c) \<and> n = i + length vs"
proof (induction fuel arbitrary: i b)
  case (Suc fuel)
  show ?case
  proof (cases "b = []")
    case True
    then show ?thesis using Suc.prems by (intro exI [of _ "[]"]) simp
  next
    case False
    then obtain k ts cs where "readKind b = Inr (k, ts, cs)"
      using Suc.prems by (auto split: sum.splits prod.splits if_splits)
    with readKind_sound [OF this] Suc.prems(2) obtain c r where b: "b = enc_kind k c @ r" "kind_ok k c" by auto
    then have "CountValues_loop fuel (i + 1) r = Some (Inr n)"
      using Suc.prems count_step [of k c r fuel i] by simp
    with Suc.IH [OF this] b Suc.prems(2) obtain vs where
      "r = concat (map (\<lambda>(k, c). enc_kind k c) vs)" "\<forall>(k, c) \<in> set vs. kind_ok k c" "n = i + 1 + length vs" by auto
    then show ?thesis using b by (intro exI [of _ "(k, c) # vs"]) simp
  qed
qed simp

lemma count_returns: "length b < fuel \<Longrightarrow> length b < 2 ^ 63 - 9 \<Longrightarrow> CountValues_loop fuel i b \<noteq> None"
proof (induction fuel arbitrary: i b)
  case (Suc fuel)
  show ?case
  proof (cases "\<exists>k ts cs. readKind b = Inr (k, ts, cs)")
    case True
    then obtain k ts cs where "readKind b = Inr (k, ts, cs)" by blast
    with readKind_sound [OF this] Suc.prems(2) obtain c r where b: "b = enc_kind k c @ r" "kind_ok k c" by auto
    have "length r < length b" using b enc_kind_nonempty by simp
    then have "CountValues_loop fuel (i + 1) r \<noteq> None" using Suc.prems by (intro Suc.IH) linarith+
    then show ?thesis using count_step [OF b(2), of r fuel i] Suc.prems(2) b(1) by metis
  next
    case False
    then show ?thesis by (cases "readKind b") auto
  qed
qed simp

section \<open>Properties\<close>

text \<open>C22. Splitting inverts encoding: a buffer splits into a value of kind \<open>k\<close> with content \<open>c\<close> and a rest exactly
  when it is the encoding of that content followed by the rest, so that no buffer has two readings and every
  non-canonical header or size is refused.\<close>

theorem Split_canonical:
  assumes "length b < 2 ^ 63 - 9"
  shows "Split b = Some (Inr (k, c, r)) \<longleftrightarrow> b = enc_kind k c @ r \<and> kind_ok k c"
  using assms by (rule Split_iff)

theorem Split_canonical_witness:
  "Split (0x83 # 0x64 # 0x6F # 0x67 # [0xC0]) = Some (Inr (String, [0x64, 0x6F, 0x67], [0xC0]))"
  using Split_canonical [of "0x83 # 0x64 # 0x6F # 0x67 # [0xC0]" String "[0x64, 0x6F, 0x67]" "[0xC0]"]
  by (simp add: enc_kind_def kind_ok_def rlp_string_def str_head_def puthead_def)

text \<open>C23. Counting terminates and is exact: with one step of fuel more than there are bytes, \<^verbatim>\<open>CountValues\<close> returns, and
  it returns \<open>n\<close> exactly when the buffer is the concatenation of \<open>n\<close> canonical encodings.\<close>

theorem CountValues_exact:
  assumes "length b < 2 ^ 63 - 9"
  shows "\<exists>res. CountValues (Suc (length b)) b = Some res \<and>
    (res = Inr n \<longleftrightarrow> (\<exists>vs. b = concat (map (\<lambda>(k, c). enc_kind k c) vs) \<and> (\<forall>(k, c) \<in> set vs. kind_ok k c) \<and> n = length vs))"
proof -
  obtain res where res: "CountValues (Suc (length b)) b = Some res"
    using count_returns [of b "Suc (length b)" 0] assms by (auto simp: CountValues_def)
  have "res = Inr n" if "b = concat (map (\<lambda>(k, c). enc_kind k c) vs)" "\<forall>(k, c) \<in> set vs. kind_ok k c" "n = length vs" for vs
  proof -
    have "length vs \<le> length b" using values_le_bytes that(1) by simp
    then show ?thesis using count_values [of vs "Suc (length b)" 0] that assms res by (simp add: CountValues_def)
  qed
  moreover have "\<exists>vs. b = concat (map (\<lambda>(k, c). enc_kind k c) vs) \<and> (\<forall>(k, c) \<in> set vs. kind_ok k c) \<and> n = length vs"
    if "res = Inr n"
    using count_sound [of "Suc (length b)" 0 b n] res that assms by (simp add: CountValues_def)
  ultimately show ?thesis using res by blast
qed

theorem CountValues_exact_witness:
  "CountValues (Suc (length [0xC0, 0x05, 0x80 :: u8])) [0xC0, 0x05, 0x80] = Some (Inr 3)"
proof -
  let ?b = "[0xC0, 0x05, 0x80] :: bytes" and ?vs = "[(List, []), (Byte, [0x05]), (String, [])] :: (Kind \<times> bytes) list"
  have len: "length ?b < 2 ^ 63 - 9" by simp
  have "?b = concat (map (\<lambda>(k, c). enc_kind k c) ?vs)"
    by (simp add: enc_kind_def rlp_string_def str_head_def list_head_def puthead_def)
  moreover have "\<forall>(k, c) \<in> set ?vs. kind_ok k c" by (simp add: kind_ok_def)
  moreover have "3 = length ?vs" by simp
  ultimately show ?thesis using CountValues_exact [OF len, of 3] by blast
qed

end
