(* ===== verification/Rlp_Stream.thy ===== *)
theory Rlp_Stream
  imports Rlp_Raw
begin

text \<open>
  The decoding stream (\<^verbatim>\<open>rlp/decode.go\<close>, type \<^verbatim>\<open>Stream\<close>). The reader is the list of bytes not yet read, as for
  the \<^verbatim>\<open>bytes.Reader\<close> of \<^verbatim>\<open>DecodeBytes\<close>; the stack of enclosing lists has its innermost list first. A kind of \<open>-1\<close>
  ("rearmed") is \<open>None\<close>. The scratch buffer for integers holds no state between calls.
\<close>

record listpos =
  lpPos :: u64
  lpSize :: u64

record Stream =
  stR :: bytes
  stRemaining :: u64
  stLimited :: bool
  stKind :: "Kind option"
  stSize :: u64
  stByteval :: u8
  stKinderr :: "rlp_error option"
  stStack :: "listpos list"

definition NewStream :: "bytes \<Rightarrow> u64 \<Rightarrow> Stream" where
  "NewStream r inputLimit =
     \<lparr>stR = r, stRemaining = (if inputLimit > 0 then inputLimit else of_nat (length r)), stLimited = True,
      stKind = None, stSize = 0, stByteval = 0, stKinderr = None, stStack = []\<rparr>"

definition NewListStream :: "bytes \<Rightarrow> u64 \<Rightarrow> Stream" where
  "NewListStream r len = (NewStream r len)\<lparr>stKind := Some List, stSize := len\<rparr>"

section \<open>Reading\<close>

definition Stream_willRead :: "u64 \<Rightarrow> Stream \<Rightarrow> rlp_error option \<times> Stream" where
  "Stream_willRead n s0 =
     (let s = s0\<lparr>stKind := None\<rparr>;
          limit = \<lambda>s. if stLimited s then
                       if n > stRemaining s then (Some ErrValueTooLarge, s)
                       else (None, s\<lparr>stRemaining := stRemaining s - n\<rparr>)
                     else (None, s)
      in case stStack s of
           [] \<Rightarrow> limit s
         | tos # rest \<Rightarrow>
             if n > lpSize tos - lpPos tos then (Some ErrElemTooLarge, s)
             else limit (s\<lparr>stStack := tos\<lparr>lpPos := lpPos tos + n\<rparr> # rest\<rparr>))"

definition Stream_readByte :: "Stream \<Rightarrow> (rlp_error + u8) \<times> Stream" where
  "Stream_readByte s0 =
     (case Stream_willRead 1 s0 of
        (Some err, s) \<Rightarrow> (Inl err, s)
      | (None, s) \<Rightarrow> (case stR s of [] \<Rightarrow> (Inl ErrUnexpectedEOF, s) | b # r \<Rightarrow> (Inr b, s\<lparr>stR := r\<rparr>)))"

definition Stream_readFull :: "u64 \<Rightarrow> Stream \<Rightarrow> (rlp_error + bytes) \<times> Stream" where
  "Stream_readFull n s0 =
     (case Stream_willRead n s0 of
        (Some err, s) \<Rightarrow> (Inl err, s)
      | (None, s) \<Rightarrow>
          if length (stR s) < unat n then (Inl ErrUnexpectedEOF, s\<lparr>stR := []\<rparr>)
          else (Inr (take (unat n) (stR s)), s\<lparr>stR := drop (unat n) (stR s)\<rparr>))"

text \<open>Called with a size of at most 8.\<close>

definition Stream_readUint :: "u8 \<Rightarrow> Stream \<Rightarrow> (rlp_error + u64) \<times> Stream" where
  "Stream_readUint sz s0 =
     (if sz = 0 then (Inr 0, s0\<lparr>stKind := None\<rparr>)
      else if sz = 1 then
        (case Stream_readByte s0 of (Inl err, s) \<Rightarrow> (Inl err, s) | (Inr b, s) \<Rightarrow> (Inr (ucast b), s))
      else
        (case Stream_readFull (ucast sz) s0 of
           (Inl err, s) \<Rightarrow> (Inl err, s)
         | (Inr buf, s) \<Rightarrow> if buf ! 0 = 0 then (Inl ErrCanonSize, s) else (Inr (be_word buf), s)))"

text \<open>The kind, the size and the error \<^verbatim>\<open>readKind\<close> assigns to the stream's fields.\<close>

definition Stream_readKind :: "Stream \<Rightarrow> (Kind \<times> u64 \<times> rlp_error option) \<times> Stream" where
  "Stream_readKind s0 =
     (case Stream_readByte s0 of
        (Inl err, s) \<Rightarrow>
          ((Byte, 0, Some (if stStack s = [] \<and> (err = ErrUnexpectedEOF \<or> err = ErrValueTooLarge) then EOF else err)), s)
      | (Inr b, s1) \<Rightarrow>
          let s = s1\<lparr>stByteval := 0\<rparr>;
              long = \<lambda>k n. case Stream_readUint n s of
                              (Inl err, s) \<Rightarrow> ((k, 0, Some err), s)
                            | (Inr z, s) \<Rightarrow> ((k, z, if z < 56 then Some ErrCanonSize else None), s)
          in if b < 0x80 then ((Byte, 0, None), s\<lparr>stByteval := b\<rparr>)
             else if b < 0xB8 then ((String, ucast (b - 0x80), None), s)
             else if b < 0xC0 then long String (b - 0xB7)
             else if b < 0xF8 then ((List, ucast (b - 0xC0), None), s)
             else long List (b - 0xF7))"

definition Stream_Kind :: "Stream \<Rightarrow> (rlp_error + (Kind \<times> u64)) \<times> Stream" where
  "Stream_Kind s0 =
     (let result = \<lambda>s. (case stKinderr s of Some err \<Rightarrow> Inl err | None \<Rightarrow> Inr (the (stKind s), stSize s), s)
      in case stKind s0 of
           Some _ \<Rightarrow> result s0
         | None \<Rightarrow>
             let s1 = s0\<lparr>stKinderr := None\<rparr>
             in if stStack s1 \<noteq> [] \<and> lpPos (hd (stStack s1)) = lpSize (hd (stStack s1)) then (Inl EOL, s1)
                else
                  (case Stream_readKind s1 of
                     ((k, z, err), s2) \<Rightarrow>
                       let s = s2\<lparr>stKind := Some k, stSize := z, stKinderr := err\<rparr>
                       in if err \<noteq> None then result s
                          else
                            case stStack s of
                              [] \<Rightarrow>
                                if stLimited s \<and> z > stRemaining s then
                                  result (s\<lparr>stKinderr := Some ErrValueTooLarge\<rparr>)
                                else result s
                            | tos # _ \<Rightarrow>
                                if z > lpSize tos - lpPos tos then result (s\<lparr>stKinderr := Some ErrElemTooLarge\<rparr>)
                                else result s))"

section \<open>Operations\<close>

definition Stream_Bytes :: "Stream \<Rightarrow> (rlp_error + bytes) \<times> Stream" where
  "Stream_Bytes s0 =
     (case Stream_Kind s0 of
        (Inl err, s) \<Rightarrow> (Inl err, s)
      | (Inr (Byte, z), s) \<Rightarrow> (Inr [stByteval s], s\<lparr>stKind := None\<rparr>)
      | (Inr (String, z), s) \<Rightarrow>
          (case Stream_readFull z s of
             (Inl err, s) \<Rightarrow> (Inl err, s)
           | (Inr b, s) \<Rightarrow> if z = 1 \<and> b ! 0 < 128 then (Inl ErrCanonSize, s) else (Inr b, s))
      | (Inr (List, z), s) \<Rightarrow> (Inl ErrExpectedString, s))"

definition Stream_Raw :: "Stream \<Rightarrow> (rlp_error + bytes) \<times> Stream" where
  "Stream_Raw s0 =
     (case Stream_Kind s0 of
        (Inl err, s) \<Rightarrow> (Inl err, s)
      | (Inr (k, z), s) \<Rightarrow>
          if k = Byte then (Inr [stByteval s], s\<lparr>stKind := None\<rparr>)
          else
            (case Stream_readFull z s of
               (Inl err, s) \<Rightarrow> (Inl err, s)
             | (Inr b, s) \<Rightarrow>
                 (Inr ((if k = String then puthead 0x80 0xB7 z else puthead 0xC0 0xF7 z) @ b), s)))"

definition Stream_uint :: "nat \<Rightarrow> Stream \<Rightarrow> (rlp_error + u64) \<times> Stream" where
  "Stream_uint maxbits s0 =
     (case Stream_Kind s0 of
        (Inl err, s) \<Rightarrow> (Inl err, s)
      | (Inr (Byte, z), s) \<Rightarrow>
          if stByteval s = 0 then (Inl ErrCanonInt, s) else (Inr (ucast (stByteval s)), s\<lparr>stKind := None\<rparr>)
      | (Inr (String, z), s) \<Rightarrow>
          if z > of_nat (maxbits div 8) then (Inl errUintOverflow, s)
          else
            (case Stream_readUint (ucast z) s of
               (Inl err, s) \<Rightarrow> (Inl (if err = ErrCanonSize then ErrCanonInt else err), s)
             | (Inr v, s) \<Rightarrow> if z > 0 \<and> v < 128 then (Inl ErrCanonSize, s) else (Inr v, s))
      | (Inr (List, z), s) \<Rightarrow> (Inl ErrExpectedString, s))"

definition Stream_Uint :: "Stream \<Rightarrow> (rlp_error + u64) \<times> Stream" where
  "Stream_Uint s = Stream_uint 64 s"

definition Stream_Bool :: "Stream \<Rightarrow> (rlp_error + bool) \<times> Stream" where
  "Stream_Bool s0 =
     (case Stream_uint 8 s0 of
        (Inl err, s) \<Rightarrow> (Inl err, s)
      | (Inr num, s) \<Rightarrow>
          (if num = 0 then Inr False else if num = 1 then Inr True else Inl errInvalidBool, s))"

definition Stream_List :: "Stream \<Rightarrow> (rlp_error + u64) \<times> Stream" where
  "Stream_List s0 =
     (case Stream_Kind s0 of
        (Inl err, s) \<Rightarrow> (Inl err, s)
      | (Inr (k, z), s) \<Rightarrow>
          if k \<noteq> List then (Inl ErrExpectedList, s)
          else (Inr z, s\<lparr>stStack := \<lparr>lpPos = 0, lpSize = z\<rparr> # stStack s, stKind := None, stSize := 0\<rparr>))"

definition Stream_ListEnd :: "Stream \<Rightarrow> rlp_error option \<times> Stream" where
  "Stream_ListEnd s =
     (case stStack s of
        [] \<Rightarrow> (Some errNotInList, s)
      | tos # rest \<Rightarrow>
          if lpPos tos \<noteq> lpSize tos then (Some errNotAtEOL, s)
          else
            (None,
             s\<lparr>stStack := (case rest of
                             [] \<Rightarrow> []
                           | p # ps \<Rightarrow> p\<lparr>lpPos := lpPos p + lpSize tos\<rparr> # ps),
               stKind := None, stSize := 0\<rparr>))"

end
