(* ===== verification/Rlp_Types.thy ===== *)
theory Rlp_Types
  imports Rlp_Stream
begin

text \<open>
  The writers and decoders that reflection selects for a Go type (\<^verbatim>\<open>rlp/encode.go\<close>, \<^verbatim>\<open>rlp/decode.go\<close>,
  \<^verbatim>\<open>rlp/typecache.go\<close>). A \<open>gtype\<close> is a type without methods of its own: the fields of a struct are the ones
  \<^verbatim>\<open>structFields\<close> keeps, each with its \<^verbatim>\<open>nil\<close> and \<^verbatim>\<open>tail\<close> tags. Types that implement \<^verbatim>\<open>Encoder\<close> or \<^verbatim>\<open>Decoder\<close> and
  recursive types are not covered. The type \<^verbatim>\<open>*big.Int\<close> is
  \<open>TBigIntPtr\<close>, and the empty interface holds \<^verbatim>\<open>[]byte\<close> and \<^verbatim>\<open>[]interface{}\<close> values.
\<close>

datatype gtype =
    TRawValue
  | TBigIntPtr
  | TBigInt
  | TUint nat
  | TBool
  | TString
  | TBytes
  | TByteArray nat
  | TSlice gtype
  | TArray nat gtype
  | TStruct "(gtype \<times> bool \<times> bool) list"
  | TPtr gtype
  | TInterface

datatype gval =
    VRaw bytes
  | VBig "int option"
  | VUint u64
  | VBool bool
  | VBytes bytes
  | VList "gval list"
  | VPtr "gval option"
  | VIface "rlp_item option"

section \<open>Writers\<close>

text \<open>
  The value a variable of the type holds before anything is assigned. The types of \<^verbatim>\<open>makePtrWriter\<close> that need it
  are neither structs nor arrays.
\<close>

fun zero_value :: "gtype \<Rightarrow> gval" where
  "zero_value TRawValue = VRaw []"
| "zero_value TBigIntPtr = VBig None"
| "zero_value TBigInt = VBig (Some 0)"
| "zero_value (TUint bits) = VUint 0"
| "zero_value TBool = VBool False"
| "zero_value TString = VBytes []"
| "zero_value TBytes = VBytes []"
| "zero_value (TByteArray n) = VBytes (replicate n 0)"
| "zero_value (TSlice e) = VList []"
| "zero_value (TArray n e) = VList (replicate n (zero_value e))"
| "zero_value (TStruct fs) = VList (map (\<lambda>f. zero_value (fst f)) fs)"
| "zero_value (TPtr e) = VPtr None"
| "zero_value TInterface = VIface None"

text \<open>
  \<^verbatim>\<open>makeWriter\<close>. The flag is the \<^verbatim>\<open>tail\<close> tag; \<open>None\<close> is the error for a negative integer, and the value of every
  case in which the value does not have the type.
\<close>

fun makeWriter :: "gtype \<Rightarrow> bool \<Rightarrow> gval \<Rightarrow> encbuf \<Rightarrow> encbuf option"
  and write_elems :: "gtype \<Rightarrow> gval list \<Rightarrow> encbuf \<Rightarrow> encbuf option"
  and write_fields :: "(gtype \<times> bool \<times> bool) list \<Rightarrow> gval list \<Rightarrow> encbuf \<Rightarrow> encbuf option" where
  "makeWriter TRawValue tail v w = (case v of VRaw b \<Rightarrow> Some (encbuf_Write b w) | _ \<Rightarrow> None)"
| "makeWriter TBigIntPtr tail v w =
     (case v of
        VBig None \<Rightarrow> Some (encbuf_Write [0x80] w)
      | VBig (Some i) \<Rightarrow> writeBigInt i w
      | _ \<Rightarrow> None)"
| "makeWriter TBigInt tail v w = (case v of VBig (Some i) \<Rightarrow> writeBigInt i w | _ \<Rightarrow> None)"
| "makeWriter (TUint bits) tail v w = (case v of VUint i \<Rightarrow> Some (writeUint i w) | _ \<Rightarrow> None)"
| "makeWriter TBool tail v w = (case v of VBool b \<Rightarrow> Some (writeBool b w) | _ \<Rightarrow> None)"
| "makeWriter TString tail v w = (case v of VBytes b \<Rightarrow> Some (encbuf_encodeString b w) | _ \<Rightarrow> None)"
| "makeWriter TBytes tail v w = (case v of VBytes b \<Rightarrow> Some (encbuf_encodeString b w) | _ \<Rightarrow> None)"
| "makeWriter (TByteArray n) tail v w = (case v of VBytes b \<Rightarrow> Some (encbuf_encodeString b w) | _ \<Rightarrow> None)"
| "makeWriter (TSlice e) tail v w =
     (case v of
        VList vs \<Rightarrow>
          if tail then write_elems e vs w
          else let (lh, w) = encbuf_list w in map_option (encbuf_listEnd lh) (write_elems e vs w)
      | _ \<Rightarrow> None)"
| "makeWriter (TArray n e) tail v w =
     (case v of
        VList vs \<Rightarrow> let (lh, w) = encbuf_list w in map_option (encbuf_listEnd lh) (write_elems e vs w)
      | _ \<Rightarrow> None)"
| "makeWriter (TStruct fs) tail v w =
     (case v of
        VList vs \<Rightarrow> let (lh, w) = encbuf_list w in map_option (encbuf_listEnd lh) (write_fields fs vs w)
      | _ \<Rightarrow> None)"
| "makeWriter (TPtr e) tail v w =
     (case v of
        VPtr (Some x) \<Rightarrow> makeWriter e False x w
      | VPtr None \<Rightarrow>
          (case e of
             TByteArray n \<Rightarrow> Some (encbuf_Write [0x80] w)
           | TStruct fs \<Rightarrow> (let (lh, w) = encbuf_list w in Some (encbuf_listEnd lh w))
           | TArray n e' \<Rightarrow> (let (lh, w) = encbuf_list w in Some (encbuf_listEnd lh w))
           | _ \<Rightarrow> makeWriter e False (zero_value e) w)
      | _ \<Rightarrow> None)"
| "makeWriter TInterface tail v w =
     (case v of
        VIface None \<Rightarrow> Some (encbuf_Write [0xC0] w)
      | VIface (Some it) \<Rightarrow> Some (write_item it w)
      | _ \<Rightarrow> None)"
| "write_elems e [] w = Some w"
| "write_elems e (v # vs) w = Option.bind (makeWriter e False v w) (write_elems e vs)"
| "write_fields [] vs w = (if vs = [] then Some w else None)"
| "write_fields (f # fs) vs w =
     (case vs of
        [] \<Rightarrow> None
      | v # vs \<Rightarrow> Option.bind (makeWriter (fst f) (snd (snd f)) v w) (write_fields fs vs))"

definition EncodeValue :: "gtype \<Rightarrow> gval \<Rightarrow> bytes option" where
  "EncodeValue t v = Option.bind (makeWriter t False v (encbuf_reset encbuf_empty)) encbuf_toBytes"

section \<open>Decoders\<close>

type_synonym 'a decoder = "Stream \<Rightarrow> ((rlp_error + 'a) \<times> Stream) option"

text \<open>
  \<open>None\<close> is a loop that has not ended within the fuel. An error message keeps its text; the type and the path
  that \<^verbatim>\<open>addErrorContext\<close> collects for printing are left out.
\<close>

definition wrapStreamError :: "rlp_error \<Rightarrow> rlp_error" where
  "wrapStreamError err =
     (case err of
        ErrCanonInt \<Rightarrow> decodeError ''non-canonical integer (leading zero bytes)''
      | ErrCanonSize \<Rightarrow> decodeError ''non-canonical size information''
      | ErrExpectedList \<Rightarrow> decodeError ''expected input list''
      | ErrExpectedString \<Rightarrow> decodeError ''expected input string or byte''
      | errUintOverflow \<Rightarrow> decodeError ''input string too long''
      | errNotAtEOL \<Rightarrow> decodeError ''input list has too many elements''
      | _ \<Rightarrow> err)"

definition decodeRawValue :: "gval decoder" where
  "decodeRawValue s0 = Some (case Stream_Raw s0 of (Inl err, s) \<Rightarrow> (Inl err, s) | (Inr r, s) \<Rightarrow> (Inr (VRaw r), s))"

definition decodeUint :: "nat \<Rightarrow> gval decoder" where
  "decodeUint bits s0 =
     Some (case Stream_uint bits s0 of
             (Inl err, s) \<Rightarrow> (Inl (wrapStreamError err), s)
           | (Inr num, s) \<Rightarrow> (Inr (VUint num), s))"

definition decodeBool :: "gval decoder" where
  "decodeBool s0 =
     Some (case Stream_Bool s0 of
             (Inl err, s) \<Rightarrow> (Inl (wrapStreamError err), s)
           | (Inr b, s) \<Rightarrow> (Inr (VBool b), s))"

definition decodeString :: "gval decoder" where
  "decodeString s0 =
     Some (case Stream_Bytes s0 of
             (Inl err, s) \<Rightarrow> (Inl (wrapStreamError err), s)
           | (Inr b, s) \<Rightarrow> (Inr (VBytes b), s))"

definition decodeByteSlice :: "gval decoder" where
  "decodeByteSlice s0 =
     Some (case Stream_Bytes s0 of
             (Inl err, s) \<Rightarrow> (Inl (wrapStreamError err), s)
           | (Inr b, s) \<Rightarrow> (Inr (VBytes b), s))"

definition decodeBigInt :: "gval decoder" where
  "decodeBigInt s0 =
     Some (case Stream_Bytes s0 of
             (Inl err, s) \<Rightarrow> (Inl (wrapStreamError err), s)
           | (Inr b, s) \<Rightarrow>
               if length b > 0 \<and> b ! 0 = 0 then (Inl (wrapStreamError ErrCanonInt), s)
               else (Inr (VBig (Some (int (be_nat b)))), s))"

definition decodeByteArray :: "nat \<Rightarrow> gval decoder" where
  "decodeByteArray vlen s0 =
     Some (case Stream_Kind s0 of
             (Inl err, s) \<Rightarrow> (Inl err, s)
           | (Inr (Byte, z), s) \<Rightarrow>
               if vlen = 0 then (Inl (decodeError ''input string too long''), s)
               else if vlen > 1 then (Inl (decodeError ''input string too short''), s)
               else
                 (case Stream_Uint s of
                    (Inl _, s) \<Rightarrow> (Inr (VBytes [0]), s)
                  | (Inr bv, s) \<Rightarrow> (Inr (VBytes [ucast bv]), s))
           | (Inr (String, z), s) \<Rightarrow>
               if of_nat vlen < z then (Inl (decodeError ''input string too long''), s)
               else if of_nat vlen > z then (Inl (decodeError ''input string too short''), s)
               else
                 (case Stream_readFull (of_nat vlen) s of
                    (Inl err, s) \<Rightarrow> (Inl err, s)
                  | (Inr sl, s) \<Rightarrow>
                      if z = 1 \<and> sl ! 0 < 128 then (Inl (wrapStreamError ErrCanonSize), s)
                      else (Inr (VBytes sl), s))
           | (Inr (List, z), s) \<Rightarrow> (Inl (wrapStreamError ErrExpectedString), s))"

primrec decodeSliceElems :: "nat \<Rightarrow> 'a decoder \<Rightarrow> 'a list decoder" where
  "decodeSliceElems 0 elemdec s = None"
| "decodeSliceElems (Suc fuel) elemdec s0 =
     (case elemdec s0 of
        None \<Rightarrow> None
      | Some (Inl err, s) \<Rightarrow> Some (if err = EOL then (Inr [], s) else (Inl err, s))
      | Some (Inr v, s) \<Rightarrow>
          (case decodeSliceElems fuel elemdec s of
             None \<Rightarrow> None
           | Some (Inl err, s) \<Rightarrow> Some (Inl err, s)
           | Some (Inr vs, s) \<Rightarrow> Some (Inr (v # vs), s)))"

definition decodeListSlice :: "nat \<Rightarrow> 'a decoder \<Rightarrow> 'a list decoder" where
  "decodeListSlice fuel elemdec s0 =
     (case Stream_List s0 of
        (Inl err, s) \<Rightarrow> Some (Inl (wrapStreamError err), s)
      | (Inr z, s) \<Rightarrow>
          let finish = \<lambda>vs s. (case Stream_ListEnd s of (Some err, s) \<Rightarrow> (Inl err, s) | (None, s) \<Rightarrow> (Inr vs, s))
          in if z = 0 then Some (finish [] s)
             else
               (case decodeSliceElems fuel elemdec s of
                  None \<Rightarrow> None
                | Some (Inl err, s) \<Rightarrow> Some (Inl err, s)
                | Some (Inr vs, s) \<Rightarrow> Some (finish vs s)))"

text \<open>The loop of \<^verbatim>\<open>decodeListArray\<close> over the elements that are left.\<close>

primrec decodeListArray_loop :: "nat \<Rightarrow> 'a decoder \<Rightarrow> 'a list decoder" where
  "decodeListArray_loop 0 elemdec s0 =
     Some (case Stream_ListEnd s0 of
             (Some err, s) \<Rightarrow> (Inl (wrapStreamError err), s)
           | (None, s) \<Rightarrow> (Inr [], s))"
| "decodeListArray_loop (Suc n) elemdec s0 =
     (case elemdec s0 of
        None \<Rightarrow> None
      | Some (Inl err, s) \<Rightarrow>
          Some (Inl (if err = EOL then decodeError ''input list has too few elements'' else err), s)
      | Some (Inr v, s) \<Rightarrow>
          (case decodeListArray_loop n elemdec s of
             None \<Rightarrow> None
           | Some (Inl err, s) \<Rightarrow> Some (Inl err, s)
           | Some (Inr vs, s) \<Rightarrow> Some (Inr (v # vs), s)))"

definition decodeListArray :: "nat \<Rightarrow> 'a decoder \<Rightarrow> 'a list decoder" where
  "decodeListArray vlen elemdec s0 =
     (case Stream_List s0 of
        (Inl err, s) \<Rightarrow> Some (Inl (wrapStreamError err), s)
      | (Inr _, s) \<Rightarrow> decodeListArray_loop vlen elemdec s)"

text \<open>Elements of an interface slice are decoded by \<^verbatim>\<open>decodeInterface\<close> itself; the fuel bounds the nesting as well.\<close>

primrec decodeInterface :: "nat \<Rightarrow> rlp_item decoder" where
  "decodeInterface 0 s0 = None"
| "decodeInterface (Suc fuel) s0 =
     (case Stream_Kind s0 of
        (Inl err, s) \<Rightarrow> Some (Inl err, s)
      | (Inr (k, z), s) \<Rightarrow>
          if k = List then
            (case decodeListSlice fuel (decodeInterface fuel) s of
               None \<Rightarrow> None
             | Some (Inl err, s) \<Rightarrow> Some (Inl err, s)
             | Some (Inr its, s) \<Rightarrow> Some (Inr (Lst its), s))
          else
            Some (case Stream_Bytes s of
                    (Inl err, s) \<Rightarrow> (Inl err, s)
                  | (Inr b, s) \<Rightarrow> (Inr (Str b), s)))"

definition decodePtr :: "gval decoder \<Rightarrow> gval decoder" where
  "decodePtr elemdec s0 =
     (case elemdec s0 of
        None \<Rightarrow> None
      | Some (Inl err, s) \<Rightarrow> Some (Inl err, s)
      | Some (Inr v, s) \<Rightarrow> Some (Inr (VPtr (Some v)), s))"

definition decodeOptionalPtr :: "gval decoder \<Rightarrow> gval decoder" where
  "decodeOptionalPtr elemdec s0 =
     (case Stream_Kind s0 of
        (Inl err, s) \<Rightarrow> Some (Inl err, s\<lparr>stKind := None\<rparr>)
      | (Inr (k, z), s) \<Rightarrow>
          if z = 0 \<and> k \<noteq> Byte then Some (Inr (VPtr None), s\<lparr>stKind := None\<rparr>)
          else
            (case elemdec s of
               None \<Rightarrow> None
             | Some (Inl err, s) \<Rightarrow> Some (Inl err, s)
             | Some (Inr v, s) \<Rightarrow> Some (Inr (VPtr (Some v)), s)))"

text \<open>\<^verbatim>\<open>makeDecoder\<close>. The flags are the tags \<^verbatim>\<open>nil\<close> and \<^verbatim>\<open>tail\<close>.\<close>

fun makeDecoder :: "nat \<Rightarrow> gtype \<Rightarrow> bool \<Rightarrow> bool \<Rightarrow> gval decoder"
  and decodeFields :: "nat \<Rightarrow> (gtype \<times> bool \<times> bool) list \<Rightarrow> gval list decoder" where
  "makeDecoder fuel TRawValue nilOK tail s = decodeRawValue s"
| "makeDecoder fuel TBigIntPtr nilOK tail s = decodeBigInt s"
| "makeDecoder fuel TBigInt nilOK tail s = decodeBigInt s"
| "makeDecoder fuel (TUint bits) nilOK tail s = decodeUint bits s"
| "makeDecoder fuel TBool nilOK tail s = decodeBool s"
| "makeDecoder fuel TString nilOK tail s = decodeString s"
| "makeDecoder fuel TBytes nilOK tail s = decodeByteSlice s"
| "makeDecoder fuel (TByteArray n) nilOK tail s = decodeByteArray n s"
| "makeDecoder fuel (TSlice e) nilOK tail s0 =
     (case (if tail then decodeSliceElems fuel (makeDecoder fuel e False False) s0
            else decodeListSlice fuel (makeDecoder fuel e False False) s0) of
        None \<Rightarrow> None
      | Some (Inl err, s) \<Rightarrow> Some (Inl err, s)
      | Some (Inr vs, s) \<Rightarrow> Some (Inr (VList vs), s))"
| "makeDecoder fuel (TArray n e) nilOK tail s0 =
     (case decodeListArray n (makeDecoder fuel e False False) s0 of
        None \<Rightarrow> None
      | Some (Inl err, s) \<Rightarrow> Some (Inl err, s)
      | Some (Inr vs, s) \<Rightarrow> Some (Inr (VList vs), s))"
| "makeDecoder fuel (TStruct fs) nilOK tail s0 =
     (case Stream_List s0 of
        (Inl err, s) \<Rightarrow> Some (Inl (wrapStreamError err), s)
      | (Inr _, s) \<Rightarrow>
          (case decodeFields fuel fs s of
             None \<Rightarrow> None
           | Some (Inl err, s) \<Rightarrow> Some (Inl err, s)
           | Some (Inr vs, s) \<Rightarrow> Some (Inr (VList vs), s)))"
| "makeDecoder fuel (TPtr e) nilOK tail s =
     (if nilOK then decodeOptionalPtr (makeDecoder fuel e False False) s
      else decodePtr (makeDecoder fuel e False False) s)"
| "makeDecoder fuel TInterface nilOK tail s0 =
     (case decodeInterface fuel s0 of
        None \<Rightarrow> None
      | Some (Inl err, s) \<Rightarrow> Some (Inl err, s)
      | Some (Inr it, s) \<Rightarrow> Some (Inr (VIface (Some it)), s))"
| "decodeFields fuel [] s0 =
     Some (case Stream_ListEnd s0 of
             (Some err, s) \<Rightarrow> (Inl (wrapStreamError err), s)
           | (None, s) \<Rightarrow> (Inr [], s))"
| "decodeFields fuel (f # fs) s0 =
     (case makeDecoder fuel (fst f) (fst (snd f)) (snd (snd f)) s0 of
        None \<Rightarrow> None
      | Some (Inl err, s) \<Rightarrow> Some (Inl (if err = EOL then decodeError ''too few elements'' else err), s)
      | Some (Inr v, s) \<Rightarrow>
          (case decodeFields fuel fs s of
             None \<Rightarrow> None
           | Some (Inl err, s) \<Rightarrow> Some (Inl err, s)
           | Some (Inr vs, s) \<Rightarrow> Some (Inr (v # vs), s)))"

definition DecodeBytes :: "nat \<Rightarrow> gtype \<Rightarrow> bytes \<Rightarrow> (rlp_error + gval) option" where
  "DecodeBytes fuel t b =
     (case makeDecoder fuel t False False (NewStream b (of_nat (length b))) of
        None \<Rightarrow> None
      | Some (Inl err, s) \<Rightarrow> Some (Inl err)
      | Some (Inr v, s) \<Rightarrow> Some (if length (stR s) > 0 then Inl ErrMoreThanOneValue else Inr v))"

end
