(* ===== verification/Rlp_Round.thy ===== *)
theory Rlp_Round
  imports Rlp_Types
begin

text \<open>
  What the stream operations do on canonical input, and the round trip of typed values through \<^verbatim>\<open>EncodeToBytes\<close>
  and \<^verbatim>\<open>DecodeBytes\<close>.
\<close>

section \<open>Positions\<close>

fun bump :: "nat \<Rightarrow> listpos list \<Rightarrow> listpos list" where
  "bump n [] = []"
| "bump n (t # ts) = t\<lparr>lpPos := lpPos t + of_nat n\<rparr> # ts"

fun fits :: "nat \<Rightarrow> listpos list \<Rightarrow> bool" where
  "fits n [] = True"
| "fits n (t # ts) = (unat (lpPos t) + n \<le> unat (lpSize t))"

text \<open>The unread input starts with \<open>e\<close>, all of it within the innermost list and the limit.\<close>

definition ahead :: "bytes \<Rightarrow> Stream \<Rightarrow> bool" where
  "ahead e s = (stLimited s \<and> unat (stRemaining s) = length (stR s) \<and> take (length e) (stR s) = e \<and> fits (length e) (stStack s))"

text \<open>The stream with \<open>n\<close> bytes consumed and the next kind not yet read; only its position matters.\<close>

definition adv :: "nat \<Rightarrow> Stream \<Rightarrow> Stream" where
  "adv n s = s\<lparr>stR := drop n (stR s), stRemaining := stRemaining s - of_nat n, stStack := bump n (stStack s), stKind := None\<rparr>"

definition same :: "Stream \<Rightarrow> Stream \<Rightarrow> bool" where
  "same s s' = (stR s = stR s' \<and> stRemaining s = stRemaining s' \<and> stLimited s = stLimited s' \<and> stKind s = stKind s' \<and>
     stStack s = stStack s')"

lemma same_refl [simp]: "same s s" by (simp add: same_def)

lemma same_trans: "same a b \<Longrightarrow> same b c \<Longrightarrow> same a c" by (simp add: same_def)

lemma same_sym: "same a b \<Longrightarrow> same b a" by (simp add: same_def)

lemma same_adv: "same a b \<Longrightarrow> same (adv n a) (adv n b)" by (simp add: same_def adv_def)

lemma bump_bump [simp]: "bump m (bump n st) = bump (n + m) st"
  by (cases st) (simp_all add: ac_simps)

lemma adv_adv: "same (adv m (adv n s)) (adv (n + m) s)"
  by (simp add: same_def adv_def ac_simps)

lemma ahead_same: "same a b \<Longrightarrow> ahead e a = ahead e b"
  by (simp add: same_def ahead_def)

lemma ahead_length:
  assumes "ahead e s"
  shows "length e \<le> length (stR s)" "length (stR s) < 2 ^ 64" "unat (of_nat (length e) :: u64) = length e"
proof -
  show l: "length e \<le> length (stR s)" using assms by (auto simp: ahead_def take_eq_Nil2 dest: arg_cong [of _ _ length])
  show "length (stR s) < 2 ^ 64" using assms unsigned_less [of "stRemaining s", where ?'a = nat] by (simp add: ahead_def)
  then show "unat (of_nat (length e) :: u64) = length e" using l by (intro unat_of_nat_u64) linarith
qed

lemma ahead_input: "ahead e s \<Longrightarrow> stR s = e @ drop (length e) (stR s)"
  by (metis ahead_def append_take_drop_id)

lemma u64_less: "unat (w :: u64) < 2 ^ 64"
  using unsigned_less [of w, where ?'a = nat] by simp

lemma unat_plus_of_nat:
  assumes "unat (a :: u64) + n \<le> unat (b :: u64)"
  shows "unat (a + of_nat n) = unat a + n"
proof -
  have "unat a + n < 2 ^ 64" using assms u64_less [of b] by linarith
  moreover from this have "unat (of_nat n :: u64) = n" by (intro unat_of_nat_u64) linarith
  ultimately show ?thesis by (simp add: unat_word_ariths(1))
qed

lemma fits_bump: "fits (n + m) st \<Longrightarrow> fits m (bump n st)"
proof (induction n st rule: bump.induct)
  case (2 n t ts)
  then have le: "unat (lpPos t) + n + m \<le> unat (lpSize t)" by simp
  then have "unat (lpPos t + of_nat n) = unat (lpPos t) + n" by (intro unat_plus_of_nat [of _ _ "lpSize t"]) linarith
  then show ?case using le by simp
qed simp

lemma ahead_adv:
  assumes "ahead (e @ e') s"
  shows "ahead e' (adv (length e) s)"
proof -
  note l = ahead_length [OF assms]
  have u: "unat (of_nat (length e) :: u64) = length e" using l by (intro unat_of_nat_u64) simp
  have "unat (stRemaining s - of_nat (length e)) = length (stR s) - length e"
    using assms l u by (subst unat_sub) (simp_all add: word_le_nat_alt ahead_def)
  moreover have "take (length e') (drop (length e) (stR s)) = e'"
    using ahead_input [OF assms] by (metis append_assoc append_eq_conv_conj)
  moreover have "fits (length e') (bump (length e) (stStack s))"
    using assms by (intro fits_bump) (simp add: ahead_def)
  ultimately show ?thesis using assms by (simp add: ahead_def adv_def)
qed

lemma ahead_prefix: "ahead (e @ e') s \<Longrightarrow> ahead e s"
proof -
  assume a: "ahead (e @ e') s"
  have "take (length e) (stR s) = e"
    using ahead_input [OF a] by (metis append_assoc append_eq_conv_conj)
  moreover have "fits (length e) (stStack s)"
    using a by (cases "stStack s") (simp_all add: ahead_def)
  ultimately show ?thesis using a by (simp add: ahead_def)
qed

section \<open>Reading\<close>

lemma willRead_fits:
  assumes "stLimited s" "fits n (stStack s)" "n \<le> unat (stRemaining s)"
  shows "Stream_willRead (of_nat n) s =
    (None, s\<lparr>stKind := None, stRemaining := stRemaining s - of_nat n, stStack := bump n (stStack s)\<rparr>)"
proof -
  have n: "unat (of_nat n :: u64) = n"
    using assms(3) u64_less [of "stRemaining s"] by (intro unat_of_nat_u64) linarith
  have r: "\<not> of_nat n > stRemaining s" using assms(3) n by (simp add: word_less_nat_alt)
  show ?thesis
  proof (cases "stStack s")
    case Nil
    then show ?thesis using assms(1) r by (simp add: Stream_willRead_def)
  next
    case (Cons t ts)
    then have "lpPos t \<le> lpSize t" using assms(2) by (simp add: word_le_nat_alt)
    then have "\<not> of_nat n > lpSize t - lpPos t"
      using assms(2) Cons n by (simp add: word_less_nat_alt unat_sub)
    then show ?thesis using Cons assms(1) r by (simp add: Stream_willRead_def)
  qed
qed

lemma readFull_ahead:
  assumes "ahead e s"
  shows "Stream_readFull (of_nat (length e)) s = (Inr e, adv (length e) s)"
proof -
  note l = ahead_length [OF assms]
  have "Stream_willRead (of_nat (length e)) s =
    (None, s\<lparr>stKind := None, stRemaining := stRemaining s - of_nat (length e), stStack := bump (length e) (stStack s)\<rparr>)"
    using assms l(1) by (intro willRead_fits) (simp_all add: ahead_def)
  then show ?thesis using assms l by (simp add: Stream_readFull_def ahead_def adv_def)
qed

lemma readByte_ahead:
  assumes "ahead [b] s"
  shows "Stream_readByte s = (Inr b, adv 1 s)"
proof -
  obtain r where r: "stR s = b # r" using ahead_input [OF assms] by auto
  have "Stream_willRead (of_nat 1) s =
    (None, s\<lparr>stKind := None, stRemaining := stRemaining s - of_nat 1, stStack := bump 1 (stStack s)\<rparr>)"
    using assms ahead_length(1) [OF assms] by (intro willRead_fits) (simp_all add: ahead_def)
  then show ?thesis using r by (simp add: Stream_readByte_def adv_def)
qed

text \<open>After a kind has been read, reading it again changes nothing.\<close>

lemma Kind_again: "Stream_Kind s = (Inr x, s') \<Longrightarrow> Stream_Kind s' = (Inr x, s')"
proof -
  assume k: "Stream_Kind s = (Inr x, s')"
  have "\<exists>k. stKind s' = Some k \<and> stKinderr s' = None \<and> x = (k, stSize s')"
  proof (cases "stKind s")
    case (Some k)
    then show ?thesis using k by (auto simp: Stream_Kind_def split: option.splits)
  next
    case None
    obtain kd z err s2 where "Stream_readKind (s\<lparr>stKinderr := None\<rparr>) = ((kd, z, err), s2)" by (metis prod.collapse)
    then show ?thesis using k None
      by (cases err; cases "stStack s2") (auto simp: Stream_Kind_def Let_def split: if_splits)
  qed
  then show ?thesis by (auto simp: Stream_Kind_def)
qed

text \<open>The kind of a canonical value: the header is consumed, and a single byte is kept in the stream.\<close>

definition kind_size :: "Kind \<Rightarrow> bytes \<Rightarrow> u64" where
  "kind_size k c = (if k = Byte then 0 else of_nat (length c))"

definition head_bytes :: "Kind \<Rightarrow> bytes \<Rightarrow> bytes" where
  "head_bytes k c = (if k = Byte then c else if k = String then str_head (length c) else list_head (length c))"

lemma enc_kind_head:
  "kind_ok k c \<Longrightarrow> enc_kind k c = head_bytes k c @ (if k = Byte then [] else c)"
  by (cases k) (auto simp: enc_kind_def head_bytes_def kind_ok_def rlp_string_def)

lemma readKind_short:
  assumes "ahead [b] s" "0x80 \<le> b" "b < 0xB8 \<and> k = String \<and> t = 0x80 \<or> 0xC0 \<le> b \<and> b < 0xF8 \<and> k = List \<and> t = 0xC0"
  shows "\<exists>s'. Stream_readKind s = ((k, ucast (b - t), None), s') \<and> same s' (adv 1 s)"
  using assms by (auto simp: Stream_readKind_def readByte_ahead Let_def same_def adv_def word_le_nat_alt word_less_nat_alt)

lemma readUint_ahead:
  assumes "ahead (putint z) s" "56 \<le> z"
  shows "Stream_readUint (of_nat (length (putint z))) s = (Inr z, adv (length (putint z)) s)"
proof -
  let ?n = "length (putint z)"
  have l: "1 \<le> ?n" "?n \<le> 8" unfolding length_putint by (rule intsize_bounds)+
  then have u: "unat (of_nat ?n :: u8) = ?n" by (simp add: unat_of_nat)
  have c: "ucast (of_nat ?n :: u8) = (of_nat ?n :: u64)" using u by (metis of_nat_unat)
  have z0: "z \<noteq> 0" using assms(2) by auto
  show ?thesis
  proof (cases "?n = 1")
    case True
    then obtain b where b: "putint z = [b]" by (cases "putint z") auto
    then have "z = ucast b" using be_word_putint [of z] by (simp add: be_word_def)
    then show ?thesis using assms(1) b by (simp add: Stream_readUint_def readByte_ahead)
  next
    case False
    have "(of_nat ?n :: u8) \<noteq> 0 \<and> (of_nat ?n :: u8) \<noteq> 1" using u l False by (auto simp: word_unat_eq_iff)
    moreover have "putint z ! 0 \<noteq> 0" using hd_putint [OF z0] l by (cases "putint z") auto
    ultimately show ?thesis
      using readFull_ahead [OF assms(1)] by (simp add: Stream_readUint_def c be_word_putint)
  qed
qed

lemma readKind_long:
  assumes "ahead ((t + of_nat (length (putint z))) # putint z) s" "56 \<le> z" "k = String \<and> t = 0xB7 \<or> k = List \<and> t = 0xF7"
  shows "\<exists>s'. Stream_readKind s = ((k, z, None), s') \<and> same s' (adv (1 + length (putint z)) s)"
proof -
  let ?n = "length (putint z)" and ?b = "t + of_nat (length (putint z))"
  have l: "1 \<le> ?n" "?n \<le> 8" unfolding length_putint by (rule intsize_bounds)+
  then have u: "unat (of_nat ?n :: u8) = ?n" by (simp add: unat_of_nat)
  have ub: "unat ?b = unat t + ?n" using assms(3) l u by (auto simp: unat_word_ariths)
  have a: "ahead ([?b] @ putint z) s" using assms(1) by simp
  have "ahead (putint z) ((adv 1 s)\<lparr>stByteval := 0\<rparr>)"
    using ahead_adv [OF a] by (simp add: ahead_def)
  note r = readUint_ahead [OF this assms(2)]
  have "\<not> z < 56" using assms(2) by simp
  then show ?thesis using assms(3) l ub r readByte_ahead [OF ahead_prefix [OF a]]
    by (auto simp: Stream_readKind_def Let_def word_less_nat_alt [of _ "_ :: u8"] same_def adv_def)
qed

lemma head_bytes_cases:
  assumes "kind_ok k c" "length c < 2 ^ 64"
  obtains b where "k = Byte" "c = [b]" "b < 0x80" "head_bytes k c = [b]"
  | t where "length c < 56" "k = String \<and> t = 0x80 \<or> k = List \<and> t = 0xC0" "head_bytes k c = [t + of_nat (length c)]"
  | t where "56 \<le> length c" "k = String \<and> t = 0xB7 \<or> k = List \<and> t = 0xF7"
      "head_bytes k c = (t + of_nat (length (putint (of_nat (length c))))) # putint (of_nat (length c))"
proof (cases k)
  case Byte
  then obtain b where "c = [b]" "b < 0x80" using assms(1) by (cases c) (auto simp: kind_ok_def)
  then show thesis using that(1) [of b] Byte by (simp add: head_bytes_def)
next
  case String
  then show thesis using that(2) [of "0x80"] that(3) [of "0xB7"] assms(2)
    by (cases "length c < 56") (simp_all add: head_bytes_def str_head_def head_small head_large)
next
  case List
  then show thesis using that(2) [of "0xC0"] that(3) [of "0xF7"] assms(2)
    by (cases "length c < 56") (simp_all add: head_bytes_def list_head_def head_small head_large)
qed

lemma readKind_ahead:
  assumes ok: "kind_ok k c" and a: "ahead (enc_kind k c) s"
  obtains s' where "Stream_readKind s = ((k, kind_size k c, None), s')" "same s' (adv (length (head_bytes k c)) s)"
    "k = Byte \<Longrightarrow> c = [stByteval s']"
proof -
  have h: "ahead (head_bytes k c) s" using a ahead_prefix unfolding enc_kind_head [OF ok] by blast
  have len: "length c < 2 ^ 64"
    using ahead_length [OF a] enc_kind_head [OF ok] by (auto simp: head_bytes_def split: if_splits)
  show thesis
  proof (rule head_bytes_cases [OF ok len])
    fix b assume b: "k = Byte" "c = [b]" "b < 0x80" "head_bytes k c = [b]"
    then show thesis using h readByte_ahead [of b s]
      by (intro that [of "(adv 1 s)\<lparr>stByteval := b\<rparr>"])
        (simp_all add: Stream_readKind_def Let_def kind_size_def same_def)
  next
    fix t assume t: "length c < 56" "k = String \<and> t = 0x80 \<or> k = List \<and> t = 0xC0" "head_bytes k c = [t + of_nat (length c)]"
    let ?b = "t + of_nat (length c)"
    have n: "unat (of_nat (length c) :: u8) = length c" using t(1) by (simp add: unat_of_nat)
    then have u: "unat ?b = unat t + length c" using t(1,2) by (auto simp: unat_word_ariths)
    have "ucast (of_nat (length c) :: u8) = (of_nat (length c) :: u64)" using n by (metis of_nat_unat)
    then have "ucast (?b - t) = (of_nat (length c) :: u64)" by simp
    moreover have "0x80 \<le> ?b" "?b < 0xB8 \<and> k = String \<and> t = 0x80 \<or> 0xC0 \<le> ?b \<and> ?b < 0xF8 \<and> k = List \<and> t = 0xC0"
      using t(1,2) u by (auto simp: word_le_nat_alt word_less_nat_alt)
    ultimately obtain s' where "Stream_readKind s = ((k, of_nat (length c), None), s')" "same s' (adv 1 s)"
      using readKind_short [of ?b s k t] h t(3) by auto
    then show thesis using t(2,3) by (intro that [of s']) (auto simp: kind_size_def)
  next
    fix t assume t: "56 \<le> length c" "k = String \<and> t = 0xB7 \<or> k = List \<and> t = 0xF7"
      "head_bytes k c = (t + of_nat (length (putint (of_nat (length c))))) # putint (of_nat (length c))"
    have "56 \<le> (of_nat (length c) :: u64)" using t(1) len by (simp add: word_le_nat_alt unat_of_nat_u64)
    then obtain s' where "Stream_readKind s = ((k, of_nat (length c), None), s')"
      "same s' (adv (1 + length (putint (of_nat (length c)))) s)"
      using readKind_long [of t "of_nat (length c)" s k] h t(2,3) by auto
    then show thesis using t(2,3) by (intro that [of s']) (auto simp: kind_size_def)
  qed
qed

lemma Kind_ahead:
  assumes ok: "kind_ok k c" and a: "ahead (enc_kind k c) s" and s: "stKind s = None"
  obtains s' where "Stream_Kind s = (Inr (k, kind_size k c), s')"
    "same (s'\<lparr>stKind := None\<rparr>) (adv (length (head_bytes k c)) s)" "k = Byte \<Longrightarrow> c = [stByteval s']"
proof -
  let ?s = "s\<lparr>stKinderr := None\<rparr>" and ?h = "head_bytes k c" and ?c = "if k = Byte then [] else c"
  have a': "ahead (enc_kind k c) ?s" using a by (simp add: ahead_def)
  obtain s2 where s2: "Stream_readKind ?s = ((k, kind_size k c, None), s2)" "same s2 (adv (length ?h) ?s)"
    "k = Byte \<Longrightarrow> c = [stByteval s2]" by (rule readKind_ahead [OF ok a']) blast
  have "ahead ?c (adv (length ?h) ?s)" using a' unfolding enc_kind_head [OF ok] by (rule ahead_adv)
  then have c: "ahead ?c s2" using ahead_same [OF s2(2)] by simp
  have z: "unat (kind_size k c) = length ?c" using ahead_length(3) [OF c] by (auto simp: kind_size_def split: if_splits)
  have eol: "stStack ?s = [] \<or> lpPos (hd (stStack ?s)) \<noteq> lpSize (hd (stStack ?s))"
    using a' enc_kind_nonempty [of k c] by (cases "stStack s") (auto simp: ahead_def)
  have lim: "\<not> kind_size k c > stRemaining s2"
    using c z ahead_length(1) [OF c] by (simp add: ahead_def word_less_nat_alt)
  have room: "\<not> kind_size k c > lpSize t - lpPos t" if "stStack s2 = t # ts" for t ts
  proof -
    have "unat (lpPos t) + length ?c \<le> unat (lpSize t)" using c that by (simp add: ahead_def)
    moreover from this have "unat (lpSize t - lpPos t) = unat (lpSize t) - unat (lpPos t)"
      by (intro unat_sub) (simp add: word_le_nat_alt)
    ultimately show ?thesis using z by (simp add: word_less_nat_alt)
  qed
  let ?s' = "s2\<lparr>stKind := Some k, stSize := kind_size k c, stKinderr := None\<rparr>"
  have "Stream_Kind s = (Inr (k, kind_size k c), ?s')"
    using s eol s2(1) lim room by (cases "stStack s2") (auto simp: Stream_Kind_def Let_def)
  then show thesis using s2 by (intro that [of ?s']) (auto simp: same_def adv_def)
qed

section \<open>Operations on canonical input\<close>

definition ready :: "bytes \<Rightarrow> Stream \<Rightarrow> bool" where
  "ready e s = (ahead e s \<and> stKind s = None)"

lemma ready_same: "same a b \<Longrightarrow> ready e a = ready e b"
  using ahead_same [of a b e] by (simp add: ready_def same_def)

lemma ready_adv: "ready (e @ e') s \<Longrightarrow> ready e' (adv (length e) s)"
  using ahead_adv [of e e' s] by (simp add: ready_def adv_def)

lemma ready_prefix: "ready (e @ e') s \<Longrightarrow> ready e s"
  by (auto simp: ready_def intro: ahead_prefix)

lemma Raw_ready:
  assumes ok: "kind_ok k c" and r: "ready (enc_kind k c) s"
  shows "\<exists>s'. Stream_Raw s = (Inr (enc_kind k c), s') \<and> same s' (adv (length (enc_kind k c)) s)"
proof -
  have a: "ahead (enc_kind k c) s" and n: "stKind s = None" using r by (simp_all add: ready_def)
  obtain s1 where s1: "Stream_Kind s = (Inr (k, kind_size k c), s1)"
    "same (s1\<lparr>stKind := None\<rparr>) (adv (length (head_bytes k c)) s)" "k = Byte \<Longrightarrow> c = [stByteval s1]"
    by (rule Kind_ahead [OF ok a n]) blast
  show ?thesis
  proof (cases "k = Byte")
    case True
    then show ?thesis using s1 ok
      by (auto simp: Stream_Raw_def enc_kind_head head_bytes_def)
  next
    case False
    then have e: "enc_kind k c = head_bytes k c @ c" using enc_kind_head [OF ok] by simp
    have "ahead c (s1\<lparr>stKind := None\<rparr>)" using ahead_adv a ahead_same [OF s1(2)] unfolding e by blast
    then have "ahead c s1" by (simp add: ahead_def)
    note f = readFull_ahead [OF this]
    have "same (adv (length c) (s1\<lparr>stKind := None\<rparr>)) (adv (length (enc_kind k c)) s)"
      using same_trans [OF same_adv [OF s1(2)] adv_adv] unfolding e by simp
    then have "same (adv (length c) s1) (adv (length (enc_kind k c)) s)" by (simp add: same_def adv_def)
    moreover have "(if k = String then puthead 0x80 0xB7 (kind_size k c) else puthead 0xC0 0xF7 (kind_size k c)) = head_bytes k c"
      using False by (simp add: head_bytes_def kind_size_def str_head_def list_head_def)
    ultimately show ?thesis using s1(1) f False
      by (auto simp: Stream_Raw_def kind_size_def e)
  qed
qed

lemma Bytes_ready:
  assumes r: "ready (rlp_string b) s"
  shows "\<exists>s'. Stream_Bytes s = (Inr b, s') \<and> same s' (adv (length (rlp_string b)) s)"
proof -
  let ?k = "item_kind (Str b)"
  have ok: "kind_ok ?k b" and k: "?k \<noteq> List" by (simp_all add: kind_ok_def)
  then have e: "enc_kind ?k b = rlp_string b" by (simp add: enc_kind_def)
  have a: "ahead (enc_kind ?k b) s" and n: "stKind s = None" using r e by (simp_all add: ready_def)
  obtain s1 where s1: "Stream_Kind s = (Inr (?k, kind_size ?k b), s1)"
    "same (s1\<lparr>stKind := None\<rparr>) (adv (length (head_bytes ?k b)) s)" "?k = Byte \<Longrightarrow> b = [stByteval s1]"
    by (rule Kind_ahead [OF ok a n]) blast
  show ?thesis
  proof (cases "?k = Byte")
    case True
    then have "length (rlp_string b) = length (head_bytes ?k b)" using e enc_kind_head [OF ok] by simp
    then show ?thesis using s1 True by (auto simp: Stream_Bytes_def simp del: item_kind.simps)
  next
    case False
    then have S: "?k = String" using k by (cases ?k) simp_all
    have e2: "rlp_string b = head_bytes ?k b @ b" using False e enc_kind_head [OF ok] by simp
    have "ahead b (s1\<lparr>stKind := None\<rparr>)" using ahead_adv a ahead_same [OF s1(2)] unfolding e e2 by blast
    then have "ahead b s1" by (simp add: ahead_def)
    note f = readFull_ahead [OF this] and l = ahead_length(3) [OF this]
    have "same (adv (length b) (s1\<lparr>stKind := None\<rparr>)) (adv (length (rlp_string b)) s)"
      using same_trans [OF same_adv [OF s1(2)] adv_adv] unfolding e2 by simp
    then have "same (adv (length b) s1) (adv (length (rlp_string b)) s)" by (simp add: same_def adv_def)
    moreover have "\<not> ((of_nat (length b) :: u64) = 1 \<and> b ! 0 < 128)"
    proof
      assume o: "(of_nat (length b) :: u64) = 1 \<and> b ! 0 < 128"
      then have "length b = 1" using l by simp
      then show False using o False by (cases b) auto
    qed
    ultimately show ?thesis using s1(1) f S by (auto simp: Stream_Bytes_def kind_size_def simp del: item_kind.simps)
  qed
qed

lemma uint_bytes_kind:
  obtains "i = 0" "item_kind (Str (uint_bytes i)) = String"
  | b where "i = ucast b" "b \<noteq> 0" "uint_bytes i = [b]" "item_kind (Str (uint_bytes i)) = Byte"
  | "128 \<le> i" "uint_bytes i = putint i" "item_kind (Str (uint_bytes i)) = String"
proof -
  consider "i = 0" | "i \<noteq> 0" "i < 128" | "128 \<le> i" by force
  then show thesis
  proof cases
    case 1
    then show thesis using that(1) by (simp add: uint_bytes_def)
  next
    case 2
    let ?b = "ucast i :: u8"
    have u: "unat ?b = unat i" using 2 by (simp add: word_less_nat_alt unsigned_ucast_eq take_bit_nat_eq_self)
    have "putint i = [?b]" using 2 by (auto simp: putint_def word_less_nat_alt)
    moreover have "?b < 0x80" "?b \<noteq> 0" using 2 u by (auto simp: word_less_nat_alt word_unat_eq_iff)
    moreover have "i = ucast ?b" using u by (simp add: word_unat_eq_iff unat_ucast_byte)
    ultimately show thesis using that(2) [of ?b] 2 by (simp add: uint_bytes_def)
  next
    case 3
    then have "i \<noteq> 0" by auto
    have "\<not> (length (putint i) = 1 \<and> hd (putint i) < 0x80)"
    proof
      assume a: "length (putint i) = 1 \<and> hd (putint i) < 0x80"
      then obtain b where "putint i = [b]" "b < 0x80" by (cases "putint i") auto
      then have "unat i < 128" using be_nat_putint [of i] by (simp add: word_less_nat_alt)
      then show False using 3 by (simp add: word_le_nat_alt)
    qed
    then show thesis using that(3) 3 \<open>i \<noteq> 0\<close> by (simp add: uint_bytes_def)
  qed
qed

lemma uint_ready:
  assumes r: "ready (rlp_string (uint_bytes i)) s" and m: "length (uint_bytes i) \<le> maxbits div 8" "maxbits \<le> 64"
  shows "\<exists>s'. Stream_uint maxbits s = (Inr i, s') \<and> same s' (adv (length (rlp_string (uint_bytes i))) s)"
proof -
  let ?b = "uint_bytes i"
  let ?k = "item_kind (Str ?b)"
  have ok: "kind_ok ?k ?b" by (simp add: kind_ok_def)
  have e: "enc_kind ?k ?b = rlp_string ?b" by (simp add: enc_kind_def)
  have a: "ahead (enc_kind ?k ?b) s" and n: "stKind s = None" using r e by (simp_all add: ready_def)
  obtain s1 where s1: "Stream_Kind s = (Inr (?k, kind_size ?k ?b), s1)"
    "same (s1\<lparr>stKind := None\<rparr>) (adv (length (head_bytes ?k ?b)) s)" "?k = Byte \<Longrightarrow> ?b = [stByteval s1]"
    by (rule Kind_ahead [OF ok a n]) blast
  show ?thesis
  proof (cases rule: uint_bytes_kind [of i])
    case 1
    then have "length (rlp_string ?b) = length (head_bytes ?k ?b)"
      using e enc_kind_head [OF ok] by (simp add: uint_bytes_def)
    then show ?thesis using s1 1
      by (auto simp: Stream_uint_def Stream_readUint_def kind_size_def uint_bytes_def simp del: item_kind.simps)
  next
    case (2 b)
    then have "length (rlp_string ?b) = length (head_bytes ?k ?b)" using e enc_kind_head [OF ok] by simp
    then show ?thesis using s1 2 by (auto simp: Stream_uint_def simp del: item_kind.simps)
  next
    case 3
    have e2: "rlp_string ?b = head_bytes ?k ?b @ ?b" using 3 e enc_kind_head [OF ok] by (simp del: item_kind.simps)
    have "ahead ?b (s1\<lparr>stKind := None\<rparr>)" using ahead_adv a ahead_same [OF s1(2)] unfolding e e2 by blast
    then have a1: "ahead (putint i) s1" using 3 by (simp add: ahead_def)
    have "56 \<le> i" using 3(1) by (simp add: word_le_nat_alt)
    note f = readUint_ahead [OF a1 this]
    have "same (adv (length ?b) (s1\<lparr>stKind := None\<rparr>)) (adv (length (rlp_string ?b)) s)"
      using same_trans [OF same_adv [OF s1(2)] adv_adv] unfolding e2 by simp
    then have "same (adv (length ?b) s1) (adv (length (rlp_string ?b)) s)" by (simp add: same_def adv_def)
    moreover have "\<not> (of_nat (length (putint i)) :: u64) > of_nat (maxbits div 8)"
      using m 3(2) ahead_length(3) [OF a1] by (simp add: word_less_nat_alt unat_of_nat)
    moreover have "ucast (of_nat (length (putint i)) :: u64) = (of_nat (length (putint i)) :: u8)"
      using intsize_bounds(2) [of i] by (intro ucast_of_nat_u64) (simp add: length_putint)
    ultimately show ?thesis using s1(1) f 3
      by (auto simp: Stream_uint_def kind_size_def linorder_not_less simp del: item_kind.simps)
  qed
qed

lemma Bool_ready:
  assumes "ready (rlp_string (if b then [1] else [])) s"
  shows "\<exists>s'. Stream_Bool s = (Inr b, s') \<and> same s' (adv (length (rlp_string (if b then [1] else []))) s)"
proof -
  have u: "uint_bytes (if b then 1 else 0) = (if b then [1] else [])" by (simp add: uint_bytes_def putint_def)
  show ?thesis using uint_ready [of "if b then 1 else 0" s 8] assms u
    by (cases b) (auto simp: Stream_Bool_def)
qed

section \<open>Lists\<close>

definition at_eol :: "Stream \<Rightarrow> bool" where
  "at_eol s = (stKind s = None \<and> stStack s \<noteq> [] \<and> lpPos (hd (stStack s)) = lpSize (hd (stStack s)))"

lemma at_eol_same: "same a b \<Longrightarrow> at_eol a = at_eol b"
  by (simp add: same_def at_eol_def)

lemma Kind_eol: "at_eol s \<Longrightarrow> \<exists>s'. Stream_Kind s = (Inl EOL, s') \<and> same s' s"
  by (simp add: at_eol_def Stream_Kind_def Let_def same_def)

text \<open>
  Entering a canonical list leaves the stream at its content; behind the content it is at the end of the list, and
  leaving the list there puts it behind the whole value.
\<close>

lemma List_ready:
  assumes r: "ready (list_head (length c) @ c) s"
  obtains s1 where "Stream_List s = (Inr (of_nat (length c)), s1)" "ready c s1"
    "\<And>s'. same s' (adv (length c) s1) \<Longrightarrow> at_eol s'"
    "\<And>s'. same s' (adv (length c) s1) \<Longrightarrow>
       \<exists>s2. Stream_ListEnd s' = (None, s2) \<and> same s2 (adv (length (list_head (length c) @ c)) s)"
proof -
  let ?h = "list_head (length c)"
  have ok: "kind_ok List c" and e: "enc_kind List c = ?h @ c" by (simp_all add: kind_ok_def enc_kind_def)
  have h: "head_bytes List c = ?h" by (simp add: head_bytes_def)
  have a: "ahead (enc_kind List c) s" and n: "stKind s = None" using r e by (simp_all add: ready_def)
  obtain s0 where s0: "Stream_Kind s = (Inr (List, kind_size List c), s0)" "same (s0\<lparr>stKind := None\<rparr>) (adv (length ?h) s)"
    using Kind_ahead [OF ok a n] unfolding h by blast
  let ?t = "\<lparr>lpPos = 0, lpSize = of_nat (length c)\<rparr>"
  let ?s1 = "s0\<lparr>stStack := ?t # stStack s0, stKind := None, stSize := 0\<rparr>"
  have c: "ahead c (s0\<lparr>stKind := None\<rparr>)" using ahead_adv a ahead_same [OF s0(2)] unfolding e by blast
  note l = ahead_length(3) [OF c]
  have 1: "Stream_List s = (Inr (of_nat (length c)), ?s1)" using s0(1) by (simp add: Stream_List_def kind_size_def)
  have 2: "ready c ?s1" using c l by (simp add: ready_def ahead_def)
  have st: "stStack s' = ?t\<lparr>lpPos := of_nat (length c)\<rparr> # stStack s0" if "same s' (adv (length c) ?s1)" for s'
    using that by (simp add: same_def adv_def)
  have 3: "at_eol s'" if "same s' (adv (length c) ?s1)" for s'
    using st [OF that] that by (simp add: at_eol_def same_def adv_def)
  have 4: "\<exists>s2. Stream_ListEnd s' = (None, s2) \<and> same s2 (adv (length (?h @ c)) s)" if "same s' (adv (length c) ?s1)" for s'
  proof -
    let ?s2 = "s'\<lparr>stStack := bump (length c) (stStack s0), stKind := None, stSize := 0\<rparr>"
    have "Stream_ListEnd s' = (None, ?s2)"
      using st [OF that] by (cases "stStack s0") (simp_all add: Stream_ListEnd_def)
    moreover have "stR s0 = drop (length ?h) (stR s)" "stRemaining s0 = stRemaining s - of_nat (length ?h)"
      "stLimited s0 = stLimited s" "stStack s0 = bump (length ?h) (stStack s)"
      using s0(2) by (simp_all add: same_def adv_def)
    moreover have "stR s' = drop (length c) (stR s0)" "stRemaining s' = stRemaining s0 - of_nat (length c)" "stLimited s' = stLimited s0"
      using that by (simp_all add: same_def adv_def)
    ultimately show ?thesis by (simp add: same_def adv_def add.commute)
  qed
  show thesis using 1 2 3 4 by (rule that)
qed

text \<open>A decoder reads the encoding \<open>e\<close> as \<open>v\<close>, wherever it stands.\<close>

definition reads :: "'a decoder \<Rightarrow> bytes \<Rightarrow> 'a \<Rightarrow> bool" where
  "reads d e v = (\<forall>s. ready e s \<longrightarrow> (\<exists>s'. d s = Some (Inr v, s') \<and> same s' (adv (length e) s)))"

definition stops :: "'a decoder \<Rightarrow> bool" where
  "stops d = (\<forall>s. at_eol s \<longrightarrow> (\<exists>s'. d s = Some (Inl EOL, s') \<and> same s' s))"

lemma readsI: "(\<And>s. ready e s \<Longrightarrow> \<exists>s'. d s = Some (Inr v, s') \<and> same s' (adv (length e) s)) \<Longrightarrow> reads d e v"
  by (simp add: reads_def)

lemma stopsI: "(\<And>s. at_eol s \<Longrightarrow> \<exists>s'. d s = Some (Inl EOL, s') \<and> same s' s) \<Longrightarrow> stops d"
  by (simp add: stops_def)

lemma SliceElems_ready:
  assumes "list_all2 (reads d) es vs" "stops d" "length vs < fuel"
    "ready (concat es) s" "\<And>s'. same s' (adv (length (concat es)) s) \<Longrightarrow> at_eol s'"
  shows "\<exists>s'. decodeSliceElems fuel d s = Some (Inr vs, s') \<and> same s' (adv (length (concat es)) s)"
  using assms
proof (induction es vs arbitrary: s fuel rule: list_all2_induct)
  case Nil
  have "same s (adv 0 s)" using Nil.prems(3) by (cases "stStack s") (simp_all add: same_def adv_def ready_def)
  then have "at_eol s" using Nil.prems(4) [of s] by simp
  then show ?case using Nil.prems(1,2) \<open>same s (adv 0 s)\<close>
    by (cases fuel) (auto simp: stops_def dest!: spec [of _ s] intro: same_trans)
next
  case (Cons e es v vs)
  obtain m where m: "fuel = Suc m" using Cons.prems(2) by (cases fuel) auto
  have r: "ready (e @ concat es) s" using Cons.prems(3) by simp
  obtain s1 where s1: "d s = Some (Inr v, s1)" "same s1 (adv (length e) s)"
    using Cons.hyps(1) ready_prefix [OF r] unfolding reads_def by blast
  have step: "same x (adv (length (concat (e # es))) s)" if "same x (adv (length (concat es)) s1)" for x
    using same_trans [OF that same_trans [OF same_adv [OF s1(2)] adv_adv]] by simp
  have "ready (concat es) s1" using ready_adv [OF r] ready_same [OF s1(2)] by simp
  moreover have "at_eol x" if "same x (adv (length (concat es)) s1)" for x
    using Cons.prems(4) step [OF that] by blast
  ultimately obtain s' where "decodeSliceElems m d s1 = Some (Inr vs, s')" "same s' (adv (length (concat es)) s1)"
    using Cons.IH [of m s1] Cons.prems(1,2) m by auto
  then show ?case using s1(1) m step by auto
qed

end
