(* ===== verification/Rlp_Typed.thy ===== *)
theory Rlp_Typed
  imports Rlp_Round
begin

text \<open>
  Typed values round trip: what \<^verbatim>\<open>EncodeToBytes\<close> produces for a value of a type, \<^verbatim>\<open>DecodeBytes\<close> at that type reads
  back as the value.
\<close>

section \<open>Lists of values\<close>

lemma same_adv_0: "stKind s = None \<Longrightarrow> same s (adv 0 s)"
  by (cases "stStack s") (simp_all add: same_def adv_def)

lemma ListSlice_reads:
  assumes "list_all2 (reads d) es vs" "stops d" "length vs < fuel" "\<forall>e \<in> set es. e \<noteq> []"
  shows "reads (decodeListSlice fuel d) (list_head (length (concat es)) @ concat es) vs"
proof (rule readsI)
  fix s assume r: "ready (list_head (length (concat es)) @ concat es) s"
  let ?c = "concat es" and ?e = "list_head (length (concat es)) @ concat es"
  obtain s1 where s1: "Stream_List s = (Inr (of_nat (length ?c)), s1)" "ready ?c s1"
    "\<And>s'. same s' (adv (length ?c) s1) \<Longrightarrow> at_eol s'"
    "\<And>s'. same s' (adv (length ?c) s1) \<Longrightarrow> \<exists>s2. Stream_ListEnd s' = (None, s2) \<and> same s2 (adv (length ?e) s)"
    by (rule List_ready [OF r]) blast
  have n: "unat (of_nat (length ?c) :: u64) = length ?c" using s1(2) by (auto simp: ready_def dest: ahead_length(3))
  show "\<exists>s'. decodeListSlice fuel d s = Some (Inr vs, s') \<and> same s' (adv (length ?e) s)"
  proof (cases "?c = []")
    case True
    then have "vs = []" using assms(1,4) by (cases es) (auto simp: list_all2_Cons1)
    moreover have "same s1 (adv (length ?c) s1)"
      using same_adv_0 [of s1] s1(2) by (simp only: True list.size ready_def)
    then obtain s2 where l: "Stream_ListEnd s1 = (None, s2)" "same s2 (adv (length ?e) s)" using s1(4) by blast
    moreover have "(of_nat (length ?c) :: u64) = 0" unfolding True by simp
    ultimately have "decodeListSlice fuel d s = Some (Inr vs, s2)"
      by (simp only: decodeListSlice_def s1(1) l(1) Let_def prod.case sum.case option.case simp_thms if_True)
    then show ?thesis using l(2) by blast
  next
    case False
    then have "(of_nat (length ?c) :: u64) \<noteq> 0" using n by force
    moreover obtain s2 where e: "decodeSliceElems fuel d s1 = Some (Inr vs, s2)" "same s2 (adv (length ?c) s1)"
      using SliceElems_ready [OF assms(1-3) s1(2,3)] by blast
    moreover obtain s3 where l: "Stream_ListEnd s2 = (None, s3)" "same s3 (adv (length ?e) s)"
      using s1(4) [OF e(2)] by blast
    ultimately have "decodeListSlice fuel d s = Some (Inr vs, s3)"
      by (simp only: decodeListSlice_def s1(1) e(1) l(1) Let_def prod.case sum.case option.case simp_thms if_False)
    then show ?thesis using l(2) by blast
  qed
qed

lemma ListArray_loop_ready:
  assumes "list_all2 (reads d) es vs" "ready (concat es) s"
    "\<And>s'. same s' (adv (length (concat es)) s) \<Longrightarrow> \<exists>s2. Stream_ListEnd s' = (None, s2) \<and> same s2 t"
  shows "\<exists>s'. decodeListArray_loop (length vs) d s = Some (Inr vs, s') \<and> same s' t"
  using assms
proof (induction es vs arbitrary: s rule: list_all2_induct)
  case Nil
  have "same s (adv 0 s)" using Nil.prems(1) by (simp add: same_adv_0 ready_def)
  then show ?case using Nil.prems(2) [of s] by auto
next
  case (Cons e es v vs)
  have r: "ready (e @ concat es) s" using Cons.prems(1) by simp
  obtain s1 where s1: "d s = Some (Inr v, s1)" "same s1 (adv (length e) s)"
    using Cons.hyps(1) ready_prefix [OF r] unfolding reads_def by blast
  have "ready (concat es) s1" using ready_adv [OF r] ready_same [OF s1(2)] by simp
  moreover have "\<exists>s2. Stream_ListEnd x = (None, s2) \<and> same s2 t" if "same x (adv (length (concat es)) s1)" for x
    using Cons.prems(2) same_trans [OF that same_trans [OF same_adv [OF s1(2)] adv_adv]] by simp
  ultimately show ?case using Cons.IH [of s1] s1(1) by auto
qed

lemma ListArray_reads:
  assumes "list_all2 (reads d) es vs"
  shows "reads (decodeListArray (length vs) d) (list_head (length (concat es)) @ concat es) vs"
proof (rule readsI)
  fix s assume r: "ready (list_head (length (concat es)) @ concat es) s"
  show "\<exists>s'. decodeListArray (length vs) d s = Some (Inr vs, s') \<and>
      same s' (adv (length (list_head (length (concat es)) @ concat es)) s)"
    by (rule List_ready [OF r]) (use ListArray_loop_ready [OF assms] in \<open>force simp: decodeListArray_def\<close>)
qed

section \<open>Decoders depend on the stream only through the kind ahead\<close>

lemma ops_again:
  assumes "Stream_Kind s' = Stream_Kind s"
  shows "Stream_Bytes s' = Stream_Bytes s" "Stream_Raw s' = Stream_Raw s" "Stream_uint n s' = Stream_uint n s"
    "Stream_Bool s' = Stream_Bool s" "Stream_List s' = Stream_List s"
  using assms by (simp_all add: Stream_Bytes_def Stream_Raw_def Stream_uint_def Stream_Bool_def Stream_List_def)

lemma SliceElems_again: "d s' = d s \<Longrightarrow> decodeSliceElems fuel d s' = decodeSliceElems fuel d s"
  by (cases fuel) simp_all

lemma ListSlice_again: "Stream_Kind s' = Stream_Kind s \<Longrightarrow> decodeListSlice fuel d s' = decodeListSlice fuel d s"
  using ops_again(5) [of s' s] by (simp add: decodeListSlice_def)

lemma Interface_again: "Stream_Kind s' = Stream_Kind s \<Longrightarrow> decodeInterface fuel s' = decodeInterface fuel s"
  by (cases fuel) simp_all

lemma decoder_again:
  assumes k: "Stream_Kind s' = Stream_Kind s"
  shows "makeDecoder fuel t nilOK tail s' = makeDecoder fuel t nilOK tail s"
proof (induction t arbitrary: nilOK tail)
  case (TSlice t)
  show ?case using SliceElems_again [OF TSlice [of False False]]
    by (simp add: decodeListSlice_def ops_again [OF k])
next
  case (TPtr t)
  show ?case using TPtr [of False False] k by (simp add: decodePtr_def decodeOptionalPtr_def)
qed (simp_all add: decodeRawValue_def decodeBigInt_def decodeUint_def decodeBool_def decodeString_def decodeByteSlice_def
    decodeByteArray_def decodeListArray_def k ops_again [OF k] Interface_again [OF k])

text \<open>At the end of a list every decoder of one value says so.\<close>

lemma ops_eol:
  assumes "at_eol s"
  shows "\<exists>s'. Stream_Bytes s = (Inl EOL, s') \<and> same s' s" "\<exists>s'. Stream_Raw s = (Inl EOL, s') \<and> same s' s"
    "\<exists>s'. Stream_uint n s = (Inl EOL, s') \<and> same s' s" "\<exists>s'. Stream_Bool s = (Inl EOL, s') \<and> same s' s"
    "\<exists>s'. Stream_List s = (Inl EOL, s') \<and> same s' s"
  using Kind_eol [OF assms]
  by (auto simp: Stream_Bytes_def Stream_Raw_def Stream_uint_def Stream_Bool_def Stream_List_def)

lemma wrap_EOL [simp]: "wrapStreamError EOL = EOL"
  by (simp add: wrapStreamError_def)

lemma stops_by:
  assumes "\<And>s. at_eol s \<Longrightarrow> \<exists>s'. opn s = (Inl EOL, s') \<and> same s' s"
    "\<And>s s'. opn s = (Inl EOL, s') \<Longrightarrow> d s = Some (Inl EOL, s')"
  shows "stops d"
  using assms unfolding stops_def by meson

lemma stops_decoders:
  "stops decodeRawValue" "stops decodeBigInt" "stops (decodeUint n)" "stops decodeBool" "stops decodeString"
  "stops decodeByteSlice" "stops (decodeByteArray n)" "stops (decodeListSlice fuel d)" "stops (decodeListArray n d)"
proof -
  show "stops decodeRawValue" by (rule stops_by [OF ops_eol(2)]) (simp_all add: decodeRawValue_def)
  show "stops decodeBigInt" by (rule stops_by [OF ops_eol(1)]) (simp_all add: decodeBigInt_def)
  show "stops (decodeUint n)" by (rule stops_by [where opn = "Stream_uint n", OF ops_eol(3)]) (simp_all add: decodeUint_def)
  show "stops decodeBool" by (rule stops_by [OF ops_eol(4)]) (simp_all add: decodeBool_def)
  show "stops decodeString" by (rule stops_by [OF ops_eol(1)]) (simp_all add: decodeString_def)
  show "stops decodeByteSlice" by (rule stops_by [OF ops_eol(1)]) (simp_all add: decodeByteSlice_def)
  show "stops (decodeByteArray n)" by (rule stops_by [OF Kind_eol]) (simp_all add: decodeByteArray_def)
  show "stops (decodeListSlice fuel d)" by (rule stops_by [OF ops_eol(5)]) (simp_all add: decodeListSlice_def)
  show "stops (decodeListArray n d)" by (rule stops_by [OF ops_eol(5)]) (simp_all add: decodeListArray_def)
qed

lemma stops_map:
  assumes "stops d" "\<And>s s'. d s = Some (Inl EOL, s') \<Longrightarrow> d' s = Some (Inl EOL, s')"
  shows "stops d'"
  using assms unfolding stops_def by meson

lemma decoder_stops: "0 < fuel \<Longrightarrow> stops (makeDecoder fuel t nilOK False)"
proof (induction t arbitrary: nilOK)
  case (TSlice t)
  show ?case by (rule stops_map [OF stops_decoders(8) [of fuel "makeDecoder fuel t False False"]]) simp
next
  case (TArray n t)
  show ?case by (rule stops_map [OF stops_decoders(9) [of n "makeDecoder fuel t False False"]]) simp
next
  case (TStruct fs)
  show ?case by (rule stops_by [OF ops_eol(5)]) simp_all
next
  case (TPtr t)
  have "stops (decodeOptionalPtr (makeDecoder fuel t False False))"
  proof (rule stopsI)
    fix s assume e: "at_eol s"
    obtain s' where "Stream_Kind s = (Inl EOL, s')" "same s' s" using Kind_eol [OF e] by blast
    then show "\<exists>s'. decodeOptionalPtr (makeDecoder fuel t False False) s = Some (Inl EOL, s') \<and> same s' s"
      using e by (simp add: decodeOptionalPtr_def same_def at_eol_def)
  qed
  moreover have "stops (decodePtr (makeDecoder fuel t False False))"
    by (rule stops_map [OF TPtr.IH [OF TPtr.prems, of False]]) (simp add: decodePtr_def)
  ultimately show ?case by (cases nilOK) (simp_all add: stops_def)
next
  case TInterface
  then obtain m where "fuel = Suc m" by (cases fuel) auto
  then show ?case by (intro stops_by [OF Kind_eol]) simp_all
next
  case TRawValue
  show ?case by (rule stops_map [OF stops_decoders(1)]) simp
next
  case TBigIntPtr
  show ?case by (rule stops_map [OF stops_decoders(2)]) simp
next
  case TBigInt
  show ?case by (rule stops_map [OF stops_decoders(2)]) simp
next
  case (TUint n)
  show ?case by (rule stops_map [OF stops_decoders(3) [of n]]) simp
next
  case TBool
  show ?case by (rule stops_map [OF stops_decoders(4)]) simp
next
  case TString
  show ?case by (rule stops_map [OF stops_decoders(5)]) simp
next
  case TBytes
  show ?case by (rule stops_map [OF stops_decoders(6)]) simp
next
  case (TByteArray n)
  show ?case by (rule stops_map [OF stops_decoders(7) [of n]]) simp
qed

section \<open>Single values\<close>

lemma reads_by:
  assumes "\<And>s. ready e s \<Longrightarrow> \<exists>s'. opn s = (Inr x, s') \<and> same s' (adv (length e) s)"
    "\<And>s s'. opn s = (Inr x, s') \<Longrightarrow> d s = Some (Inr v, s')"
  shows "reads d e v"
  using assms unfolding reads_def by meson

lemma reads_map:
  assumes "reads d e x" "\<And>s s'. d s = Some (Inr x, s') \<Longrightarrow> d' s = Some (Inr v, s')"
  shows "reads d' e v"
  using assms unfolding reads_def by meson

lemma be_nat_nat_bytes: "be_nat (nat_bytes n) = n"
proof (induction n rule: nat_bytes.induct)
  case (1 n)
  then show ?case by (subst nat_bytes.simps) (simp add: be_nat_snoc unat_of_nat)
qed

lemma hd_nat_bytes: "n \<noteq> 0 \<Longrightarrow> nat_bytes n \<noteq> [] \<and> hd (nat_bytes n) \<noteq> 0"
proof (induction n rule: nat_bytes.induct)
  case (1 n)
  show ?case
  proof (cases "n div 256 = 0")
    case True
    then have "n < 256" by (simp add: div_eq_0_iff)
    then have "(of_nat n :: u8) \<noteq> 0" using 1(2) by (simp add: word_unat_eq_iff unat_of_nat)
    then show ?thesis using 1(2) True by (subst (1 2) nat_bytes.simps) simp
  next
    case False
    then show ?thesis using 1 by (subst (1 2) nat_bytes.simps) simp
  qed
qed

lemma BigInt_reads: "reads decodeBigInt (rlp_string (nat_bytes n)) (VBig (Some (int n)))"
proof (rule reads_by [OF Bytes_ready])
  have "\<not> (length (nat_bytes n) > 0 \<and> nat_bytes n ! 0 = 0)"
    using hd_nat_bytes [of n] by (cases "n = 0") (auto simp: hd_conv_nth)
  then show "decodeBigInt s = Some (Inr (VBig (Some (int n))), s')" if "Stream_Bytes s = (Inr (nat_bytes n), s')" for s s'
    using that by (auto simp: decodeBigInt_def be_nat_nat_bytes)
qed

lemma ByteArray_reads:
  assumes n: "length b = n" and z: "b \<noteq> [0]"
  shows "reads (decodeByteArray n) (rlp_string b) (VBytes b)"
proof (rule readsI)
  fix s assume r: "ready (rlp_string b) s"
  let ?k = "item_kind (Str b)"
  have ok: "kind_ok ?k b" and e: "enc_kind ?k b = rlp_string b" by (simp_all add: kind_ok_def enc_kind_def)
  have a: "ahead (enc_kind ?k b) s" and kn: "stKind s = None" using r e by (simp_all add: ready_def)
  obtain s1 where s1: "Stream_Kind s = (Inr (?k, kind_size ?k b), s1)"
    "same (s1\<lparr>stKind := None\<rparr>) (adv (length (head_bytes ?k b)) s)" "?k = Byte \<Longrightarrow> b = [stByteval s1]"
    by (rule Kind_ahead [OF ok a kn]) blast
  show "\<exists>s'. decodeByteArray n s = Some (Inr (VBytes b), s') \<and> same s' (adv (length (rlp_string b)) s)"
  proof (cases "?k = Byte")
    case True
    then have l: "length (rlp_string b) = length (head_bytes ?k b)" using e enc_kind_head [OF ok] by simp
    have b: "b = [stByteval s1]" "stByteval s1 \<noteq> 0" using s1(3) [OF True] z by auto
    have "Stream_Uint s1 = (Inr (ucast (stByteval s1)), s1\<lparr>stKind := None\<rparr>)"
      using Kind_again [OF s1(1)] True b(2) by (simp add: Stream_Uint_def Stream_uint_def del: item_kind.simps)
    moreover have "n = 1" using n b(1) by (cases b) simp_all
    moreover have "ucast (ucast (stByteval s1) :: u64) = stByteval s1"
      by (rule bit_word_eqI) (auto simp: bit_simps dest: bit_imp_le_length)
    ultimately have "decodeByteArray n s = Some (Inr (VBytes b), s1\<lparr>stKind := None\<rparr>)"
      using s1(1) True b(1) by (simp add: decodeByteArray_def del: item_kind.simps)
    then show ?thesis using s1(2) l by auto
  next
    case False
    then have S: "?k = String" by (simp split: if_splits)
    have e2: "rlp_string b = head_bytes ?k b @ b" using False e enc_kind_head [OF ok] by simp
    have "ahead b (s1\<lparr>stKind := None\<rparr>)" using ahead_adv a ahead_same [OF s1(2)] unfolding e e2 by blast
    then have "ahead b s1" by (simp add: ahead_def)
    note f = readFull_ahead [OF this] and l = ahead_length(3) [OF this]
    have "\<not> ((of_nat (length b) :: u64) = 1 \<and> b ! 0 < 128)"
    proof
      assume o: "(of_nat (length b) :: u64) = 1 \<and> b ! 0 < 128"
      then have "length b = 1" using l by simp
      then show False using o False by (cases b) auto
    qed
    then have "decodeByteArray n s = Some (Inr (VBytes b), adv (length b) s1)"
      using s1(1) f S n by (simp add: decodeByteArray_def kind_size_def del: item_kind.simps)
    moreover have "same (adv (length b) (s1\<lparr>stKind := None\<rparr>)) (adv (length (rlp_string b)) s)"
      using same_trans [OF same_adv [OF s1(2)] adv_adv] unfolding e2 by simp
    ultimately show ?thesis by (simp add: same_def adv_def)
  qed
qed

text \<open>Values without raw parts, as an interface variable holds them.\<close>

fun plain :: "rlp_item \<Rightarrow> bool" where
  "plain (Str b) = True"
| "plain (Lst its) = (\<forall>it \<in> set its. plain it)"
| "plain (Raw b) = False"

lemma rlp_nonempty: "is_value it \<Longrightarrow> rlp it \<noteq> []"
  using rlp_enc_kind [of it] enc_kind_nonempty by simp

lemma length_rlp_elem: "it \<in> set its \<Longrightarrow> length (rlp it) \<le> length (concat (map rlp its))"
  by (induction its) auto

lemma elems_le_bytes: "\<forall>e \<in> set es. e \<noteq> [] \<Longrightarrow> length es \<le> length (concat es)"
proof (induction es)
  case (Cons e es)
  then show ?case by (cases e) auto
qed simp

lemma list_head_nonempty: "0 < length (list_head n)"
  by (simp add: list_head_def length_puthead headsize_def)

lemma Interface_reads: "plain it \<Longrightarrow> length (rlp it) < fuel \<Longrightarrow> reads (decodeInterface fuel) (rlp it) it"
proof (induction it arbitrary: fuel)
  case (Str b)
  obtain m where m: "fuel = Suc m" using Str.prems(2) by (cases fuel) auto
  have e: "enc_kind (item_kind (Str b)) b = rlp_string b" "kind_ok (item_kind (Str b)) b"
    by (simp_all add: enc_kind_def kind_ok_def)
  show ?case
  proof (rule readsI)
    fix s assume "ready (rlp (Str b)) s"
    then have r: "ready (rlp_string b) s" by simp
    then have a: "ahead (enc_kind (item_kind (Str b)) b) s" "stKind s = None" using e by (simp_all add: ready_def)
    obtain z s1 where k: "Stream_Kind s = (Inr (item_kind (Str b), z), s1)"
      using Kind_ahead [OF e(2) a] by blast
    have "Stream_Kind s1 = Stream_Kind s" using Kind_again [OF k] k by simp
    note o = ops_again(1) [OF this]
    obtain s' where s': "Stream_Bytes s = (Inr b, s')" "same s' (adv (length (rlp_string b)) s)"
      using Bytes_ready [OF r] by blast
    have "decodeInterface fuel s = Some (Inr (Str b), s')"
      using k o s'(1) by (simp add: m)
    then show "\<exists>s'. decodeInterface fuel s = Some (Inr (Str b), s') \<and> same s' (adv (length (rlp (Str b))) s)"
      using s'(2) by simp
  qed
next
  case (Lst its)
  obtain m where m: "fuel = Suc m" using Lst.prems(2) by (cases fuel) auto
  let ?c = "concat (map rlp its)"
  have v: "\<forall>e \<in> set (map rlp its). e \<noteq> []"
  proof -
    have "is_value it" if "it \<in> set its" for it using Lst.prems(1) that by (cases it) auto
    then show ?thesis using rlp_nonempty by auto
  qed
  have "length (list_head (length ?c)) + length ?c < Suc m" using Lst.prems(2) m by (simp add: Let_def)
  then have lc: "length ?c < m" using list_head_nonempty [of "length ?c"] by linarith
  have "reads (decodeInterface m) (rlp it) it" if "it \<in> set its" for it
    using Lst.IH [OF that, of m] Lst.prems(1) that length_rlp_elem [OF that] lc by auto
  then have "list_all2 (reads (decodeInterface m)) (map rlp its) its" by (simp add: list_all2_conv_all_nth)
  moreover have "stops (decodeInterface m)"
    using lc by (cases m) (simp, intro stops_by [OF Kind_eol], simp_all)
  moreover have "length its < m" using elems_le_bytes [OF v] lc by simp
  ultimately have l: "reads (decodeListSlice m (decodeInterface m)) (list_head (length ?c) @ ?c) its"
    using v by (rule ListSlice_reads)
  have e: "enc_kind List ?c = list_head (length ?c) @ ?c" "kind_ok List ?c" by (simp_all add: enc_kind_def kind_ok_def)
  show ?case
  proof (rule readsI)
    fix s assume "ready (rlp (Lst its)) s"
    then have r: "ready (list_head (length ?c) @ ?c) s" by (simp add: Let_def)
    then have a: "ahead (enc_kind List ?c) s" "stKind s = None" using e by (simp_all add: ready_def)
    obtain z s1 where k: "Stream_Kind s = (Inr (List, z), s1)" using Kind_ahead [OF e(2) a] by blast
    have "Stream_Kind s1 = Stream_Kind s" using Kind_again [OF k] k by simp
    note o = ListSlice_again [OF this, of m "decodeInterface m"]
    obtain s' where s': "decodeListSlice m (decodeInterface m) s = Some (Inr its, s')"
      "same s' (adv (length (list_head (length ?c) @ ?c)) s)" using l r unfolding reads_def by blast
    have "decodeInterface fuel s = Some (Inr (Lst its), s')" using k o s'(1) by (simp add: m)
    then show "\<exists>s'. decodeInterface fuel s = Some (Inr (Lst its), s') \<and> same s' (adv (length (rlp (Lst its))) s)"
      using s'(2) by (simp add: Let_def)
  qed
qed simp

section \<open>The values of a type\<close>

text \<open>The RLP values a Go value is written as: one, or the elements of a slice with the \<^verbatim>\<open>tail\<close> tag.\<close>

fun items :: "gtype \<Rightarrow> bool \<Rightarrow> gval \<Rightarrow> rlp_item list"
  and items_fields :: "(gtype \<times> bool \<times> bool) list \<Rightarrow> gval list \<Rightarrow> rlp_item list" where
  "items TRawValue tail v = (case v of VRaw b \<Rightarrow> [Raw b] | _ \<Rightarrow> [])"
| "items TBigIntPtr tail v =
     (case v of VBig (Some i) \<Rightarrow> [Str (nat_bytes (nat i))] | _ \<Rightarrow> [Str []])"
| "items TBigInt tail v = (case v of VBig (Some i) \<Rightarrow> [Str (nat_bytes (nat i))] | _ \<Rightarrow> [])"
| "items (TUint bits) tail v = (case v of VUint i \<Rightarrow> [Str (uint_bytes i)] | _ \<Rightarrow> [])"
| "items TBool tail v = (case v of VBool b \<Rightarrow> [Str (if b then [1] else [])] | _ \<Rightarrow> [])"
| "items TString tail v = (case v of VBytes b \<Rightarrow> [Str b] | _ \<Rightarrow> [])"
| "items TBytes tail v = (case v of VBytes b \<Rightarrow> [Str b] | _ \<Rightarrow> [])"
| "items (TByteArray n) tail v = (case v of VBytes b \<Rightarrow> [Str b] | _ \<Rightarrow> [])"
| "items (TSlice e) tail v =
     (case v of
        VList vs \<Rightarrow> let xs = concat (map (items e False) vs) in if tail then xs else [Lst xs]
      | _ \<Rightarrow> [])"
| "items (TArray n e) tail v =
     (case v of VList vs \<Rightarrow> [Lst (concat (map (items e False) vs))] | _ \<Rightarrow> [])"
| "items (TStruct fs) tail v = (case v of VList vs \<Rightarrow> [Lst (items_fields fs vs)] | _ \<Rightarrow> [])"
| "items (TPtr e) tail v =
     (case v of
        VPtr (Some x) \<Rightarrow> items e False x
      | VPtr None \<Rightarrow>
          (case e of
             TByteArray n \<Rightarrow> [Str []]
           | TStruct fs \<Rightarrow> [Lst []]
           | TArray n e' \<Rightarrow> [Lst []]
           | _ \<Rightarrow> items e False (zero_value e))
      | _ \<Rightarrow> [])"
| "items TInterface tail v = (case v of VIface (Some it) \<Rightarrow> [it] | _ \<Rightarrow> [Raw [0xC0]])"
| "items_fields [] vs = []"
| "items_fields (f # fs) vs =
     (case vs of [] \<Rightarrow> [] | v # vs \<Rightarrow> items (fst f) (snd (snd f)) v @ items_fields fs vs)"

abbreviation bytes_of :: "rlp_item list \<Rightarrow> bytes" where
  "bytes_of its \<equiv> concat (map rlp its)"

text \<open>
  The values that survive the round trip. Not among them: a nil pointer where the tag \<^verbatim>\<open>nil\<close> is missing, a pointer to
  an empty value where it is present, a nil interface, a nil or negative integer, a one-byte array holding zero, and
  a raw value that is not one canonical encoding.
\<close>

fun survives :: "gtype \<Rightarrow> bool \<Rightarrow> bool \<Rightarrow> gval \<Rightarrow> bool"
  and survive_fields :: "(gtype \<times> bool \<times> bool) list \<Rightarrow> gval list \<Rightarrow> bool" where
  "survives TRawValue nilOK tail v =
     (case v of
        VRaw b \<Rightarrow> (case Split b of Some (Inr (k, c, r)) \<Rightarrow> r = [] | _ \<Rightarrow> False)
      | _ \<Rightarrow> False)"
| "survives TBigIntPtr nilOK tail v = (case v of VBig (Some i) \<Rightarrow> 0 \<le> i | _ \<Rightarrow> False)"
| "survives TBigInt nilOK tail v = (case v of VBig (Some i) \<Rightarrow> 0 \<le> i | _ \<Rightarrow> False)"
| "survives (TUint bits) nilOK tail v =
     (case v of VUint i \<Rightarrow> bits \<le> 64 \<and> length (uint_bytes i) \<le> bits div 8 | _ \<Rightarrow> False)"
| "survives TBool nilOK tail v = (case v of VBool b \<Rightarrow> True | _ \<Rightarrow> False)"
| "survives TString nilOK tail v = (case v of VBytes b \<Rightarrow> True | _ \<Rightarrow> False)"
| "survives TBytes nilOK tail v = (case v of VBytes b \<Rightarrow> True | _ \<Rightarrow> False)"
| "survives (TByteArray n) nilOK tail v = (case v of VBytes b \<Rightarrow> length b = n \<and> b \<noteq> [0] | _ \<Rightarrow> False)"
| "survives (TSlice e) nilOK tail v =
     (case v of VList vs \<Rightarrow> (\<forall>x \<in> set vs. survives e False False x) | _ \<Rightarrow> False)"
| "survives (TArray n e) nilOK tail v =
     (case v of VList vs \<Rightarrow> \<not> tail \<and> length vs = n \<and> (\<forall>x \<in> set vs. survives e False False x) | _ \<Rightarrow> False)"
| "survives (TStruct fs) nilOK tail v = (case v of VList vs \<Rightarrow> survive_fields fs vs | _ \<Rightarrow> False)"
| "survives (TPtr e) nilOK tail v =
     (case v of
        VPtr (Some x) \<Rightarrow> survives e False False x \<and> (nilOK \<longrightarrow> bytes_of (items e False x) \<notin> {[0x80], [0xC0]})
      | VPtr None \<Rightarrow> nilOK \<and> bytes_of (items (TPtr e) False v) \<in> {[0x80], [0xC0]}
      | _ \<Rightarrow> False)"
| "survives TInterface nilOK tail v = (case v of VIface (Some it) \<Rightarrow> plain it | _ \<Rightarrow> False)"
| "survive_fields [] vs = (vs = [])"
| "survive_fields (f # fs) vs =
     (case vs of
        [] \<Rightarrow> False
      | v # vs \<Rightarrow>
          (snd (snd f) \<longrightarrow> fs = [] \<and> (case fst f of TSlice e \<Rightarrow> True | _ \<Rightarrow> False)) \<and>
          survives (fst f) (fst (snd f)) (snd (snd f)) v \<and> survive_fields fs vs)"

lemma gtype_inducts [case_names TRawValue TBigIntPtr TBigInt TUint TBool TString TBytes TByteArray TSlice TArray TStruct
    TPtr TInterface Nil Cons]:
  assumes "P TRawValue" "P TBigIntPtr" "P TBigInt" "\<And>n. P (TUint n)" "P TBool" "P TString" "P TBytes"
    "\<And>n. P (TByteArray n)" "\<And>e. P e \<Longrightarrow> P (TSlice e)" "\<And>n e. P e \<Longrightarrow> P (TArray n e)"
    "\<And>fs. Q fs \<Longrightarrow> P (TStruct fs)" "\<And>e. P e \<Longrightarrow> P (TPtr e)" "P TInterface"
    "Q []" "\<And>t tags fs. P t \<Longrightarrow> Q fs \<Longrightarrow> Q ((t, tags) # fs)"
  shows "P t" "Q fs"
proof -
  have Q: "Q gs" if "\<And>t tags. (t, tags) \<in> set gs \<Longrightarrow> P t" for gs
    using that by (induction gs) (auto intro: assms(14,15))
  show P: "P t" for t
  proof (induction t)
    case (TStruct fs)
    show ?case by (rule assms(11), rule Q) (use TStruct in auto)
  qed (auto intro: assms)
  show "Q fs" using P by (rule Q)
qed

section \<open>Writing\<close>

lemma write_items_append: "write_items (xs @ ys) w = write_items ys (write_items xs w)"
  by (induction xs arbitrary: w) simp_all

lemma write_elems_items:
  assumes "\<And>v w. v \<in> set vs \<Longrightarrow> makeWriter e False v w = Some (write_items (items e False v) w)"
  shows "write_elems e vs w = Some (write_items (concat (map (items e False) vs)) w)"
  using assms by (induction vs arbitrary: w) (simp_all add: write_items_append)

lemma encodeString_nil: "encbuf_encodeString [] w = encbuf_Write [0x80] w"
  by (simp add: encodeString_small)

lemma makeWriter_nil:
  "makeWriter (TPtr e) tail (VPtr None) w = Some (write_items (items (TPtr e) tail (VPtr None)) w)"
proof (induction e arbitrary: tail)
  case (TPtr e)
  then show ?case by simp
qed (simp_all add: encodeString_nil writeBigInt_encodeString writeUint_encodeString writeBool_encodeString uint_bytes_def
  encbuf_Write_def Let_def encbuf_list_def encbuf_listEnd_def encbuf_size_def)

lemma makeWriter_items:
  "survives t nilOK tail v \<Longrightarrow> makeWriter t tail v w = Some (write_items (items t tail v) w)"
  "survive_fields fs vs \<Longrightarrow> write_fields fs vs w = Some (write_items (items_fields fs vs) w)"
proof (induction t and fs arbitrary: nilOK tail v w and vs w rule: gtype_inducts)
  case (TPtr e)
  show ?case
  proof (cases "v = VPtr None")
    case True
    then show ?thesis using makeWriter_nil [of e tail w] by blast
  next
    case False
    then obtain x where "v = VPtr (Some x)" "survives e False False x"
      using TPtr.prems by (auto split: gval.splits option.splits)
    then show ?thesis using TPtr.IH by simp
  qed
next
  case (TSlice e)
  then obtain vs where v: "v = VList vs" "\<forall>x \<in> set vs. survives e False False x" by (auto split: gval.splits)
  have "write_elems e vs w = Some (write_items (concat (map (items e False) vs)) w)" for w
    by (rule write_elems_items) (use TSlice.IH v in blast)
  then show ?case using v(1) by (simp add: Let_def encbuf_list_def)
next
  case (TArray n e)
  then obtain vs where v: "v = VList vs" "\<forall>x \<in> set vs. survives e False False x" by (auto split: gval.splits)
  have "write_elems e vs w = Some (write_items (concat (map (items e False) vs)) w)" for w
    by (rule write_elems_items) (use TArray.IH v in blast)
  then show ?case using v(1) by (simp add: Let_def encbuf_list_def)
qed (auto simp: writeBigInt_encodeString writeUint_encodeString writeBool_encodeString write_items_append
  Let_def split: gval.splits option.splits list.splits prod.splits if_splits)

section \<open>Reading back\<close>

lemma str_kind: "\<exists>k c. kind_ok k c \<and> rlp_string b = enc_kind k c"
proof -
  have "kind_ok (item_kind (Str b)) b \<and> rlp_string b = enc_kind (item_kind (Str b)) b"
    by (simp add: enc_kind_def kind_ok_def)
  then show ?thesis by blast
qed

lemma length_content: "length c \<le> length (enc_kind k c)"
  by (auto simp: enc_kind_def rlp_string_def)

text \<open>A surviving value of one field is written as a canonical value.\<close>

lemma value_kind:
  "survives t nilOK False v \<Longrightarrow> length (bytes_of (items t False v)) < 2 ^ 63 - 9 \<Longrightarrow>
   \<exists>k c. kind_ok k c \<and> bytes_of (items t False v) = enc_kind k c"
proof (induction t arbitrary: nilOK v)
  case TRawValue
  then obtain b k c where v: "v = VRaw b" "Split b = Some (Inr (k, c, []))"
    by (auto split: gval.splits option.splits sum.splits)
  then show ?case using Split_iff [of b k c "[]"] TRawValue.prems(2) by auto
next
  case TInterface
  then obtain it where v: "v = VIface (Some it)" "plain it" by (auto split: gval.splits option.splits)
  then have "is_value it" by (cases it) auto
  then show ?case using rlp_enc_kind [of it] v by auto
next
  case (TPtr e)
  consider x where "v = VPtr (Some x)" "survives e False False x" | "v = VPtr None" "bytes_of (items (TPtr e) False v) \<in> {[0x80], [0xC0]}"
    using TPtr.prems(1) by (auto split: gval.splits option.splits)
  then show ?case
  proof cases
    case 1
    then show ?thesis using TPtr.IH [of False x] TPtr.prems(2) by simp
  next
    case 2
    have "[0x80] = enc_kind String [] \<and> kind_ok String []" "[0xC0] = enc_kind List [] \<and> kind_ok List []"
      by (simp_all add: enc_kind_def kind_ok_def rlp_string_def str_head_def list_head_def puthead_def)
    then show ?thesis using 2 by (metis insertE singletonD)
  qed
next
  case (TStruct fs)
  then obtain vs where "v = VList vs" by (auto split: gval.splits)
  then show ?case using rlp_enc_kind [of "Lst (items_fields fs vs)"] by auto
next
  case (TSlice e)
  then obtain vs where "v = VList vs" by (auto split: gval.splits)
  then show ?case using rlp_enc_kind [of "Lst (concat (map (items e False) vs))"] by (auto simp: Let_def)
next
  case (TArray n e)
  then obtain vs where "v = VList vs" by (auto split: gval.splits)
  then show ?case using rlp_enc_kind [of "Lst (concat (map (items e False) vs))"] by auto
qed (auto simp: str_kind split: gval.splits option.splits)

text \<open>A slice with the tag \<^verbatim>\<open>tail\<close> reads up to the end of the enclosing list.\<close>

definition reads_tail :: "'a decoder \<Rightarrow> bytes \<Rightarrow> 'a \<Rightarrow> bool" where
  "reads_tail d e v =
     (\<forall>s. ready e s \<longrightarrow> (\<forall>s'. same s' (adv (length e) s) \<longrightarrow> at_eol s') \<longrightarrow>
       (\<exists>s'. d s = Some (Inr v, s') \<and> same s' (adv (length e) s)))"

definition reads_field :: "bool \<Rightarrow> 'a decoder \<Rightarrow> bytes \<Rightarrow> 'a \<Rightarrow> bool" where
  "reads_field tail d e v = (if tail then reads_tail d e v else reads d e v)"

lemma reads_fieldI: "reads d e v \<Longrightarrow> reads_field tail d e v"
  by (simp add: reads_field_def reads_def reads_tail_def)

lemma OptionalPtr_reads:
  assumes k: "kind_ok k c" and e: "enc_kind k c \<notin> {[0x80], [0xC0]}"
    and d: "reads (makeDecoder fuel t False False) (enc_kind k c) x"
  shows "reads (decodeOptionalPtr (makeDecoder fuel t False False)) (enc_kind k c) (VPtr (Some x))"
proof (rule readsI)
  fix s assume r: "ready (enc_kind k c) s"
  then have a: "ahead (enc_kind k c) s" "stKind s = None" by (simp_all add: ready_def)
  obtain s1 where s1: "Stream_Kind s = (Inr (k, kind_size k c), s1)" using Kind_ahead [OF k a] by blast
  have "Stream_Kind s1 = Stream_Kind s" using Kind_again [OF s1] s1 by simp
  note o = decoder_again [OF this, of fuel t False False]
  have "\<not> (kind_size k c = 0 \<and> k \<noteq> Byte)"
  proof
    assume z: "kind_size k c = 0 \<and> k \<noteq> Byte"
    have l: "unat (of_nat (length c) :: u64) = length c"
      using ahead_length(1,2) [OF a(1)] length_content [of c k] by (intro unat_of_nat_u64) linarith
    moreover have "(of_nat (length c) :: u64) = 0" using z by (auto simp: kind_size_def)
    ultimately have "length c = 0" by (metis unat_0)
    then show False using e z by (cases k) (auto simp: enc_kind_def rlp_string_def str_head_def list_head_def puthead_def)
  qed
  moreover obtain s' where "makeDecoder fuel t False False s = Some (Inr x, s')" "same s' (adv (length (enc_kind k c)) s)"
    using d r unfolding reads_def by blast
  ultimately show "\<exists>s'. decodeOptionalPtr (makeDecoder fuel t False False) s = Some (Inr (VPtr (Some x)), s') \<and>
      same s' (adv (length (enc_kind k c)) s)"
    using s1 o by (auto simp: decodeOptionalPtr_def)
qed

lemma OptionalPtr_nil:
  assumes "e \<in> {[0x80], [0xC0]}"
  shows "reads (decodeOptionalPtr d) e (VPtr None)"
proof (rule readsI)
  fix s assume r: "ready e s"
  define k where "k = (if e = [0x80] then String else List)"
  have k: "e = enc_kind k []" "kind_ok k []" "k \<noteq> Byte" "head_bytes k [] = e"
    using assms by (auto simp: k_def enc_kind_def kind_ok_def rlp_string_def str_head_def list_head_def puthead_def head_bytes_def)
  then have a: "ahead (enc_kind k []) s" "stKind s = None" using r by (simp_all add: ready_def)
  obtain s1 where s1: "Stream_Kind s = (Inr (k, kind_size k []), s1)" "same (s1\<lparr>stKind := None\<rparr>) (adv (length e) s)"
    using Kind_ahead [OF k(2) a] k(4) by metis
  then show "\<exists>s'. decodeOptionalPtr d s = Some (Inr (VPtr None), s') \<and> same s' (adv (length e) s)"
    using k(3) by (auto simp: decodeOptionalPtr_def kind_size_def)
qed

lemma Fields_step:
  assumes "reads_field tail (makeDecoder fuel t nilOK tail) e v" "tail \<Longrightarrow> fs = []" "ready (e @ e') s"
    "\<And>s'. same s' (adv (length (e @ e')) s) \<Longrightarrow> at_eol s'" "fs = [] \<Longrightarrow> e' = []"
  obtains s1 where "makeDecoder fuel t nilOK tail s = Some (Inr v, s1)" "same s1 (adv (length e) s)" "ready e' s1"
proof -
  have "\<exists>s1. makeDecoder fuel t nilOK tail s = Some (Inr v, s1) \<and> same s1 (adv (length e) s)"
    using assms ready_prefix [OF assms(3)]
    by (cases tail) (auto simp: reads_field_def reads_def reads_tail_def)
  then show thesis using that ready_adv [OF assms(3)] ready_same by blast
qed

text \<open>The types whose decoders do not call other decoders.\<close>

fun basic :: "gtype \<Rightarrow> bool" where
  "basic (TSlice e) = False"
| "basic (TArray n e) = False"
| "basic (TStruct fs) = False"
| "basic (TPtr e) = False"
| "basic t = True"

lemma basic_reads:
  assumes "basic t" "survives t nilOK tail v" "length (bytes_of (items t tail v)) < min fuel (2 ^ 63 - 9)"
  shows "reads (makeDecoder fuel t nilOK tail) (bytes_of (items t tail v)) v"
proof (cases t)
  case TRawValue
  then obtain b k c where v: "v = VRaw b" "Split b = Some (Inr (k, c, []))"
    using assms by (auto split: gval.splits option.splits sum.splits)
  then have b: "b = enc_kind k c" "kind_ok k c" using Split_iff [of b k c "[]"] assms(3) TRawValue by auto
  have "bytes_of (items t tail v) = enc_kind k c" by (simp add: TRawValue v b)
  then show ?thesis
    by (simp only:) (rule reads_by [OF Raw_ready [OF b(2)]], simp_all add: decodeRawValue_def v b TRawValue)
next
  case TInterface
  then obtain it where v: "v = VIface (Some it)" "plain it" using assms by (auto split: gval.splits option.splits)
  have e: "bytes_of (items t tail v) = rlp it" by (simp add: TInterface v)
  show ?thesis unfolding e
    by (rule reads_map [OF Interface_reads [OF v(2), of fuel]]) (use assms(3) e v TInterface in simp_all)
next
  case (TUint n)
  then obtain i where v: "v = VUint i" "n \<le> 64" "length (uint_bytes i) \<le> n div 8" using assms by (auto split: gval.splits)
  have e: "bytes_of (items t tail v) = rlp_string (uint_bytes i)" by (simp add: TUint v)
  show ?thesis unfolding e by (rule reads_by [OF uint_ready [OF _ v(3,2)]]) (simp_all add: decodeUint_def v TUint)
next
  case TBool
  then obtain b where v: "v = VBool b" using assms by (auto split: gval.splits)
  have e: "bytes_of (items t tail v) = rlp_string (if b then [1] else [])" by (simp add: TBool v)
  show ?thesis unfolding e by (rule reads_by [OF Bool_ready]) (simp_all add: decodeBool_def v TBool)
next
  case TString
  then obtain b where v: "v = VBytes b" using assms by (auto split: gval.splits)
  have e: "bytes_of (items t tail v) = rlp_string b" by (simp add: TString v)
  show ?thesis unfolding e by (rule reads_by [OF Bytes_ready]) (simp_all add: decodeString_def v TString)
next
  case TBytes
  then obtain b where v: "v = VBytes b" using assms by (auto split: gval.splits)
  have e: "bytes_of (items t tail v) = rlp_string b" by (simp add: TBytes v)
  show ?thesis unfolding e by (rule reads_by [OF Bytes_ready]) (simp_all add: decodeByteSlice_def v TBytes)
next
  case (TByteArray n)
  then obtain b where v: "v = VBytes b" "length b = n" "b \<noteq> [0]" using assms by (auto split: gval.splits)
  have e: "bytes_of (items t tail v) = rlp_string b" by (simp add: TByteArray v)
  show ?thesis unfolding e by (rule reads_map [OF ByteArray_reads [OF v(2,3)]]) (simp add: v TByteArray)
next
  case TBigIntPtr
  then obtain i where v: "v = VBig (Some i)" "0 \<le> i" using assms by (auto split: gval.splits option.splits)
  have e: "bytes_of (items t tail v) = rlp_string (nat_bytes (nat i))" by (simp add: TBigIntPtr v)
  show ?thesis unfolding e by (rule reads_map [OF BigInt_reads]) (simp add: v TBigIntPtr)
next
  case TBigInt
  then obtain i where v: "v = VBig (Some i)" "0 \<le> i" using assms by (auto split: gval.splits option.splits)
  have e: "bytes_of (items t tail v) = rlp_string (nat_bytes (nat i))" by (simp add: TBigInt v)
  show ?thesis unfolding e by (rule reads_map [OF BigInt_reads]) (simp add: v TBigInt)
qed (use assms(1) in simp_all)

text \<open>The elements of a slice or an array.\<close>

lemma elems_read:
  assumes ih: "\<forall>x. survives e False False x \<longrightarrow> length (bytes_of (items e False x)) < min fuel (2 ^ 63 - 9) \<longrightarrow>
      reads_field False (makeDecoder fuel e False False) (bytes_of (items e False x)) x"
    and vs: "\<forall>x \<in> set vs. survives e False False x"
    and len: "length (bytes_of (concat (map (items e False) vs))) < min fuel (2 ^ 63 - 9)"
  defines "es \<equiv> map (\<lambda>x. bytes_of (items e False x)) vs"
  shows "list_all2 (reads (makeDecoder fuel e False False)) es vs" "\<forall>b \<in> set es. b \<noteq> []" "length vs < fuel"
    "concat es = bytes_of (concat (map (items e False) vs))"
proof -
  show c: "concat es = bytes_of (concat (map (items e False) vs))"
    unfolding es_def by (induction vs) simp_all
  have le: "length (bytes_of (items e False x)) < min fuel (2 ^ 63 - 9)" if "x \<in> set vs" for x
  proof -
    have "length (bytes_of (items e False x)) \<le> length (concat es)"
      using that unfolding es_def by (induction vs) auto
    then show ?thesis using len c by simp
  qed
  show "list_all2 (reads (makeDecoder fuel e False False)) es vs"
    using ih vs le unfolding es_def by (simp add: list_all2_conv_all_nth reads_field_def)
  have "bytes_of (items e False x) \<noteq> []" if x: "x \<in> set vs" for x
  proof -
    obtain k c where "bytes_of (items e False x) = enc_kind k c"
      using value_kind [of e False x] vs le [OF x] x by auto
    then show ?thesis using enc_kind_nonempty by metis
  qed
  then show n: "\<forall>b \<in> set es. b \<noteq> []" unfolding es_def by simp
  show "length vs < fuel" using elems_le_bytes [OF n] len c by (simp add: es_def)
qed

lemma decoder_reads:
  "survives t nilOK tail v \<Longrightarrow> length (bytes_of (items t tail v)) < min fuel (2 ^ 63 - 9) \<Longrightarrow>
   reads_field tail (makeDecoder fuel t nilOK tail) (bytes_of (items t tail v)) v"
  "survive_fields fs vs \<Longrightarrow> length (bytes_of (items_fields fs vs)) < min fuel (2 ^ 63 - 9) \<Longrightarrow>
   ready (bytes_of (items_fields fs vs)) s \<Longrightarrow>
   (\<And>s'. same s' (adv (length (bytes_of (items_fields fs vs))) s) \<Longrightarrow> at_eol s') \<Longrightarrow>
   (\<And>s'. same s' (adv (length (bytes_of (items_fields fs vs))) s) \<Longrightarrow> \<exists>s2. Stream_ListEnd s' = (None, s2) \<and> same s2 u) \<Longrightarrow>
   \<exists>s'. decodeFields fuel fs s = Some (Inr vs, s') \<and> same s' u"
proof (induction t and fs arbitrary: nilOK tail v and vs s u rule: gtype_inducts)
  case (TSlice e)
  then obtain vs where v: "v = VList vs" "\<forall>x \<in> set vs. survives e False False x" by (auto split: gval.splits)
  let ?d = "makeDecoder fuel e False False" and ?c = "bytes_of (concat (map (items e False) vs))"
  have len: "length ?c < min fuel (2 ^ 63 - 9)" using TSlice.prems(2) v(1) by (cases tail) (auto simp: Let_def)
  have "\<forall>x. survives e False False x \<longrightarrow> length (bytes_of (items e False x)) < min fuel (2 ^ 63 - 9) \<longrightarrow>
      reads_field False ?d (bytes_of (items e False x)) x" using TSlice.IH by blast
  note el = elems_read [OF this v(2) len]
  have st: "stops ?d" using len by (intro decoder_stops) simp
  show ?case
  proof (cases tail)
    case True
    have b: "bytes_of (items (TSlice e) tail v) = ?c" using v(1) True by simp
    have "reads_tail (makeDecoder fuel (TSlice e) nilOK tail) ?c v" unfolding reads_tail_def
    proof (intro allI impI)
      fix s assume "ready ?c s" "\<forall>s'. same s' (adv (length ?c) s) \<longrightarrow> at_eol s'"
      then obtain s' where "decodeSliceElems fuel ?d s = Some (Inr vs, s')" "same s' (adv (length ?c) s)"
        using SliceElems_ready [OF el(1) st el(3), of s] unfolding el(4) by blast
      then show "\<exists>s'. makeDecoder fuel (TSlice e) nilOK tail s = Some (Inr v, s') \<and> same s' (adv (length ?c) s)"
        using True v(1) by auto
    qed
    then show ?thesis unfolding b by (simp only: reads_field_def True if_True)
  next
    case False
    have r: "reads (decodeListSlice fuel ?d) (list_head (length ?c) @ ?c) vs"
      using ListSlice_reads [OF el(1) st el(3,2)] unfolding el(4) .
    have b: "bytes_of (items (TSlice e) tail v) = list_head (length ?c) @ ?c" using v(1) False by (simp add: Let_def)
    show ?thesis unfolding b by (rule reads_fieldI, rule reads_map [OF r]) (simp add: v False)
  qed
next
  case (TArray n e)
  then obtain vs where v: "v = VList vs" "n = length vs" "\<forall>x \<in> set vs. survives e False False x" by (auto split: gval.splits)
  let ?d = "makeDecoder fuel e False False" and ?c = "bytes_of (concat (map (items e False) vs))"
  have len: "length ?c < min fuel (2 ^ 63 - 9)" using TArray.prems(2) v(1) by (auto simp: Let_def)
  have "\<forall>x. survives e False False x \<longrightarrow> length (bytes_of (items e False x)) < min fuel (2 ^ 63 - 9) \<longrightarrow>
      reads_field False ?d (bytes_of (items e False x)) x" using TArray.IH by blast
  note el = elems_read [OF this v(3) len]
  have r: "reads (decodeListArray (length vs) ?d) (list_head (length ?c) @ ?c) vs"
    using ListArray_reads [OF el(1)] unfolding el(4) .
  have b: "bytes_of (items (TArray n e) tail v) = list_head (length ?c) @ ?c" by (simp add: v(1) Let_def)
  show ?case unfolding b by (rule reads_fieldI, rule reads_map [OF r]) (simp add: v)
next
  case (TStruct fs)
  then obtain vs where v: "v = VList vs" "survive_fields fs vs" by (auto split: gval.splits)
  let ?c = "bytes_of (items_fields fs vs)"
  have b: "bytes_of (items (TStruct fs) tail v) = list_head (length ?c) @ ?c" by (simp add: v(1) Let_def)
  have len: "length ?c < min fuel (2 ^ 63 - 9)" using TStruct.prems(2) unfolding b by simp
  show ?case unfolding b
  proof (rule reads_fieldI, rule readsI)
    fix s assume r: "ready (list_head (length ?c) @ ?c) s"
    obtain s1 where s1: "Stream_List s = (Inr (of_nat (length ?c)), s1)" "ready ?c s1"
      "\<And>s'. same s' (adv (length ?c) s1) \<Longrightarrow> at_eol s'"
      "\<And>s'. same s' (adv (length ?c) s1) \<Longrightarrow>
         \<exists>s2. Stream_ListEnd s' = (None, s2) \<and> same s2 (adv (length (list_head (length ?c) @ ?c)) s)"
      by (rule List_ready [OF r]) blast
    show "\<exists>s'. makeDecoder fuel (TStruct fs) nilOK tail s = Some (Inr v, s') \<and>
        same s' (adv (length (list_head (length ?c) @ ?c)) s)"
    proof -
      obtain s' where "decodeFields fuel fs s1 = Some (Inr vs, s')" "same s' (adv (length (list_head (length ?c) @ ?c)) s)"
        using TStruct.IH [OF v(2) len s1(2)] s1(3,4) by blast
      then show ?thesis using s1(1) v(1) by auto
    qed
  qed
next
  case (TPtr e)
  let ?d = "makeDecoder fuel e False False"
  have f: "makeDecoder fuel (TPtr e) nilOK tail = (if nilOK then decodeOptionalPtr ?d else decodePtr ?d)"
    by (rule ext) simp
  consider (ref) x where "v = VPtr (Some x)" "survives e False False x"
      "nilOK \<Longrightarrow> bytes_of (items e False x) \<notin> {[0x80], [0xC0]}"
    | (nil) "v = VPtr None" "nilOK" "bytes_of (items (TPtr e) False v) \<in> {[0x80], [0xC0]}"
    using TPtr.prems(1) by (auto split: gval.splits option.splits)
  then show ?case
  proof cases
    case ref
    have b: "bytes_of (items (TPtr e) tail v) = bytes_of (items e False x)" by (simp add: ref(1))
    have len: "length (bytes_of (items e False x)) < min fuel (2 ^ 63 - 9)" using TPtr.prems(2) unfolding b .
    then have r: "reads ?d (bytes_of (items e False x)) x" using TPtr.IH [OF ref(2)] by (simp add: reads_field_def)
    obtain k c where k: "kind_ok k c" "bytes_of (items e False x) = enc_kind k c"
      using value_kind [OF ref(2)] len by auto
    have "reads (decodePtr ?d) (bytes_of (items e False x)) v"
      by (rule reads_map [OF r]) (simp add: decodePtr_def ref(1))
    moreover have "nilOK \<Longrightarrow> reads (decodeOptionalPtr ?d) (bytes_of (items e False x)) v"
      using OptionalPtr_reads [OF k(1)] ref(1,3) r unfolding k(2) by blast
    ultimately show ?thesis unfolding b f by (intro reads_fieldI) simp
  next
    case nil
    have b: "bytes_of (items (TPtr e) tail v) = bytes_of (items (TPtr e) False v)" by (simp add: nil(1))
    show ?thesis unfolding b f nil(1)
      by (intro reads_fieldI) (use OptionalPtr_nil [OF nil(3)] nil in simp)
  qed
next
  case Nil
  then have "vs = []" by simp
  moreover have "same s (adv 0 s)" using Nil.prems(3) by (simp add: same_adv_0 ready_def)
  ultimately show ?case using Nil.prems(5) [of s] by auto
next
  case (Cons t tags fs)
  obtain nilOK tail where tg: "tags = (nilOK, tail)" by (cases tags)
  from Cons.prems(1) tg obtain v ws where vs: "vs = v # ws" "survives t nilOK tail v" "survive_fields fs ws" "tail \<Longrightarrow> fs = []"
    by (auto split: list.splits)
  let ?e = "bytes_of (items t tail v)" and ?e' = "bytes_of (items_fields fs ws)"
  have b: "bytes_of (items_fields ((t, tags) # fs) vs) = ?e @ ?e'" by (simp add: vs(1) tg)
  note p = Cons.prems(2-5) [unfolded b]
  have len: "length ?e < min fuel (2 ^ 63 - 9)" "length ?e' < min fuel (2 ^ 63 - 9)" using p(1) by auto
  have nl: "fs = [] \<Longrightarrow> ?e' = []" by simp
  obtain s1 where s1: "makeDecoder fuel t nilOK tail s = Some (Inr v, s1)" "same s1 (adv (length ?e) s)" "ready ?e' s1"
    by (rule Fields_step [OF Cons.IH(1) [OF vs(2) len(1)] vs(4) p(2,3) nl]) blast+
  have st: "same x (adv (length (?e @ ?e')) s)" if "same x (adv (length ?e') s1)" for x
    using same_trans [OF that same_trans [OF same_adv [OF s1(2)] adv_adv]] by simp
  obtain s' where "decodeFields fuel fs s1 = Some (Inr ws, s')" "same s' u"
    using Cons.IH(2) [OF vs(3) len(2) s1(3)] p(3,4) st by blast
  then show ?case using s1(1) vs(1) tg by auto
qed (rule reads_fieldI, rule basic_reads; simp)+

section \<open>Properties\<close>

lemma toBytes_write_items:
  assumes "length (bytes_of its) < 2 ^ 64"
  shows "encbuf_toBytes (write_items its (encbuf_reset encbuf_empty)) = Some (bytes_of its)"
  using toBytes_loop_render [OF heads_ok_heads(2) [of its], of 0 "replicate (length (bytes_of its)) 0"]
    length_rlp_parts(2) [of its] assms
  by (simp add: encbuf_toBytes_def write_item_adds encbuf_empty_def encbuf_reset_def encbuf_size_def render_heads
    del: length_concat)

lemma NewStream_ready: "length b < 2 ^ 64 \<Longrightarrow> ready b (NewStream b (of_nat (length b)))"
  by (simp add: ready_def ahead_def NewStream_def unat_of_nat_u64)


text \<open>A struct with an integer, an optional pointer and a tail of strings.\<close>

definition sample_type :: gtype where
  "sample_type = TStruct [(TUint 64, False, False), (TPtr (TByteArray 2), True, False), (TSlice TString, False, True)]"

definition sample_value :: gval where
  "sample_value = VList [VUint 1024, VPtr None, VList [VBytes [0x61], VBytes []]]"


text \<open>C25. A one-byte array holding zero breaks the decoder: \<^verbatim>\<open>decodeByteArray\<close> ignores the error of \<^verbatim>\<open>s.Uint\<close>, which for
  the byte zero leaves the stream where it was, so that decoding the two bytes of a list of one such array into a
  slice of arrays never ends.\<close>

theorem zero_byte_array_loops: "DecodeBytes fuel (TSlice (TByteArray 1)) [0xC1, 0x00] = None"
proof -
  let ?d = "makeDecoder fuel (TByteArray 1) False False"
  have loop: "decodeSliceElems n ?d s = None"
    if "stKind s = Some Byte" "stKinderr s = None" "stByteval s = 0" for n s
  proof -
    have "?d s = Some (Inr (VBytes [0]), s)"
      using that by (simp add: decodeByteArray_def Stream_Kind_def Stream_Uint_def Stream_uint_def)
    then show ?thesis by (induction n) simp_all
  qed
  let ?s0 = "NewStream [0xC1, 0x00] 2"
  obtain s1 where s1: "Stream_List ?s0 = (Inr 1, s1)" "stR s1 = [0]" "stRemaining s1 = 1" "stLimited s1" "stKind s1 = None"
    "stStack s1 = [\<lparr>lpPos = 0, lpSize = 1\<rparr>]"
    by (simp add: Stream_List_def Stream_Kind_def Stream_readKind_def Stream_readByte_def Stream_willRead_def
      NewStream_def Let_def)
  define s2 where "s2 = snd (Stream_Kind s1)"
  have s2: "Stream_Kind s1 = (Inr (Byte, 0), s2)" "stKind s2 = Some Byte" "stKinderr s2 = None" "stByteval s2 = 0"
    using s1(2-6) by (simp_all add: s2_def Stream_Kind_def Stream_readKind_def Stream_readByte_def Stream_willRead_def Let_def)
  have "?d s1 = Some (Inr (VBytes [0]), s2)"
    using s2 Kind_again [OF s2(1)] by (simp add: decodeByteArray_def Stream_Uint_def Stream_uint_def)
  then have "decodeSliceElems fuel ?d s1 = None" using loop [OF s2(2-4)] by (cases fuel) simp_all
  then show ?thesis using s1(1) by (simp add: DecodeBytes_def decodeListSlice_def)
qed

end
