(* ===== verification/Rlp_Canonical.thy ===== *)
theory Rlp_Canonical
  imports Rlp_Typed
begin

text \<open>
  The decoder accepts canonical encodings only: whatever it reads as a value is the encoding of that value, so that
  no two inputs decode to the same value.
\<close>

section \<open>What a successful read has consumed\<close>

lemma ahead_kind [simp]: "ahead e (s\<lparr>stKind := k\<rparr>) = ahead e s"
  by (simp add: ahead_def)

lemma fits_unbump: "fits n st \<Longrightarrow> fits m (bump n st) \<Longrightarrow> fits (n + m) st"
proof (cases st)
  case (Cons t ts)
  assume "fits n st" "fits m (bump n st)"
  then show ?thesis using Cons unat_plus_of_nat [of "lpPos t" n "lpSize t"] by simp
qed simp

lemma ahead_append:
  assumes "ahead e s" "ahead e' (adv (length e) s)"
  shows "ahead (e @ e') s"
proof -
  have "take (length e + length e') (stR s) = e @ e'"
    using assms by (simp add: ahead_def adv_def take_add)
  moreover have "fits (length e + length e') (stStack s)"
    using assms by (intro fits_unbump) (simp_all add: ahead_def adv_def)
  ultimately show ?thesis using assms(1) by (simp add: ahead_def)
qed

text \<open>Only the position is known of the stream: it is between two values.\<close>

lemma willRead_sound:
  assumes "ready [] s" "Stream_willRead n s = (None, s')" "unat n \<le> length (stR s)"
  shows "fits (unat n) (stStack s) \<and> s' = s\<lparr>stKind := None, stRemaining := stRemaining s - n, stStack := bump (unat n) (stStack s)\<rparr>"
proof -
  have l: "stLimited s" "fits 0 (stStack s)" using assms(1) by (auto simp: ready_def ahead_def)
  show ?thesis
  proof (cases "stStack s")
    case Nil
    then show ?thesis using assms(2) l by (cases s) (auto simp: Stream_willRead_def Let_def split: if_splits)
  next
    case (Cons t ts)
    then have "lpPos t \<le> lpSize t" using l by (simp add: word_le_nat_alt)
    moreover have "n \<le> lpSize t - lpPos t" using assms(2) Cons by (simp add: Stream_willRead_def linorder_not_less Let_def split: if_splits)
    ultimately have "unat (lpPos t) + unat n \<le> unat (lpSize t)" by (simp add: word_le_nat_alt unat_sub)
    then show ?thesis using assms(2) Cons l by (auto simp: Stream_willRead_def Let_def split: if_splits)
  qed
qed

lemma readFull_sound:
  assumes "ahead [] s" "Stream_readFull n s = (Inr b, s')"
  shows "length b = unat n \<and> ahead b s \<and> s' = adv (length b) s"
proof -
  let ?s = "s\<lparr>stKind := None\<rparr>"
  have r: "ready [] ?s" using assms(1) by (simp add: ready_def ahead_def)
  have w: "Stream_willRead n ?s = Stream_willRead n s" by (simp add: Stream_willRead_def)
  obtain s1 where s1: "Stream_willRead n s = (None, s1)"
    using assms(2) by (auto simp: Stream_readFull_def split: prod.splits option.splits)
  have len: "unat n \<le> length (stR s1)" "b = take (unat n) (stR s1)" "s' = s1\<lparr>stR := drop (unat n) (stR s1)\<rparr>"
    using assms(2) s1 by (auto simp: Stream_readFull_def split: if_splits)
  have "stR s1 = stR s" using s1 by (auto simp: Stream_willRead_def Let_def split: list.splits if_splits)
  then have "fits (unat n) (stStack s) \<and> s1 = ?s\<lparr>stKind := None, stRemaining := stRemaining s - n, stStack := bump (unat n) (stStack s)\<rparr>"
    using willRead_sound [OF r, of n s1] s1 w len(1) by simp
  then show ?thesis using len assms(1) by (auto simp: ahead_def adv_def)
qed

lemma readByte_sound:
  assumes "ahead [] s" "Stream_readByte s = (Inr b, s')"
  shows "ahead [b] s \<and> s' = adv 1 s"
proof -
  obtain s1 where s1: "Stream_willRead 1 s = (None, s1)" "stR s1 = b # stR s'" "s' = s1\<lparr>stR := tl (stR s1)\<rparr>"
    using assms(2) by (auto simp: Stream_readByte_def split: prod.splits option.splits list.splits)
  then have "Stream_readFull 1 s = (Inr [b], s')" by (cases "stR s1") (simp_all add: Stream_readFull_def)
  from readFull_sound [OF assms(1) this] show ?thesis by simp
qed

lemma readUint_sound:
  assumes "ahead [] s" "Stream_readUint n s = (Inr z, s')" "1 \<le> n" "n \<le> 8" "56 \<le> z"
  shows "length (putint z) = unat n \<and> ahead (putint z) s \<and> s' = adv (length (putint z)) s"
proof -
  have n: "n \<noteq> 0" using assms(3) by auto
  show ?thesis
  proof (cases "n = 1")
    case True
    then obtain b where b: "Stream_readByte s = (Inr b, s')" "z = ucast b"
      using assms(2) n by (auto simp: Stream_readUint_def split: prod.splits sum.splits)
    have "b \<noteq> 0" using b(2) assms(5) by auto
    then have "putint z = [b]" using putint_be_word [of "[b]"] b(2) by (simp add: be_word_def)
    then show ?thesis using readByte_sound [OF assms(1) b(1)] True by simp
  next
    case False
    then obtain buf where b: "Stream_readFull (ucast n) s = (Inr buf, s')" "buf ! 0 \<noteq> 0" "z = be_word buf"
      using assms(2) n by (auto simp: Stream_readUint_def split: prod.splits sum.splits if_splits)
    have r: "length buf = unat n" "ahead buf s" "s' = adv (length buf) s"
      using readFull_sound [OF assms(1) b(1)] by (auto simp: unat_ucast_byte)
    have "0 < length buf" "length buf \<le> 8" using r(1) assms(3,4) by (auto simp: word_le_nat_alt)
    then have "putint z = buf" using putint_be_word [of buf] b(2,3) by (auto simp: hd_conv_nth)
    then show ?thesis using r by simp
  qed
qed

definition head_of :: "Kind \<Rightarrow> u64 \<Rightarrow> u8 \<Rightarrow> bytes" where
  "head_of k z bv = (case k of Byte \<Rightarrow> [bv] | String \<Rightarrow> str_head (unat z) | List \<Rightarrow> list_head (unat z))"

lemma readKind_sound_long:
  assumes a: "ahead [b] s" and u: "Stream_readUint n (s1\<lparr>stByteval := 0\<rparr>) = (Inr z, s')" and s1: "s1 = adv 1 s"
    and n: "1 \<le> n" "n \<le> 8" "b = t + n" and z: "56 \<le> z" and t: "k = String \<and> t = 0xB7 \<or> k = List \<and> t = 0xF7"
  shows "ahead (head_of k z bv) s \<and> same s' (adv (length (head_of k z bv)) s)"
proof -
  have "ahead [] (s1\<lparr>stByteval := 0\<rparr>)" using ahead_adv [of "[b]" "[]" s] a s1 by (simp add: ahead_def)
  from readUint_sound [OF this u n(1,2) z]
  have r: "length (putint z) = unat n" "ahead (putint z) (s1\<lparr>stByteval := 0\<rparr>)" "s' = adv (length (putint z)) (s1\<lparr>stByteval := 0\<rparr>)"
    by blast+
  have h: "head_of k z bv = b # putint z"
    using t n(3) r(1) z head_large [of "unat z"] u64_less [of z]
    by (auto simp: head_of_def str_head_def list_head_def word_le_nat_alt)
  have "ahead (putint z) (adv (length [b]) s)" using r(2) s1 by (simp add: ahead_def)
  from ahead_append [OF a this] have "ahead (b # putint z) s" by simp
  moreover have "same s' (adv (length (b # putint z)) s)"
    using r(3) s1 by (simp add: same_def adv_def)
  ultimately show ?thesis unfolding h by blast
qed

lemma Stream_readKind_sound:
  assumes a: "ahead [] s" and k: "Stream_readKind s = ((k, z, None), s')"
  shows "ahead (head_of k z (stByteval s')) s \<and> same s' (adv (length (head_of k z (stByteval s'))) s) \<and>
    (k = Byte \<longrightarrow> z = 0 \<and> stByteval s' < 0x80)"
proof -
  obtain b s1 where b: "Stream_readByte s = (Inr b, s1)"
    using k by (auto simp: Stream_readKind_def split: prod.splits sum.splits)
  have ab: "ahead [b] s" "s1 = adv 1 s" using readByte_sound [OF a b] by auto
  note rk = k [unfolded Stream_readKind_def b prod.case sum.case Let_def]
  have short: "ahead (head_of k z bv) s \<and> same (s1\<lparr>stByteval := 0\<rparr>) (adv (length (head_of k z bv)) s)"
    if "unat (b - t) < 56" "z = ucast (b - t)" "k = String \<and> t = 0x80 \<or> k = List \<and> t = 0xC0" for t bv
  proof -
    have "unat z = unat (b - t)" using that(2) by (simp add: unat_ucast_byte)
    then have "head_of k z bv = [b]"
      using that(1,3) head_small [of "unat (b - t)" t "0xB7"] head_small [of "unat (b - t)" t "0xF7"]
      by (auto simp: head_of_def str_head_def list_head_def)
    then show ?thesis using ab by (simp add: same_def adv_def)
  qed
  show ?thesis
  proof (rule byte_cases [of b])
    assume "b < 0x80"
    then show ?thesis using rk ab by (auto simp: head_of_def same_def adv_def)
  next
    assume c: "0x80 \<le> b" "b < 0xB8"
    then have n: "\<not> b < 0x80" "unat (b - 0x80) < 56" by (auto simp: word_less_nat_alt word_le_nat_alt byte_sub)
    then show ?thesis using rk c short [of "0x80"] by auto
  next
    assume c: "0xB8 \<le> b" "b < 0xC0"
    then have n: "\<not> b < 0x80" "\<not> b < 0xB8" by (auto simp: word_less_nat_alt word_le_nat_alt)
    then obtain "Stream_readUint (b - 0xB7) (s1\<lparr>stByteval := 0\<rparr>) = (Inr z, s')" "k = String" "56 \<le> z"
      using rk c by (auto simp: linorder_not_less split: prod.splits sum.splits if_splits)
    then show ?thesis using readKind_sound_long [OF ab(1) _ ab(2), of "b - 0xB7" z s' "0xB7" k] long_tag(1) [OF c] by auto
  next
    assume c: "0xC0 \<le> b" "b < 0xF8"
    then have n: "\<not> b < 0x80" "\<not> b < 0xB8" "\<not> b < 0xC0" "unat (b - 0xC0) < 56"
      by (auto simp: word_less_nat_alt word_le_nat_alt byte_sub)
    then show ?thesis using rk c short [of "0xC0"] by auto
  next
    assume c: "0xF8 \<le> b"
    then have n: "\<not> b < 0x80" "\<not> b < 0xB8" "\<not> b < 0xC0" "\<not> b < 0xF8" by (auto simp: word_less_nat_alt word_le_nat_alt)
    then obtain "Stream_readUint (b - 0xF7) (s1\<lparr>stByteval := 0\<rparr>) = (Inr z, s')" "k = List" "56 \<le> z"
      using rk c by (auto simp: linorder_not_less split: prod.splits sum.splits if_splits)
    then show ?thesis using readKind_sound_long [OF ab(1) _ ab(2), of "b - 0xF7" z s' "0xF7" k] long_tag(2) [OF c] by auto
  qed
qed

lemma Kind_sound:
  assumes r: "ready [] s" and k: "Stream_Kind s = (Inr (k, z), s')"
  shows "ahead (head_of k z (stByteval s')) s \<and> same (s'\<lparr>stKind := None\<rparr>) (adv (length (head_of k z (stByteval s'))) s) \<and>
    (k = Byte \<longrightarrow> z = 0 \<and> stByteval s' < 0x80) \<and> fits (unat z) (stStack s')"
proof -
  let ?s = "s\<lparr>stKinderr := None\<rparr>"
  have n: "stKind s = None" and a: "ahead [] ?s" using r by (auto simp: ready_def ahead_def)
  obtain kd z' err s2 where rk: "Stream_readKind ?s = ((kd, z', err), s2)" by (metis prod.collapse)
  have e: "err = None" "kd = k" "z' = z" "s' = s2\<lparr>stKind := Some k, stSize := z, stKinderr := None\<rparr>"
    "\<And>t ts. stStack s2 = t # ts \<Longrightarrow> z \<le> lpSize t - lpPos t"
    using k n rk by (cases err; cases "stStack s2"; auto simp: Stream_Kind_def Let_def linorder_not_less split: if_splits)+
  note sd = Stream_readKind_sound [OF a rk [unfolded e(1-3)]]
  have "ahead [] s2"
    using sd ahead_adv [of "head_of k z (stByteval s2)" "[]" ?s] ahead_same by auto
  then have "fits 0 (stStack s2)" by (simp add: ahead_def)
  then have "fits (unat z) (stStack s2)"
    using e(5) by (cases "stStack s2") (auto simp: word_le_nat_alt unat_sub)
  then show ?thesis using sd e(4) by (auto simp: same_def adv_def ahead_def)
qed

section \<open>Decoded values are encoded values\<close>

lemma Bytes_sound:
  assumes r: "ready [] s" and b: "Stream_Bytes s = (Inr b, s')"
  shows "ahead (rlp_string b) s \<and> same s' (adv (length (rlp_string b)) s)"
proof -
  obtain k z s1 where k: "Stream_Kind s = (Inr (k, z), s1)"
    using b by (auto simp: Stream_Bytes_def split: prod.splits sum.splits)
  note sd = Kind_sound [OF r k]
  show ?thesis
  proof (cases k)
    case Byte
    then have "b = [stByteval s1]" "s' = s1\<lparr>stKind := None\<rparr>" using b k by (auto simp: Stream_Bytes_def)
    then show ?thesis using sd Byte by (simp add: head_of_def rlp_string_def)
  next
    case String
    then have f: "Stream_readFull z s1 = (Inr b, s')" and c: "\<not> (z = 1 \<and> b ! 0 < 128)"
      using b k by (auto simp: Stream_Bytes_def split: prod.splits sum.splits if_splits)
    let ?h = "str_head (unat z)"
    have h: "ahead ?h s" "same (s1\<lparr>stKind := None\<rparr>) (adv (length ?h) s)" using sd String by (auto simp: head_of_def)
    have "ahead [] (adv (length ?h) s)" using ahead_adv [of ?h "[]" s] h(1) by simp
    then have "ahead [] s1" using ahead_same [OF h(2), of "[]"] by simp
    from readFull_sound [OF this f] have l: "length b = unat z" "ahead b s1" "s' = adv (length b) s1" by auto
    have "ahead b (adv (length ?h) s)" using l(2) ahead_same [OF h(2), of b] by simp
    from ahead_append [OF h(1) this] have "ahead (?h @ b) s" .
    moreover have "rlp_string b = ?h @ b"
    proof -
      have "\<not> (length b = 1 \<and> hd b < 0x80)"
      proof
        assume "length b = 1 \<and> hd b < 0x80"
        then show False using c l(1) by (cases b) (auto simp: word_unat_eq_iff)
      qed
      then show ?thesis using l(1) by (auto simp: rlp_string_def)
    qed
    moreover have "same s' (adv (length (?h @ b)) s)"
    proof -
      have "same s' (adv (length b) (s1\<lparr>stKind := None\<rparr>))" using l(3) by (simp add: same_def adv_def)
      then show ?thesis using same_trans [OF _ same_trans [OF same_adv [OF h(2)] adv_adv]] by simp
    qed
    ultimately show ?thesis by simp
  next
    case List
    then show ?thesis using b k by (auto simp: Stream_Bytes_def)
  qed
qed

text \<open>A decoder that reads encodings only, and stops without moving.\<close>

definition sound :: "'a decoder \<Rightarrow> ('a \<Rightarrow> bytes) \<Rightarrow> bool" where
  "sound d f =
     (\<forall>s. ready [] s \<longrightarrow>
       (\<forall>v s'. d s = Some (Inr v, s') \<longrightarrow> ahead (f v) s \<and> same s' (adv (length (f v)) s)) \<and>
       (\<forall>s'. d s = Some (Inl EOL, s') \<longrightarrow> same s' s))"

lemma ready_after: "ready [] s \<Longrightarrow> ahead e s \<Longrightarrow> same s' (adv (length e) s) \<Longrightarrow> ready [] s'"
  using ahead_adv [of e "[]" s] ready_same [of s' "adv (length e) s" "[]"] by (simp add: ready_def adv_def)

lemma SliceElems_sound:
  assumes "sound d f" "ready [] s" "decodeSliceElems fuel d s = Some (Inr vs, s')"
  shows "ahead (concat (map f vs)) s \<and> same s' (adv (length (concat (map f vs))) s)"
  using assms(2,3)
proof (induction fuel arbitrary: s vs)
  case (Suc fuel)
  obtain res s1 where d: "d s = Some (res, s1)" using Suc.prems(2) by (auto split: option.splits)
  show ?case
  proof (cases res)
    case (Inl err)
    then have e: "err = EOL" "vs = []" "s' = s1" using Suc.prems(2) d by (auto split: if_splits)
    then have "same s' s" using assms(1) Suc.prems(1) d Inl unfolding sound_def by blast
    then have "same s' (adv 0 s)" using same_adv_0 [of s] Suc.prems(1) same_trans by (auto simp: ready_def)
    then show ?thesis using e Suc.prems(1) by (simp add: ready_def)
  next
    case (Inr v)
    then obtain ws where ws: "vs = v # ws" "decodeSliceElems fuel d s1 = Some (Inr ws, s')"
      using Suc.prems(2) d by (auto split: option.splits sum.splits)
    have v: "ahead (f v) s" "same s1 (adv (length (f v)) s)"
      using assms(1) Suc.prems(1) d Inr unfolding sound_def by blast+
    note ih = Suc.IH [OF ready_after [OF Suc.prems(1) v] ws(2)]
    have "ahead (concat (map f ws)) (adv (length (f v)) s)" using ih ahead_same [OF v(2)] by simp
    from ahead_append [OF v(1) this] show ?thesis
      using ih ws(1) same_trans [OF _ same_trans [OF same_adv [OF v(2)] adv_adv]] by simp
  qed
qed simp

lemma ListSlice_sound:
  assumes d: "sound d f" and r: "ready [] s" and l: "decodeListSlice fuel d s = Some (Inr vs, s')"
  defines "c \<equiv> concat (map f vs)"
  shows "ahead (list_head (length c) @ c) s \<and> same s' (adv (length (list_head (length c) @ c)) s)"
proof -
  obtain z s0 where k: "Stream_Kind s = (Inr (List, z), s0)"
    using l by (auto simp: decodeListSlice_def Stream_List_def split: prod.splits sum.splits if_splits)
  let ?s1 = "s0\<lparr>stStack := \<lparr>lpPos = 0, lpSize = z\<rparr> # stStack s0, stKind := None, stSize := 0\<rparr>"
  let ?h = "list_head (unat z)"
  have sl: "Stream_List s = (Inr z, ?s1)" using k by (simp add: Stream_List_def)
  have h: "ahead ?h s" "same (s0\<lparr>stKind := None\<rparr>) (adv (length ?h) s)" "fits (unat z) (stStack s0)"
    using Kind_sound [OF r k] by (auto simp: head_of_def)
  have "ready [] (s0\<lparr>stKind := None\<rparr>)" using ready_after [OF r h(1,2)] .
  then have r1: "ready [] ?s1" by (simp add: ready_def ahead_def)
  obtain s2 where s2: "ahead c ?s1 \<and> same s2 (adv (length c) ?s1)" "Stream_ListEnd s2 = (None, s')"
  proof (cases "z = 0")
    case True
    then have "vs = []" "Stream_ListEnd ?s1 = (None, s')"
      using l sl by (auto simp: decodeListSlice_def split: prod.splits option.splits)
    then show thesis using that [of ?s1] r1 same_adv_0 [of ?s1] by (simp add: c_def ready_def)
  next
    case False
    then obtain s2 where "decodeSliceElems fuel d ?s1 = Some (Inr vs, s2)" "Stream_ListEnd s2 = (None, s')"
      using l sl by (auto simp: decodeListSlice_def split: prod.splits option.splits sum.splits)
    then show thesis using that SliceElems_sound [OF d r1] unfolding c_def by blast
  qed
  have fc: "length c \<le> unat z" using s2(1) by (simp add: ahead_def)
  have lc: "unat (of_nat (length c) :: u64) = length c" using s2(1) ahead_length(3) by blast
  have st: "stStack s2 = \<lparr>lpPos = of_nat (length c), lpSize = z\<rparr> # stStack s0" "stR s2 = drop (length c) (stR s0)"
    "stRemaining s2 = stRemaining s0 - of_nat (length c)" "stLimited s2 = stLimited s0"
    using s2(1) by (auto simp: same_def adv_def)
  then have z: "z = of_nat (length c)" "s' = s2\<lparr>stStack := bump (length c) (stStack s0), stKind := None, stSize := 0\<rparr>"
    using s2(2) by (cases "stStack s0"; auto simp: Stream_ListEnd_def split: if_splits)+
  then have hz: "?h = list_head (length c)" using lc by simp
  have "ahead c s0" using s2(1) h(3) z(1) lc by (auto simp: ahead_def)
  then have "ahead c (adv (length ?h) s)" using ahead_same [OF h(2), of c] by simp
  from ahead_append [OF h(1) this] have "ahead (list_head (length c) @ c) s" unfolding hz .
  moreover have "same s' (adv (length c) (s0\<lparr>stKind := None\<rparr>))" using st z(2) by (simp add: same_def adv_def)
  then have "same s' (adv (length (list_head (length c) @ c)) s)"
    using same_trans [OF _ same_trans [OF same_adv [OF h(2)] adv_adv]] unfolding hz by simp
  ultimately show ?thesis by blast
qed

text \<open>Only the end of a list is reported as such.\<close>

lemma reads_not_EOL:
  "fst (Stream_willRead n s) \<noteq> Some EOL" "fst (Stream_readByte s) \<noteq> Inl EOL" "fst (Stream_readFull n s) \<noteq> Inl EOL"
  "fst (Stream_readUint m s) \<noteq> Inl EOL"
proof -
  show w: "fst (Stream_willRead n s) \<noteq> Some EOL" for n s
    by (auto simp: Stream_willRead_def Let_def split: list.splits)
  show b: "fst (Stream_readByte s) \<noteq> Inl EOL" for s
    using w [of 1 s] by (auto simp: Stream_readByte_def split: prod.splits option.splits list.splits)
  show f: "fst (Stream_readFull n s) \<noteq> Inl EOL" for n s
    using w [of n s] by (auto simp: Stream_readFull_def split: prod.splits option.splits)
  show "fst (Stream_readUint m s) \<noteq> Inl EOL"
    using b [of s] f [of "ucast m" s] by (auto simp: Stream_readUint_def split: prod.splits sum.splits)
qed

lemma readKind_not_EOL: "snd (snd (fst (Stream_readKind s))) \<noteq> Some EOL"
proof -
  obtain res s1 where b: "Stream_readByte s = (res, s1)" by fastforce
  have n: "res \<noteq> Inl EOL" using reads_not_EOL(2) [of s] b by simp
  have l: "snd (snd (fst (case Stream_readUint n s2 of (Inl err, s) \<Rightarrow> ((k, 0, Some err), s)
      | (Inr z, s) \<Rightarrow> ((k, z, if z < 56 then Some ErrCanonSize else None), s)))) \<noteq> Some EOL" for n s2 k
    using reads_not_EOL(4) [of n s2] by (auto split: prod.splits sum.splits)
  show ?thesis
    using b n by (cases res) (auto simp: Stream_readKind_def Let_def l)
qed

lemma Kind_EOL_sound:
  assumes "stKind s = None" "Stream_Kind s = (Inl EOL, s')"
  shows "same s' s"
proof -
  obtain kd z err s2 where rk: "Stream_readKind (s\<lparr>stKinderr := None\<rparr>) = ((kd, z, err), s2)" by (metis prod.collapse)
  have "err \<noteq> Some EOL" using readKind_not_EOL [of "s\<lparr>stKinderr := None\<rparr>"] rk by simp
  then show ?thesis using assms rk
    by (cases err; cases "stStack s2"; auto simp: Stream_Kind_def Let_def same_def split: if_splits)
qed

lemma SliceElems_not_EOL: "decodeSliceElems fuel d s \<noteq> Some (Inl EOL, s')"
  by (induction fuel arbitrary: s) (auto split: option.splits sum.splits if_splits)

lemma Interface_sound: "sound (decodeInterface fuel) rlp"
proof (induction fuel)
  case 0
  show ?case by (simp add: sound_def)
next
  case (Suc fuel)
  show ?case unfolding sound_def
  proof (intro allI impI conjI)
    fix s v s' assume r: "ready [] s" and d: "decodeInterface (Suc fuel) s = Some (Inr v, s')"
    obtain k z s1 where k: "Stream_Kind s = (Inr (k, z), s1)" using d by (auto split: prod.splits sum.splits)
    have ag: "Stream_Kind s1 = Stream_Kind s" using Kind_again [OF k] k by simp
    have "ahead (rlp v) s \<and> same s' (adv (length (rlp v)) s)"
    proof (cases "k = List")
      case True
      then obtain its where its: "decodeListSlice fuel (decodeInterface fuel) s = Some (Inr its, s')" "v = Lst its"
        using d k ListSlice_again [OF ag, of fuel "decodeInterface fuel"] by (auto split: option.splits sum.splits)
      then show ?thesis using ListSlice_sound [OF Suc r its(1)] by (simp add: Let_def)
    next
      case False
      then obtain b where "Stream_Bytes s = (Inr b, s')" "v = Str b"
        using d k ops_again(1) [OF ag] by (auto split: prod.splits sum.splits)
      then show ?thesis using Bytes_sound [OF r] by simp
    qed
    then show "ahead (rlp v) s" "same s' (adv (length (rlp v)) s)" by blast+
  next
    fix s s' assume r: "ready [] s" and d: "decodeInterface (Suc fuel) s = Some (Inl EOL, s')"
    show "same s' s"
    proof (cases "fst (Stream_Kind s)")
      case (Inl err)
      then have "Stream_Kind s = (Inl EOL, s')" using d by (auto split: prod.splits)
      then show ?thesis using Kind_EOL_sound r by (simp add: ready_def)
    next
      case (Inr kz)
      then obtain k z s1 where k: "Stream_Kind s = (Inr (k, z), s1)" by (metis prod.collapse)
      have k1: "Stream_Kind s1 = (Inr (k, z), s1)" using Kind_again [OF k] .
      have "Stream_Bytes s1 \<noteq> (Inl EOL, s')"
        using k1 reads_not_EOL(3) [of z s1] by (cases k) (auto simp: Stream_Bytes_def split: prod.splits sum.splits if_splits)
      moreover have "decodeListSlice fuel (decodeInterface fuel) s1 \<noteq> Some (Inl EOL, s')" if "k = List"
        using k1 that SliceElems_not_EOL
        by (auto simp: decodeListSlice_def Stream_List_def Stream_ListEnd_def
          split: prod.splits sum.splits option.splits list.splits if_splits)
      ultimately show ?thesis using d k by (auto split: if_splits option.splits sum.splits prod.splits)
    qed
  qed
qed

section \<open>Properties\<close>

lemma Interface_plain: "decodeInterface fuel s = Some (Inr it, s') \<Longrightarrow> plain it"
proof (induction fuel arbitrary: s it s')
  case (Suc fuel)
  note ih = Suc.IH
  have el: "\<forall>x \<in> set its. plain x" if "decodeSliceElems n (decodeInterface fuel) t = Some (Inr its, t')" for n t t' its
    using that
  proof (induction n arbitrary: t its)
    case (Suc n)
    then show ?case using ih by (auto split: option.splits sum.splits if_splits)
  qed simp
  have "\<forall>x \<in> set its. plain x" if "decodeListSlice fuel (decodeInterface fuel) t = Some (Inr its, t')" for t t' its
    using that by (auto simp: decodeListSlice_def Let_def dest!: el split: prod.splits sum.splits option.splits if_splits)
  then show ?case using Suc.prems by (auto split: prod.splits sum.splits option.splits if_splits)
qed simp

text \<open>C19. The decoder accepts canonical encodings only: a byte string decodes into an interface variable as a value
  exactly when it is the encoding of that value, so that every other input (long headers for short values, leading
  zeros, trailing data, nested lists that do not fit) is refused.\<close>

theorem DecodeBytes_canonical:
  assumes fuel: "length b < min fuel (2 ^ 63 - 9)"
  shows "DecodeBytes fuel TInterface b = Some (Inr (VIface (Some it))) \<longleftrightarrow> plain it \<and> b = rlp it"
proof
  let ?s = "NewStream b (of_nat (length b))"
  assume d: "DecodeBytes fuel TInterface b = Some (Inr (VIface (Some it)))"
  then obtain s' where i: "decodeInterface fuel ?s = Some (Inr it, s')" "stR s' = []"
    by (auto simp: DecodeBytes_def split: option.splits sum.splits if_splits)
  have "ready b ?s" using NewStream_ready [of b] fuel by simp
  then have "ready [] ?s" using ready_prefix [of "[]" b ?s] by simp
  then have "ahead (rlp it) ?s \<and> same s' (adv (length (rlp it)) ?s)"
    using Interface_sound [of fuel] i(1) unfolding sound_def by blast
  then have "take (length (rlp it)) b = rlp it" "drop (length (rlp it)) b = []"
    using i(2) by (simp_all add: ahead_def same_def adv_def NewStream_def)
  then show "plain it \<and> b = rlp it" using Interface_plain [OF i(1)] append_take_drop_id [of "length (rlp it)" b] by simp
next
  assume it: "plain it \<and> b = rlp it"
  have "reads (decodeInterface fuel) (rlp it) it" using it fuel by (intro Interface_reads) auto
  then obtain s' where "decodeInterface fuel (NewStream b (of_nat (length b))) = Some (Inr it, s')"
    "same s' (adv (length (rlp it)) (NewStream b (of_nat (length b))))"
    using NewStream_ready [of b] fuel it unfolding reads_def by auto
  then show "DecodeBytes fuel TInterface b = Some (Inr (VIface (Some it)))"
    using it by (simp add: DecodeBytes_def same_def adv_def NewStream_def)
qed

theorem DecodeBytes_canonical_witness:
  "DecodeBytes 9 TInterface [0xC2, 0x81, 0x05] \<noteq> Some (Inr (VIface (Some (Lst [Str [0x05]])))) \<and>
   DecodeBytes 9 TInterface [0xC1, 0x05] = Some (Inr (VIface (Some (Lst [Str [0x05]]))))"
proof
  show "DecodeBytes 9 TInterface [0xC2, 0x81, 0x05] \<noteq> Some (Inr (VIface (Some (Lst [Str [0x05]]))))"
    using DecodeBytes_canonical [of "[0xC2, 0x81, 0x05]" 9 "Lst [Str [0x05]]"]
    by (simp add: rlp_string_def list_head_def puthead_def)
  show "DecodeBytes 9 TInterface [0xC1, 0x05] = Some (Inr (VIface (Some (Lst [Str [0x05]]))))"
    using DecodeBytes_canonical [of "[0xC1, 0x05]" 9 "Lst [Str [0x05]]"]
    by (simp add: rlp_string_def list_head_def puthead_def)
qed

end
