(* ===== verification/Rlp_Nesting.thy ===== *)
theory Rlp_Nesting
  imports Rlp_Canonical
begin

text \<open>
  An invariant of the decoding stream that holds after every sequence of operations, on any input: the position in
  each open list stays within the list, and what is left of the enclosing list holds the inner one.
\<close>

fun nested :: "listpos list \<Rightarrow> bool" where
  "nested [] = True"
| "nested [t] = (lpPos t \<le> lpSize t)"
| "nested (t # p # ts) = (lpPos t \<le> lpSize t \<and> unat (lpPos p) + unat (lpSize t) \<le> unat (lpSize p) \<and> nested (p # ts))"

definition stream_inv :: "Stream \<Rightarrow> bool" where
  "stream_inv s =
     (nested (stStack s) \<and> (stKind s \<noteq> None \<longrightarrow> stKinderr s = None \<longrightarrow> fits (unat (stSize s)) (stStack s)))"

datatype stream_op = OpKind | OpBytes | OpRaw | OpUint nat | OpBool | OpList | OpListEnd

fun stream_exec :: "stream_op \<Rightarrow> Stream \<Rightarrow> Stream" where
  "stream_exec OpKind s = snd (Stream_Kind s)"
| "stream_exec OpBytes s = snd (Stream_Bytes s)"
| "stream_exec OpRaw s = snd (Stream_Raw s)"
| "stream_exec (OpUint maxbits) s = snd (Stream_uint maxbits s)"
| "stream_exec OpBool s = snd (Stream_Bool s)"
| "stream_exec OpList s = snd (Stream_List s)"
| "stream_exec OpListEnd s = snd (Stream_ListEnd s)"

section \<open>Reading keeps the lists nested\<close>

lemma nested_tl: "nested (t # ts) \<Longrightarrow> nested ts \<and> lpPos t \<le> lpSize t"
  by (cases ts) auto

lemma nested_bump:
  assumes "nested (t # ts)" "n \<le> lpSize t - lpPos t"
  shows "nested (t\<lparr>lpPos := lpPos t + n\<rparr> # ts)"
proof -
  have le: "lpPos t \<le> lpSize t" using assms(1) nested_tl by blast
  then have "unat (lpPos t) + unat n \<le> unat (lpSize t)" using assms(2) by (simp add: word_le_nat_alt unat_sub)
  then have "unat (lpPos t + n) \<le> unat (lpSize t)" using unat_plus_of_nat [of "lpPos t" "unat n" "lpSize t"] by simp
  then show ?thesis using assms(1) by (cases ts) (simp_all add: word_le_nat_alt)
qed

lemma willRead_nested: "nested (stStack s) \<Longrightarrow> nested (stStack (snd (Stream_willRead n s))) \<and> stKind (snd (Stream_willRead n s)) = None"
  by (cases "stStack s") (auto simp: Stream_willRead_def Let_def intro!: nested_bump)

lemma readByte_nested:
  "nested (stStack s) \<Longrightarrow> nested (stStack (snd (Stream_readByte s))) \<and> stKind (snd (Stream_readByte s)) = None"
  using willRead_nested [of s 1] by (auto simp: Stream_readByte_def split: prod.splits option.splits list.splits)

lemma readFull_nested:
  "nested (stStack s) \<Longrightarrow> nested (stStack (snd (Stream_readFull n s))) \<and> stKind (snd (Stream_readFull n s)) = None"
  using willRead_nested [of s n] by (auto simp: Stream_readFull_def split: prod.splits option.splits)

lemma readUint_nested:
  "nested (stStack s) \<Longrightarrow> nested (stStack (snd (Stream_readUint n s))) \<and> stKind (snd (Stream_readUint n s)) = None"
  using readByte_nested [of s] readFull_nested [of s "ucast n"]
  by (auto simp: Stream_readUint_def split: prod.splits sum.splits)

lemma readKind_nested: "nested (stStack s) \<Longrightarrow> nested (stStack (snd (Stream_readKind s)))"
proof -
  assume n: "nested (stStack s)"
  obtain res s1 where b: "Stream_readByte s = (res, s1)" by fastforce
  have n1: "nested (stStack s1)" using readByte_nested [OF n] b by simp
  have l: "nested (stStack (snd (case Stream_readUint m (s1\<lparr>stByteval := 0\<rparr>) of (Inl err, s) \<Rightarrow> ((k, 0, Some err), s)
      | (Inr z, s) \<Rightarrow> ((k, z, if z < 56 then Some ErrCanonSize else None), s))))" for m k
    using readUint_nested [of "s1\<lparr>stByteval := 0\<rparr>" m] n1 by (auto split: prod.splits sum.splits)
  show ?thesis using b n1 by (cases res) (auto simp: Stream_readKind_def Let_def l)
qed

lemma inv_rearmed: "nested (stStack s) \<Longrightarrow> stKind s = None \<Longrightarrow> stream_inv s"
  by (simp add: stream_inv_def)

lemma Kind_inv: "stream_inv s \<Longrightarrow> stream_inv (snd (Stream_Kind s))"
proof (cases "stKind s")
  case (Some k)
  assume "stream_inv s"
  then show ?thesis using Some by (simp add: Stream_Kind_def)
next
  case None
  assume i: "stream_inv s"
  obtain kd z err s2 where rk: "Stream_readKind (s\<lparr>stKinderr := None\<rparr>) = ((kd, z, err), s2)" by (metis prod.collapse)
  have n: "nested (stStack s2)" "nested (stStack s)"
    using readKind_nested [of "s\<lparr>stKinderr := None\<rparr>"] rk i by (simp_all add: stream_inv_def)
  have "fits (unat z) (stStack s2)" if "stStack s2 = t # ts" "z \<le> lpSize t - lpPos t" for t ts
  proof -
    have "lpPos t \<le> lpSize t" using n(1) nested_tl that(1) by metis
    then show ?thesis using that by (simp add: word_le_nat_alt unat_sub)
  qed
  then show ?thesis using rk None n
    by (cases err; cases "stStack s2") (auto simp: Stream_Kind_def Let_def stream_inv_def linorder_not_less)
qed

lemma after_kind:
  assumes "stream_inv s" "Stream_Kind s = (res, s1)"
  shows "stream_inv s1" "stream_inv (s1\<lparr>stKind := None\<rparr>)" "Stream_readFull z s1 = (r, s2) \<Longrightarrow> stream_inv s2"
    "Stream_readUint n s1 = (r', s2) \<Longrightarrow> stream_inv s2"
proof -
  show i: "stream_inv s1" using Kind_inv [OF assms(1)] assms(2) by simp
  then have n: "nested (stStack s1)" by (simp add: stream_inv_def)
  then show "stream_inv (s1\<lparr>stKind := None\<rparr>)" by (simp add: inv_rearmed)
  show "Stream_readFull z s1 = (r, s2) \<Longrightarrow> stream_inv s2" using readFull_nested [OF n, of z] by (simp add: inv_rearmed)
  show "Stream_readUint n s1 = (r', s2) \<Longrightarrow> stream_inv s2" using readUint_nested [OF n, of n] by (simp add: inv_rearmed)
qed

lemma Bytes_inv: "stream_inv s \<Longrightarrow> stream_inv (snd (Stream_Bytes s))"
  by (auto simp: Stream_Bytes_def split: prod.splits sum.splits Kind.splits dest: after_kind)

lemma Raw_inv: "stream_inv s \<Longrightarrow> stream_inv (snd (Stream_Raw s))"
  by (auto simp: Stream_Raw_def split: prod.splits sum.splits dest: after_kind)

lemma uint_inv: "stream_inv s \<Longrightarrow> stream_inv (snd (Stream_uint m s))"
  by (auto simp: Stream_uint_def split: prod.splits sum.splits Kind.splits dest: after_kind)

lemma Bool_inv: "stream_inv s \<Longrightarrow> stream_inv (snd (Stream_Bool s))"
  using uint_inv [of s 8] by (auto simp: Stream_Bool_def split: prod.splits sum.splits)

lemma List_inv:
  assumes "stream_inv s"
  shows "stream_inv (snd (Stream_List s))"
proof -
  obtain res s1 where k: "Stream_Kind s = (res, s1)" by fastforce
  have i1: "stream_inv s1" by (rule after_kind(1) [OF assms k])
  show ?thesis
  proof (cases res)
    case (Inl err)
    then show ?thesis using k i1 by (simp add: Stream_List_def)
  next
    case (Inr kz)
    obtain kd z where kz: "kz = (kd, z)" by (cases kz)
    have "Stream_Kind s1 = (Inr (kd, z), s1)" using Kind_again k Inr kz by blast
    then have f: "fits (unat z) (stStack s1)"
      using i1 by (cases "stKind s1"; cases "stKinderr s1")
        (auto simp: Stream_Kind_def stream_inv_def Let_def split: if_splits prod.splits list.splits)
    then have "nested (\<lparr>lpPos = 0, lpSize = z\<rparr> # stStack s1)"
      using i1 by (cases "stStack s1") (simp_all add: stream_inv_def)
    then show ?thesis using k i1 Inr kz by (simp add: Stream_List_def stream_inv_def)
  qed
qed

lemma ListEnd_inv:
  assumes "stream_inv s"
  shows "stream_inv (snd (Stream_ListEnd s))"
proof (cases "stStack s")
  case Nil
  then show ?thesis using assms by (simp add: Stream_ListEnd_def)
next
  case (Cons t rest)
  have n: "nested (t # rest)" using assms Cons by (simp add: stream_inv_def)
  show ?thesis
  proof (cases rest)
    case Nil
    then show ?thesis using assms Cons by (simp add: Stream_ListEnd_def stream_inv_def)
  next
    case (Cons p ps)
    have "lpSize t \<le> lpSize p - lpPos p" using n Cons by (auto simp: word_le_nat_alt unat_sub)
    then have "nested (p\<lparr>lpPos := lpPos p + lpSize t\<rparr> # ps)" using n Cons by (intro nested_bump) simp_all
    then show ?thesis using assms \<open>stStack s = t # rest\<close> Cons by (simp add: Stream_ListEnd_def stream_inv_def)
  qed
qed

text \<open>C24. However the operations of a stream are called, on whatever input, the lists it has entered stay properly
  nested: the position in each never passes its end, and what is left of the enclosing list holds the inner one.\<close>

theorem Stream_stays_nested: "stream_inv (fold stream_exec ops (NewStream b inputLimit))"
proof -
  have step: "stream_inv (stream_exec opn s)" if "stream_inv s" for opn s
    using that by (cases opn) (simp_all add: Kind_inv Bytes_inv Raw_inv uint_inv Bool_inv List_inv ListEnd_inv)
  have "stream_inv (NewStream b inputLimit)" by (simp add: stream_inv_def NewStream_def)
  then show ?thesis using step by (induction ops arbitrary: b rule: rev_induct) simp_all
qed

end
