(* ===== verification/Trie_Encoding.thy ===== *)
theory Trie_Encoding
  imports Rlp_Encode
begin

text \<open>
  The three encodings of trie keys (\<^verbatim>\<open>trie/encoding.go\<close>): bytes, hex (one byte per nibble with an optional
  terminator 16) and compact. \<open>None\<close> is a panic.
\<close>

definition hasTerm :: "bytes \<Rightarrow> bool" where
  "hasTerm s = (length s > 0 \<and> s ! (length s - 1) = 16)"

text \<open>\<^verbatim>\<open>decodeNibbles\<close> fills the buffer from its start.\<close>

fun decodeNibbles :: "bytes \<Rightarrow> bytes \<Rightarrow> bytes option" where
  "decodeNibbles [] buf = Some buf"
| "decodeNibbles [x] buf = None"
| "decodeNibbles (x # y # ns) [] = None"
| "decodeNibbles (x # y # ns) (b # buf) = map_option (Cons (push_bit 4 x OR y)) (decodeNibbles ns buf)"

definition hexToCompact :: "bytes \<Rightarrow> bytes option" where
  "hexToCompact hex0 =
     (let terminator = (if hasTerm hex0 then 1 else 0 :: u8);
          hex = (if hasTerm hex0 then butlast hex0 else hex0);
          flag = push_bit 5 terminator;
          buf = replicate (length hex div 2) 0
      in if odd (length hex)
         then map_option (Cons (flag OR push_bit 4 1 OR hd hex)) (decodeNibbles (tl hex) buf)
         else map_option (Cons flag) (decodeNibbles hex buf))"

definition keybytesToHex :: "bytes \<Rightarrow> bytes" where
  "keybytesToHex str = concat (map (\<lambda>b. [b div 16, b mod 16]) str) @ [16]"

definition compactToHex :: "bytes \<Rightarrow> bytes option" where
  "compactToHex compact =
     (let base0 = keybytesToHex compact;
          base = (if base0 ! 0 < 2 then butlast base0 else base0);
          chop = unat (2 - (base ! 0 AND 1))
      in if chop > length base then None else Some (drop chop base))"

definition hexToKeybytes :: "bytes \<Rightarrow> bytes option" where
  "hexToKeybytes hex0 =
     (let hex = (if hasTerm hex0 then butlast hex0 else hex0)
      in if odd (length hex) then None
         else decodeNibbles hex (replicate (length hex div 2) 0))"

fun prefixLen :: "bytes \<Rightarrow> bytes \<Rightarrow> nat" where
  "prefixLen (x # a) (y # b) = (if x = y then Suc (prefixLen a b) else 0)"
| "prefixLen a b = 0"

section \<open>Nibbles\<close>

abbreviation nibbles :: "bytes \<Rightarrow> bool" where
  "nibbles ns \<equiv> \<forall>x \<in> set ns. x < 16"

abbreviation unpack :: "bytes \<Rightarrow> bytes" where
  "unpack bs \<equiv> concat (map (\<lambda>b. [b div 16, b mod 16]) bs)"

lemma nibble_cases:
  assumes "x < (16 :: u8)"
  shows "x \<in> set (map of_nat [0..<16])"
proof -
  have "x = of_nat (unat x)" by simp
  moreover have "unat x < 16" using assms by (simp add: word_less_nat_alt)
  ultimately show ?thesis unfolding set_map by (metis atLeastLessThan_iff image_eqI le0 set_upt)
qed

lemma pack_nibbles:
  assumes "x < 16" "y < (16 :: u8)"
  shows "(push_bit 4 x OR y) div 16 = x \<and> (push_bit 4 x OR y) mod 16 = y"
proof -
  have "\<forall>x \<in> set (map of_nat [0..<16]). \<forall>y \<in> set (map of_nat [0..<16]).
      (push_bit 4 x OR y) div 16 = x \<and> (push_bit 4 x OR y) mod 16 = (y :: u8)"
    by code_simp
  then show ?thesis using nibble_cases assms by blast
qed

lemma unpack_bytes:
  "b div 16 < (16 :: u8)" "b mod 16 < (16 :: u8)" "push_bit 4 (b div 16) OR (b mod 16) = (b :: u8)"
proof -
  show "b div 16 < 16" 
  proof -
    have "unat b < 256" using unat_byte [of b] .
    then show ?thesis by (simp add: word_less_nat_alt unat_div less_mult_imp_div_less)
  qed
  show "b mod 16 < 16" by (simp add: word_less_nat_alt unat_mod)
  have "push_bit 4 (drop_bit 4 b) OR take_bit 4 b = b" by (rule bit_eqI) (auto simp: bit_simps)
  then show "push_bit 4 (b div 16) OR (b mod 16) = b" by (simp add: drop_bit_eq_div take_bit_eq_mod)
qed


lemma length_unpack [simp]: "length (unpack bs) = 2 * length bs"
  by (induction bs) auto

lemma nibbles_unpack: "nibbles (unpack bs)"
  by (induction bs) (auto simp: unpack_bytes)

lemma nibbles_not_term: "nibbles ns \<Longrightarrow> \<not> hasTerm ns"
  by (cases ns rule: rev_cases) (auto simp: hasTerm_def)

lemma hasTerm_snoc [simp]: "hasTerm (ns @ [t]) \<longleftrightarrow> t = 16"
  by (simp add: hasTerm_def)

lemma decodeNibbles_unpack: "length buf = length bs \<Longrightarrow> decodeNibbles (unpack bs) buf = Some bs"
  by (induction bs buf rule: list_induct2') (auto simp: unpack_bytes)

lemma decodeNibbles_some:
  "even (length ns) \<Longrightarrow> nibbles ns \<Longrightarrow> length buf = length ns div 2 \<Longrightarrow>
     \<exists>bs. decodeNibbles ns buf = Some bs \<and> unpack bs = ns"
proof (induction ns buf rule: decodeNibbles.induct)
  case (4 x y ns b buf)
  then obtain bs where "decodeNibbles ns buf = Some bs" "unpack bs = ns" by auto
  then show ?case using 4(3) pack_nibbles [of x y] by auto
qed auto

text \<open>The bytes of the key are recovered from its hex form.\<close>

lemma hexToKeybytes_inverse: "hexToKeybytes (keybytesToHex k) = Some k"
  by (simp add: hexToKeybytes_def keybytesToHex_def decodeNibbles_unpack Let_def)

definition hex_key :: "bytes \<Rightarrow> bool" where
  "hex_key k = nibbles (if hasTerm k then butlast k else k)"

lemma keybytesToHex_key: "hex_key (keybytesToHex k) \<and> hasTerm (keybytesToHex k)"
  by (simp add: hex_key_def keybytesToHex_def nibbles_unpack del: set_concat)

lemma hex_key_cases:
  assumes "hex_key k"
  obtains ns where "nibbles ns" "k = ns" "\<not> hasTerm k"
    | ns where "nibbles ns" "k = ns @ [16]" "hasTerm k"
proof (cases "hasTerm k")
  case True
  then have "k = butlast k @ [16]"
    by (cases k rule: rev_cases) (simp_all add: hasTerm_def)
  then show ?thesis using that(2) [of "butlast k"] assms True by (simp add: hex_key_def)
next
  case False
  then show ?thesis using that(1) assms by (simp add: hex_key_def)
qed

lemma compactToHex_flag:
  assumes "b div 16 = f" "f < 4"
  shows "compactToHex (b # bs) =
    Some ((if f AND 1 = 1 then [b mod 16] else []) @ unpack bs @ (if f < 2 then [] else [16]))"
proof -
  have "f < 16" using assms(2) by (simp add: word_less_nat_alt)
  then have "f \<in> {0, 1, 2, 3}" using nibble_cases [of f] assms(2) by (auto simp: upt_rec)
  then show ?thesis using assms by (auto simp: compactToHex_def keybytesToHex_def butlast_append)
qed

text \<open>The compact form is total on hex keys and is decoded to the key it came from.\<close>

lemma compact_nibbles:
  assumes "nibbles ns" "t \<in> {0, 1}"
  shows "\<exists>c. (if odd (length ns)
         then map_option (Cons (push_bit 5 t OR push_bit 4 1 OR hd ns))
                (decodeNibbles (tl ns) (replicate (length ns div 2) 0))
         else map_option (Cons (push_bit 5 t)) (decodeNibbles ns (replicate (length ns div 2) 0))) = Some c \<and>
       compactToHex c = Some (ns @ (if t = 1 then [16] else [])) \<and> length c = length ns div 2 + 1"
proof (cases "odd (length ns)")
  case True
  then obtain x xs where ns: "ns = x # xs" by (cases ns) auto
  obtain bs where bs: "decodeNibbles xs (replicate (length ns div 2) 0) = Some bs" "unpack bs = xs"
    using decodeNibbles_some [of xs "replicate (length ns div 2) 0"] assms(1) True ns by auto
  have "push_bit 5 t OR push_bit 4 1 OR x = push_bit 4 (2 * t + 1) OR x"
    using assms(2) by (auto simp flip: or.assoc)
  then have "(push_bit 5 t OR push_bit 4 1 OR x) div 16 = 2 * t + 1" "(push_bit 5 t OR push_bit 4 1 OR x) mod 16 = x"
    using pack_nibbles [of "2 * t + 1" x] assms ns by auto
  then show ?thesis
    using compactToHex_flag [of _ "2 * t + 1" bs] bs True ns assms(2) length_unpack [of bs] by auto
next
  case False
  then obtain bs where bs: "decodeNibbles ns (replicate (length ns div 2) 0) = Some bs" "unpack bs = ns"
    using decodeNibbles_some [of ns "replicate (length ns div 2) 0"] assms(1) by auto
  have "push_bit 5 t div 16 = 2 * t" using assms(2) by auto
  then show ?thesis
    using compactToHex_flag [of _ "2 * t" bs] bs False assms(2) length_unpack [of bs] by auto
qed

lemma compactToHex_inverse:
  assumes "hex_key k"
  obtains c where "hexToCompact k = Some c" "compactToHex c = Some k"
    "length c = (length k - of_bool (hasTerm k)) div 2 + 1"
  using assms
proof (cases rule: hex_key_cases)
  case (1 ns)
  then show ?thesis using that compact_nibbles [of ns 0] by (simp add: hexToCompact_def Let_def del: push_bit_of_0) blast
next
  case (2 ns)
  then show ?thesis using that compact_nibbles [of ns 1] by (simp add: hexToCompact_def Let_def) blast
qed

text \<open>On the empty byte string the hex form is the terminator alone, and the flag nibble it should hold is cut off
  beyond its end.\<close>

lemma compactToHex_empty: "compactToHex [] = None"
  by (simp add: compactToHex_def keybytesToHex_def)

lemma compactToHex_some:
  assumes "c \<noteq> []"
  shows "compactToHex c \<noteq> None"
proof -
  have "length (keybytesToHex c) \<ge> 3" using assms by (cases c) (auto simp: keybytesToHex_def)
  moreover have two: "unat (2 - (x AND 1)) \<le> 2" for x :: u8 by (cases "x AND 1 = 0") (auto simp: and_one_eq)
  ultimately show ?thesis by (auto simp: compactToHex_def Let_def not_less intro: le_trans [OF two])
qed

section \<open>Common prefixes\<close>

lemma prefixLen_le: "prefixLen a b \<le> length a" "prefixLen a b \<le> length b"
  by (induction a b rule: prefixLen.induct) auto

lemma prefixLen_take: "take (prefixLen a b) a = take (prefixLen a b) b"
  by (induction a b rule: prefixLen.induct) auto

lemma prefixLen_stop:
  "prefixLen a b < length a \<Longrightarrow> prefixLen a b < length b \<Longrightarrow> a ! prefixLen a b \<noteq> b ! prefixLen a b"
  by (induction a b rule: prefixLen.induct) (auto split: if_splits)

lemma prefixLen_split:
  obtains p x y where "a = p @ x" "b = p @ y" "prefixLen a b = length p" "x = [] \<or> y = [] \<or> hd x \<noteq> hd y"
proof (induction a b arbitrary: thesis rule: prefixLen.induct)
  case (1 x a y b)
  show ?case
  proof (cases "x = y")
    case True
    then show ?thesis using 1 by (metis append_Cons length_Cons prefixLen.simps(1))
  next
    case False
    then show ?thesis using "1.prems" [of "[]" "x # a" "y # b"] by simp
  qed
qed auto

end
