(* ===== verification/Trie_Spec.thy ===== *)
theory Trie_Spec
  imports Trie_Encoding
begin

text \<open>
  The Merkle Patricia trie with every node loaded and without the caching flags: the shape the operations of
  \<^verbatim>\<open>trie/trie.go\<close> work on. The shape is in minimal form (\<open>wf_trie\<close>), and a trie in minimal form is determined by
  the key/value map it stores (\<open>pget_inject\<close>).
\<close>

datatype ptrie = PNil | PVal bytes | PShort bytes ptrie | PFull "ptrie list"

fun pget :: "ptrie \<Rightarrow> bytes \<Rightarrow> bytes option" where
  "pget PNil k = None"
| "pget (PVal v) k = (if k = [] then Some v else None)"
| "pget (PShort nk c) k = (if take (length nk) k = nk then pget c (drop (length nk) k) else None)"
| "pget (PFull cs) [] = None"
| "pget (PFull cs) (x # k) = (if unat x < length cs then pget (cs ! unat x) k else None)"

text \<open>A new leaf: the value itself when no key is left.\<close>

definition leaf :: "bytes \<Rightarrow> ptrie \<Rightarrow> ptrie" where
  "leaf k v = (if k = [] then v else PShort k v)"

definition fork :: "u8 \<Rightarrow> ptrie \<Rightarrow> u8 \<Rightarrow> ptrie \<Rightarrow> ptrie" where
  "fork x a y b = PFull ((replicate 17 PNil)[unat x := a, unat y := b])"

definition shorten :: "bytes \<Rightarrow> ptrie \<Rightarrow> ptrie" where
  "shorten k c = (if k = [] then c else PShort k c)"

fun pinsert :: "ptrie \<Rightarrow> bytes \<Rightarrow> ptrie \<Rightarrow> ptrie" where
  "pinsert t [] v = v"
| "pinsert PNil k v = PShort k v"
| "pinsert (PVal w) k v = PVal w"
| "pinsert (PShort nk c) k v =
     (let m = prefixLen k nk
      in if m = length nk then PShort nk (pinsert c (drop m k) v)
         else shorten (take m k)
                (fork (nk ! m) (leaf (drop (Suc m) nk) c) (k ! m) (leaf (drop (Suc m) k) v)))"
| "pinsert (PFull cs) (x # k) v =
     (if unat x < length cs then PFull (cs[unat x := pinsert (cs ! unat x) k v]) else PFull cs)"

definition single_child :: "ptrie list \<Rightarrow> nat option" where
  "single_child cs = (case filter (\<lambda>i. cs ! i \<noteq> PNil) [0..<length cs] of [i] \<Rightarrow> Some i | _ \<Rightarrow> None)"

definition reduce :: "ptrie list \<Rightarrow> ptrie" where
  "reduce cs =
     (case single_child cs of
        None \<Rightarrow> PFull cs
      | Some p \<Rightarrow>
          (case cs ! p of
             PShort k c \<Rightarrow> if p \<noteq> 16 then PShort (of_nat p # k) c else PShort [of_nat p] (cs ! p)
           | _ \<Rightarrow> PShort [of_nat p] (cs ! p)))"

definition merge :: "bytes \<Rightarrow> ptrie \<Rightarrow> ptrie" where
  "merge k t = (case t of PShort k' c \<Rightarrow> PShort (k @ k') c | _ \<Rightarrow> PShort k t)"

fun pdelete :: "ptrie \<Rightarrow> bytes \<Rightarrow> ptrie" where
  "pdelete PNil k = PNil"
| "pdelete (PVal v) k = PNil"
| "pdelete (PShort nk c) k =
     (let m = prefixLen k nk
      in if m < length nk then PShort nk c
         else if m = length k then PNil
         else merge nk (pdelete c (drop (length nk) k)))"
| "pdelete (PFull cs) [] = PFull cs"
| "pdelete (PFull cs) (x # k) =
     (if unat x < length cs then reduce (cs[unat x := pdelete (cs ! unat x) k]) else PFull cs)"

section \<open>Minimal form\<close>

fun is_full :: "ptrie \<Rightarrow> bool" where
  "is_full (PFull cs) = True"
| "is_full t = False"

fun is_val :: "ptrie \<Rightarrow> bool" where
  "is_val (PVal v) = (v \<noteq> [])"
| "is_val t = False"

definition term_key :: "bytes \<Rightarrow> bool" where
  "term_key k = (k \<noteq> [] \<and> last k = 16 \<and> nibbles (butlast k))"

definition children_ok :: "ptrie list \<Rightarrow> bool" where
  "children_ok cs = (length cs = 17 \<and> (cs ! 16 = PNil \<or> is_val (cs ! 16)) \<and>
     (\<exists>i < 17. \<exists>j < 17. i \<noteq> j \<and> cs ! i \<noteq> PNil \<and> cs ! j \<noteq> PNil))"

function wfs :: "ptrie \<Rightarrow> bool" where
  "wfs PNil = False"
| "wfs (PVal v) = False"
| "wfs (PShort k c) = ((term_key k \<and> is_val c) \<or> (k \<noteq> [] \<and> nibbles k \<and> is_full c \<and> wfs c))"
| "wfs (PFull cs) = (children_ok cs \<and> (\<forall>c \<in> set (take 16 cs). c = PNil \<or> wfs c))"
  by pat_completeness auto
termination
  by (relation "measure size") (auto simp: less_Suc_eq_le size_list_estimation' dest!: in_set_takeD)

definition wf_trie :: "ptrie \<Rightarrow> bool" where
  "wf_trie t = (t = PNil \<or> wfs t)"

section \<open>Keys\<close>

lemma term_key_Cons: "term_key (x # k) \<longleftrightarrow> (if k = [] then x = 16 else x < 16 \<and> term_key k)"
  by (auto simp: term_key_def)

lemma not_term_key_Nil [simp]: "\<not> term_key []"
  by (simp add: term_key_def)

lemma term_key_append: "term_key (p @ r) \<longleftrightarrow> (if r = [] then term_key p else nibbles p \<and> term_key r)"
  by (induction p) (auto simp: term_key_Cons)

lemma term_key_nibbles: "term_key k \<Longrightarrow> \<not> nibbles k"
  unfolding term_key_def by (metis last_in_set less_irrefl)

lemma nibble_le: "x < 16 \<or> x = 16 \<Longrightarrow> unat (x :: u8) < 17"
  by (auto simp: word_less_nat_alt)

lemma term_key_hd: "term_key (x # k) \<Longrightarrow> unat x < 17"
  by (auto simp: term_key_Cons nibble_le split: if_splits)

lemma keybytesToHex_term: "term_key (keybytesToHex k)"
  by (simp add: term_key_def keybytesToHex_def nibbles_unpack del: set_concat)

text \<open>How a terminated key meets the key of a short node.\<close>

lemma key_meets:
  assumes "term_key k" "term_key nk \<or> nibbles nk"
  obtains (whole) r where "k = nk @ r" "prefixLen k nk = length nk"
    | (split) p x a y b where "k = p @ x # a" "nk = p @ y # b" "x \<noteq> y" "prefixLen k nk = length p"
proof -
  obtain p u w where k: "k = p @ u" "nk = p @ w" "prefixLen k nk = length p" "u = [] \<or> w = [] \<or> hd u \<noteq> hd w"
    by (rule prefixLen_split)
  show ?thesis
  proof (cases w)
    case Nil
    then show ?thesis using whole [of u] k by simp
  next
    case (Cons y b)
    have "nibbles p" using assms(2) k(2) Cons by (auto simp: term_key_append)
    then have "u \<noteq> []" using assms(1) k(1) term_key_nibbles [of p] by auto
    then show ?thesis using split k Cons by (cases u) auto
  qed
qed

lemma take_self_append [simp]: "take (length nk) k = nk \<longleftrightarrow> (\<exists>r. k = nk @ r)"
  by (metis append_eq_conv_conj append_take_drop_id)

lemma pget_leaf: "pget (leaf b c) r = (if take (length b) r = b then pget c (drop (length b) r) else None)"
  by (simp add: leaf_def)

lemma pget_shorten: "pget (shorten b c) r = (if take (length b) r = b then pget c (drop (length b) r) else None)"
  by (simp add: shorten_def)

lemma pget_fork:
  assumes "unat x < 17" "unat y < 17"
  shows "pget (fork x a y b) (z # r) = (if z = y then pget b r else if z = x then pget a r else None)"
  using assms by (auto simp: fork_def nth_list_update word_unat_eq_iff)

lemma pget_fork_Nil [simp]: "pget (fork x a y b) [] = None"
  by (simp add: fork_def)

lemma all_take_16: "length cs = 17 \<Longrightarrow> (\<forall>c \<in> set (take 16 cs). P c) \<longleftrightarrow> (\<forall>i < 16. P (cs ! i))"
  unfolding all_set_conv_all_nth by simp

lemma wfs_PFull:
  "wfs (PFull cs) \<longleftrightarrow> length cs = 17 \<and> (cs ! 16 = PNil \<or> is_val (cs ! 16)) \<and>
     (\<forall>i < 16. cs ! i = PNil \<or> wfs (cs ! i)) \<and>
     (\<exists>i < 17. \<exists>j < 17. i \<noteq> j \<and> cs ! i \<noteq> PNil \<and> cs ! j \<noteq> PNil)"
  by (cases "length cs = 17") (simp_all add: children_ok_def all_take_16 conj_comms)

declare wfs.simps(4) [simp del]

lemma not_nil [simp]: "\<not> is_val PNil"
  by simp

definition slot_ok :: "u8 \<Rightarrow> ptrie \<Rightarrow> bool" where
  "slot_ok x t = ((x = 16 \<and> is_val t) \<or> (x < 16 \<and> wfs t))"

lemma slot_ok_not_nil: "slot_ok x t \<Longrightarrow> t \<noteq> PNil"
  by (auto simp: slot_ok_def)

lemma slot_ok_lt: "slot_ok x t \<Longrightarrow> unat x < 17"
  by (auto simp: slot_ok_def nibble_le)

lemma slot_ok_index:
  "slot_ok x t \<Longrightarrow> unat x < 16 \<Longrightarrow> wfs t"
  "slot_ok x t \<Longrightarrow> unat x = 16 \<Longrightarrow> is_val t"
  by (auto simp: slot_ok_def word_less_nat_alt)

lemma wfs_fork:
  assumes "x \<noteq> y" "slot_ok x a" "slot_ok y b"
  shows "wfs (fork x a y b)"
proof -
  have ne: "unat x \<noteq> unat y" using assms(1) by (simp add: word_unat_eq_iff)
  have l: "unat x < 17" "unat y < 17" using assms(2,3) slot_ok_lt by auto
  let ?cs = "(replicate 17 PNil)[unat x := a, unat y := b]"
  have "?cs ! unat x \<noteq> PNil" "?cs ! unat y \<noteq> PNil"
    using l ne assms(2,3)[THEN slot_ok_not_nil] by (simp_all add: nth_list_update)
  then have "\<exists>i < 17. \<exists>j < 17. i \<noteq> j \<and> ?cs ! i \<noteq> PNil \<and> ?cs ! j \<noteq> PNil" using l ne by blast
  then show ?thesis
    using l assms(2,3) by (auto simp: fork_def wfs_PFull nth_list_update slot_ok_index)
qed

lemma wfs_suffix:
  assumes "wfs (PShort (p @ y # b) c)"
  shows "slot_ok y (leaf b c)"
  using assms by (auto simp: slot_ok_def term_key_append term_key_Cons leaf_def split: if_splits)

lemma wfs_leaf: "term_key k \<Longrightarrow> v \<noteq> [] \<Longrightarrow> wfs (PShort k (PVal v))"
  by simp

lemma wfs_shorten: "nibbles p \<Longrightarrow> is_full t \<Longrightarrow> wfs t \<Longrightarrow> wfs (shorten p t)"
  by (simp add: shorten_def)

section \<open>Insertion\<close>

lemma drop_fork: "drop (Suc (length p)) (p @ x # a) = a"
  by simp

lemma pinsert_PShort:
  "k \<noteq> [] \<Longrightarrow> pinsert (PShort nk c) k v =
     (if prefixLen k nk = length nk then PShort nk (pinsert c (drop (length nk) k) v)
      else shorten (take (prefixLen k nk) k)
             (fork (nk ! prefixLen k nk) (leaf (drop (Suc (prefixLen k nk)) nk) c)
                (k ! prefixLen k nk) (leaf (drop (Suc (prefixLen k nk)) k) v)))"
  by (cases k) (simp_all add: Let_def)

declare pinsert.simps(4) [simp del]

lemma pinsert_split:
  assumes "k = p @ x # a" "nk = p @ y # b" "x \<noteq> y" "prefixLen k nk = length p"
  shows "pinsert (PShort nk c) k v = shorten p (fork y (leaf b c) x (leaf a v))"
  using assms by (simp add: pinsert_PShort nth_append)

lemma pinsert_whole:
  assumes "k = nk @ r" "prefixLen k nk = length nk" "k \<noteq> []"
  shows "pinsert (PShort nk c) k v = PShort nk (pinsert c r v)"
  using assms by (simp add: pinsert_PShort)

lemma pget_split:
  assumes "x \<noteq> y" "unat x < 17" "unat y < 17"
  shows "pget (shorten p (fork y (leaf b c) x (leaf a (PVal v)))) = (pget (PShort (p @ y # b) c))(p @ x # a \<mapsto> v)"
proof
  fix r
  consider z q where "r = p @ z # q" | "r = p" | "take (length p) r \<noteq> p"
    by (metis append_Nil2 neq_Nil_conv take_self_append)
  then show "pget (shorten p (fork y (leaf b c) x (leaf a (PVal v)))) r =
      ((pget (PShort (p @ y # b) c))(p @ x # a \<mapsto> v)) r"
    by cases (use assms take_self_append [of "p @ y # b" r] in \<open>auto simp: pget_shorten pget_fork pget_leaf\<close>)
qed

lemma wfs_short_key: "wfs (PShort nk c) \<Longrightarrow> nk \<noteq> [] \<and> (term_key nk \<or> nibbles nk)"
  by auto

lemma wfs_update:
  assumes "wfs (PFull cs)" "slot_ok x t"
  shows "wfs (PFull (cs[unat x := t]))"
proof -
  obtain i j where ij: "i < 17" "j < 17" "i \<noteq> j" "cs ! i \<noteq> PNil" "cs ! j \<noteq> PNil" and l: "length cs = 17"
    using assms(1) by (auto simp: wfs_PFull)
  then have "cs[unat x := t] ! i \<noteq> PNil" "cs[unat x := t] ! j \<noteq> PNil"
    using slot_ok_not_nil [OF assms(2)] slot_ok_lt [OF assms(2)] by (simp_all add: nth_list_update)
  then have "\<exists>i < 17. \<exists>j < 17. i \<noteq> j \<and> cs[unat x := t] ! i \<noteq> PNil \<and> cs[unat x := t] ! j \<noteq> PNil" using ij by blast
  then show ?thesis using assms(1) slot_ok_index [OF assms(2)] slot_ok_lt [OF assms(2)] l
    by (simp add: wfs_PFull nth_list_update)
qed

lemma pget_update:
  assumes "unat x < length cs" "pget t = (pget (cs ! unat x))(k := w)"
  shows "pget (PFull (cs[unat x := t])) = (pget (PFull cs))(x # k := w)"
proof
  fix r
  show "pget (PFull (cs[unat x := t])) r = ((pget (PFull cs))(x # k := w)) r"
    using assms by (cases r) (auto simp: nth_list_update word_unat_eq_iff)
qed

lemma pinsert_ok:
  assumes "wf_trie t" "term_key k" "v \<noteq> []"
  shows "wfs (pinsert t k (PVal v)) \<and> (is_full t \<longrightarrow> is_full (pinsert t k (PVal v))) \<and>
     pget (pinsert t k (PVal v)) = (pget t)(k \<mapsto> v)"
  using assms
proof (induction t k "PVal v" rule: pinsert.induct)
  case (2 x k)
  then show ?case by (auto simp: fun_eq_iff)
next
  case (4 nk c x k)
  have w: "wfs (PShort nk c)" using "4.prems" by (simp add: wf_trie_def)
  note nk = wfs_short_key [OF w]
  show ?case using "4.prems"(2) nk [THEN conjunct2]
  proof (cases rule: key_meets)
    case (whole r)
    show ?thesis
    proof (cases "r = []")
      case True
      then have "term_key nk" "is_val c" using whole(1) "4.prems"(2) w term_key_nibbles by auto
      then show ?thesis
        using True whole(1) "4.prems"(2,3) pinsert_whole [OF whole, of c "PVal v"] by (cases c) (auto simp: fun_eq_iff)
    next
      case False
      then have "nibbles nk" "term_key r" using whole(1) "4.prems"(2) by (auto simp: term_key_append)
      then have c: "is_full c" "wfs c" using w term_key_nibbles by auto
      have d: "drop (prefixLen (x # k) nk) (x # k) = r" using whole by simp
      have "wfs (pinsert c r (PVal v)) \<and> is_full (pinsert c r (PVal v)) \<and> pget (pinsert c r (PVal v)) = (pget c)(r \<mapsto> v)"
        using "4.hyps" [OF refl whole(2)] c \<open>term_key r\<close> "4.prems"(3) unfolding d by (simp add: wf_trie_def)
      then show ?thesis using \<open>nibbles nk\<close> nk whole(1) pinsert_whole [OF whole] by (auto simp: fun_eq_iff)
    qed
  next
    case (split p x' a y b)
    note e = pinsert_split [OF split]
    have s: "slot_ok y (leaf b c)" "slot_ok x' (leaf a (PVal v))"
      using w wfs_leaf [OF "4.prems"(2,3)] split(1,2) wfs_suffix by metis+
    have "nibbles p" using "4.prems"(2) split(1) by (auto simp: term_key_append)
    then have "wfs (pinsert (PShort nk c) (x # k) (PVal v))"
      unfolding e using wfs_shorten wfs_fork [OF split(3) [symmetric] s] by (simp add: fork_def)
    moreover have "pget (pinsert (PShort nk c) (x # k) (PVal v)) = (pget (PShort nk c))(x # k \<mapsto> v)"
      using split(3) s[THEN slot_ok_lt] pget_split unfolding e unfolding split(1,2) by blast
    ultimately show ?thesis by simp
  qed
next
  case (5 cs x k)
  have w: "wfs (PFull cs)" using "5.prems"(1) by (simp add: wf_trie_def)
  then have l: "length cs = 17" by (simp add: wfs_PFull)
  have x: "unat x < 17" using "5.prems"(2) by (rule term_key_hd)
  let ?c = "pinsert (cs ! unat x) k (PVal v)"
  have "slot_ok x ?c \<and> pget ?c = (pget (cs ! unat x))(k \<mapsto> v)"
  proof (cases "k = []")
    case True
    then show ?thesis using w "5.prems"(2,3) by (cases "cs ! 16") (auto simp: wfs_PFull term_key_Cons slot_ok_def fun_eq_iff)
  next
    case False
    then have "x < 16" "term_key k" using "5.prems"(2) by (auto simp: term_key_Cons)
    moreover then have "wf_trie (cs ! unat x)" using w by (auto simp: wfs_PFull wf_trie_def word_less_nat_alt)
    ultimately show ?thesis using "5.hyps" x l "5.prems"(3) by (simp add: slot_ok_def)
  qed
  then show ?case using wfs_update [OF w] pget_update [of x cs] l x by simp
qed (auto simp: wf_trie_def)

section \<open>Deletion\<close>

lemma wfs_nonempty: "wfs t \<Longrightarrow> \<exists>k v. pget t k = Some v \<and> term_key k"
proof (induction t rule: wfs.induct)
  case (3 k c)
  then consider "term_key k" "is_val c" | "nibbles k" "is_full c" "wfs c" by auto
  then show ?case
  proof cases
    case 1
    then obtain v where "c = PVal v" by (cases c) auto
    then have "pget (PShort k c) k = Some v" by simp
    then show ?thesis using 1 by blast
  next
    case 2
    then obtain r v where "pget c r = Some v" "term_key r" using 3 by auto
    then have "pget (PShort k c) (k @ r) = Some v" "term_key (k @ r)" using 2(1) by (auto simp: term_key_append)
    then show ?thesis by blast
  qed
next
  case (4 cs)
  obtain i j where "i < 17" "j < 17" "i \<noteq> j" "cs ! i \<noteq> PNil" "cs ! j \<noteq> PNil" "length cs = 17"
    using "4.prems" by (auto simp: wfs_PFull)
  moreover define m where "m = min i j"
  ultimately have m: "m < 16" "cs ! m \<noteq> PNil" by (auto simp: min_def)
  then have "wfs (cs ! m)" using "4.prems" by (auto simp: wfs_PFull)
  moreover have "cs ! m \<in> set (take 16 cs)" using m \<open>length cs = 17\<close> by (auto simp: in_set_conv_nth)
  ultimately obtain k v where "pget (cs ! m) k = Some v" "term_key k" using 4 by blast
  moreover have "unat (of_nat m :: u8) = m" "(of_nat m :: u8) < 16"
    using m by (auto simp: word_less_nat_alt unat_of_nat)
  ultimately show ?case using m \<open>length cs = 17\<close>
    by (intro exI [of _ "of_nat m # k"] exI [of _ v]) (auto simp: term_key_Cons)
qed auto

lemma single_child_Some:
  assumes "single_child cs = Some p"
  shows "p < length cs" "cs ! p \<noteq> PNil" "i < length cs \<Longrightarrow> i \<noteq> p \<Longrightarrow> cs ! i = PNil"
proof -
  have f: "filter (\<lambda>i. cs ! i \<noteq> PNil) [0..<length cs] = [p]"
    using assms by (auto simp: single_child_def split: list.splits)
  have "set (filter (\<lambda>i. cs ! i \<noteq> PNil) [0..<length cs]) = {p}" unfolding f by simp
  then have s: "{i. i < length cs \<and> cs ! i \<noteq> PNil} = {p}" by auto
  then show "p < length cs" "cs ! p \<noteq> PNil" "i < length cs \<Longrightarrow> i \<noteq> p \<Longrightarrow> cs ! i = PNil" by blast+
qed

lemma single_child_None:
  assumes "single_child cs = None" "i < length cs" "cs ! i \<noteq> PNil"
  shows "\<exists>j < length cs. j \<noteq> i \<and> cs ! j \<noteq> PNil"
proof (rule ccontr)
  assume n: "\<not> ?thesis"
  let ?f = "filter (\<lambda>i. cs ! i \<noteq> PNil) [0..<length cs]"
  have "set ?f = {i}" using n assms(2,3) by auto
  moreover have "distinct ?f" by simp
  ultimately have "length ?f = card {i}" using distinct_card [of ?f] by metis
  then have "length ?f = 1" by simp
  then obtain j where "?f = [j]" by (auto simp: length_Suc_conv)
  then show False using assms(1) by (simp add: single_child_def)
qed

definition slots :: "ptrie list \<Rightarrow> bool" where
  "slots cs = (length cs = 17 \<and> (cs ! 16 = PNil \<or> is_val (cs ! 16)) \<and> (\<forall>i < 16. cs ! i = PNil \<or> wfs (cs ! i)))"

lemma wfs_slots: "wfs (PFull cs) \<longleftrightarrow> slots cs \<and> (\<exists>i < 17. \<exists>j < 17. i \<noteq> j \<and> cs ! i \<noteq> PNil \<and> cs ! j \<noteq> PNil)"
  by (auto simp: wfs_PFull slots_def)

lemma slots_update: "slots cs \<Longrightarrow> t = PNil \<or> slot_ok x t \<Longrightarrow> slots (cs[unat x := t])"
  using slot_ok_index [of x t] slot_ok_lt [of x t]
  by (cases "unat x < 17") (auto simp: slots_def nth_list_update)

lemma pget_single:
  assumes "single_child cs = Some p" "length cs = 17"
  shows "pget (PFull cs) = pget (PShort [of_nat p] (cs ! p))"
proof
  fix r
  have "unat (of_nat p :: u8) = p" using single_child_Some(1) [OF assms(1)] assms(2) by (simp add: unat_of_nat)
  then show "pget (PFull cs) r = pget (PShort [of_nat p] (cs ! p)) r"
    using single_child_Some [OF assms(1)] by (cases r) (auto simp: word_unat_eq_iff)
qed

lemma pget_merge: "pget (PShort (k @ k') c) = pget (PShort k (PShort k' c))"
proof
  fix x
  show "pget (PShort (k @ k') c) x = pget (PShort k (PShort k' c)) x"
    using take_self_append [of "k @ k'" x] by (cases "\<exists>r. x = k @ r") (auto simp: append_eq_append_conv2)
qed

lemma reduce_ok:
  assumes s: "slots cs" and i: "i < 17" "cs ! i \<noteq> PNil"
  shows "wfs (reduce cs) \<and> pget (reduce cs) = pget (PFull cs)"
proof (cases "single_child cs")
  case None
  then have "wfs (PFull cs)" using single_child_None [OF None, of i] i s unfolding wfs_slots by (auto simp: slots_def)
  then show ?thesis using None by (simp add: reduce_def)
next
  case (Some p)
  have l: "length cs = 17" using s by (simp add: slots_def)
  note p = single_child_Some [OF Some] pget_single [OF Some l]
  have u: "(of_nat p :: u8) = 16 \<longleftrightarrow> p = 16" "p \<noteq> 16 \<Longrightarrow> (of_nat p :: u8) < 16"
    using p(1) l by (auto simp: word_unat_eq_iff word_less_nat_alt unat_of_nat)
  show ?thesis
  proof (cases "p = 16")
    case True
    then have "is_val (cs ! 16)" using s p(2) by (auto simp: slots_def)
    then show ?thesis using Some True p(4) by (cases "cs ! 16") (auto simp: reduce_def term_key_Cons)
  next
    case False
    then have "p < 16" using p(1) l by simp
    then have "wfs (cs ! p)" using s p(2) by (auto simp: slots_def)
    then show ?thesis using Some False p(4) u pget_merge [of "[of_nat p]"]
      by (cases "cs ! p") (auto simp: reduce_def term_key_Cons)
  qed
qed

lemma merge_ok:
  assumes "nibbles nk" "nk \<noteq> []" "wfs d"
  shows "wfs (merge nk d) \<and> pget (merge nk d) = pget (PShort nk d)"
  using assms by (cases d) (auto simp: merge_def term_key_append pget_merge simp del: pget.simps)

lemma pdelete_ok:
  assumes "wf_trie t" "term_key k"
  shows "wf_trie (pdelete t k) \<and> (is_full t \<longrightarrow> wfs (pdelete t k)) \<and> pget (pdelete t k) = (pget t)(k := None)"
  using assms
proof (induction t k rule: pdelete.induct)
  case (3 nk c k)
  have w: "wfs (PShort nk c)" using "3.prems" by (simp add: wf_trie_def)
  note nk = wfs_short_key [OF w]
  show ?case using "3.prems"(2) nk [THEN conjunct2]
  proof (cases rule: key_meets)
    case (whole r)
    show ?thesis
    proof (cases "r = []")
      case True
      then have "is_val c" using whole(1) "3.prems"(2) w term_key_nibbles by auto
      then show ?thesis using True whole by (cases c) (auto simp: wf_trie_def fun_eq_iff)
    next
      case False
      then have "nibbles nk" "term_key r" using whole(1) "3.prems"(2) by (auto simp: term_key_append)
      then have c: "is_full c" "wfs c" using w term_key_nibbles by auto
      have d: "drop (length nk) k = r" using whole by simp
      have e: "pdelete (PShort nk c) k = merge nk (pdelete c r)" using whole False by simp
      have i: "wfs (pdelete c r)" "pget (pdelete c r) = (pget c)(r := None)"
        using "3.IH" [OF refl] whole False c \<open>term_key r\<close> unfolding d by (simp_all add: wf_trie_def fun_upd_def)
      then show ?thesis unfolding e using merge_ok [OF \<open>nibbles nk\<close> _ i(1)] nk whole(1)
        by (auto simp: wf_trie_def fun_eq_iff)
    qed
  next
    case (split p x a y b)
    then have "pdelete (PShort nk c) k = PShort nk c" "pget (PShort nk c) k = None" by simp_all
    then show ?thesis using w by (simp add: wf_trie_def fun_upd_idem del: pdelete.simps pget.simps)
  qed
next
  case (5 cs x k)
  have w: "wfs (PFull cs)" using "5.prems"(1) by (simp add: wf_trie_def)
  then have s: "slots cs" and l: "length cs = 17" by (auto simp: wfs_slots slots_def)
  have x: "unat x < 17" using "5.prems"(2) by (rule term_key_hd)
  let ?c = "pdelete (cs ! unat x) k"
  have c: "?c = PNil \<or> slot_ok x ?c" "pget ?c = (pget (cs ! unat x))(k := None)"
  proof -
    have "(?c = PNil \<or> slot_ok x ?c) \<and> pget ?c = (pget (cs ! unat x))(k := None)"
    proof (cases "k = []")
      case True
      then have "x = 16" using "5.prems"(2) by (simp add: term_key_Cons)
      then show ?thesis using s True by (cases "cs ! 16") (auto simp: slots_def fun_eq_iff)
    next
      case False
      then have "x < 16" "term_key k" using "5.prems"(2) by (auto simp: term_key_Cons)
      moreover then have "wf_trie (cs ! unat x)" using s by (auto simp: slots_def wf_trie_def word_less_nat_alt)
      ultimately have "wf_trie ?c" "pget ?c = (pget (cs ! unat x))(k := None)" using "5.IH" x unfolding l by blast+
      then show ?thesis using \<open>x < 16\<close> unfolding slot_ok_def wf_trie_def by blast
    qed
    then show "?c = PNil \<or> slot_ok x ?c" "pget ?c = (pget (cs ! unat x))(k := None)" by blast+
  qed
  obtain i where i: "i < 17" "i \<noteq> unat x" "cs ! i \<noteq> PNil" using w unfolding wfs_slots by metis
  then have "wfs (reduce (cs[unat x := ?c])) \<and> pget (reduce (cs[unat x := ?c])) = pget (PFull (cs[unat x := ?c]))"
    using reduce_ok [OF slots_update [OF s c(1)], of i] l by simp
  then show ?case using pget_update [OF _ c(2)] l x by (simp add: wf_trie_def)
qed (auto simp: wf_trie_def fun_eq_iff)

section \<open>A trie is determined by its contents\<close>

lemma slot_nonempty:
  assumes "slots cs" "i < 17" "cs ! i \<noteq> PNil"
  shows "\<exists>k. pget (PFull cs) (of_nat i # k) \<noteq> None"
proof -
  have "unat (of_nat i :: u8) = i" using assms(2) by (simp add: unat_of_nat)
  moreover have "\<exists>k. pget (cs ! i) k \<noteq> None"
  proof (cases "i = 16")
    case True
    then show ?thesis using assms by (cases "cs ! i") (auto simp: slots_def)
  next
    case False
    then have "i < 16" using assms(2) by simp
    then have "wfs (cs ! i)" using assms by (auto simp: slots_def)
    then show ?thesis using wfs_nonempty [of "cs ! i"] by auto
  qed
  ultimately show ?thesis using assms by (simp add: slots_def)
qed

lemma full_two_heads:
  assumes "wfs (PFull cs)"
  obtains x y k l where "x \<noteq> y" "pget (PFull cs) (x # k) \<noteq> None" "pget (PFull cs) (y # l) \<noteq> None"
proof -
  obtain i j where ij: "i < 17" "j < 17" "i \<noteq> j" "cs ! i \<noteq> PNil" "cs ! j \<noteq> PNil" and s: "slots cs"
    using assms unfolding wfs_slots by blast
  then have "(of_nat i :: u8) \<noteq> of_nat j" by (simp add: word_unat_eq_iff unat_of_nat)
  then show ?thesis using that slot_nonempty [OF s ij(1,4)] slot_nonempty [OF s ij(2,5)] by blast
qed

lemma short_not_full:
  assumes "wfs (PShort k c)" "wfs (PFull cs)"
  shows "pget (PShort k c) \<noteq> pget (PFull cs)"
proof
  assume e: "pget (PShort k c) = pget (PFull cs)"
  obtain x y u w where "x \<noteq> y" "pget (PFull cs) (x # u) \<noteq> None" "pget (PFull cs) (y # w) \<noteq> None"
    using assms(2) by (rule full_two_heads)
  then have "pget (PShort k c) (x # u) \<noteq> None" "pget (PShort k c) (y # w) \<noteq> None" using e by metis+
  then show False using \<open>x \<noteq> y\<close> wfs_short_key [OF assms(1)] by (cases k) (auto split: if_splits)
qed

lemma pget_short_prefix: "pget (PShort k c) r \<noteq> None \<Longrightarrow> \<exists>q. r = k @ q"
  by (simp split: if_splits)

lemma short_prefix:
  assumes "wfs (PShort k c)" "pget (PShort k c) = pget (PShort k' c')"
  shows "\<exists>r. k = k' @ r"
proof (cases "is_val c")
  case True
  then have "pget (PShort k c) k \<noteq> None" by (cases c) auto
  then have "pget (PShort k' c') k \<noteq> None" unfolding assms(2) .
  then show ?thesis by (auto split: if_splits)
next
  case False
  then obtain cs where c: "c = PFull cs" "wfs c" using assms(1) by (cases c) auto
  obtain x y u w where xy: "x \<noteq> y" "pget c (x # u) \<noteq> None" "pget c (y # w) \<noteq> None"
    using c full_two_heads by metis
  then have "pget (PShort k c) (k @ x # u) \<noteq> None" "pget (PShort k c) (k @ y # w) \<noteq> None" by auto
  then have "pget (PShort k' c') (k @ x # u) \<noteq> None" "pget (PShort k' c') (k @ y # w) \<noteq> None"
    unfolding assms(2) by blast+
  then obtain q q' where "k @ x # u = k' @ q" "k @ y # w = k' @ q'" using pget_short_prefix by blast
  then show ?thesis using xy(1) by (auto simp: append_eq_append_conv2 Cons_eq_append_conv)
qed

lemma short_inject:
  assumes "wfs (PShort k c)" "wfs (PShort k' c')" "pget (PShort k c) = pget (PShort k' c')"
  shows "k = k'" "pget c = pget c'"
proof -
  show k: "k = k'" using short_prefix [OF assms(1,3)] short_prefix [OF assms(2) assms(3) [symmetric]] by auto
  show "pget c = pget c'"
  proof
    fix r
    have "pget (PShort k c) (k @ r) = pget (PShort k' c') (k @ r)" unfolding assms(3) ..
    then show "pget c r = pget c' r" using k by simp
  qed
qed

lemma value_inject: "is_val a \<Longrightarrow> pget a = pget b \<Longrightarrow> b = PNil \<or> is_val b \<Longrightarrow> a = b"
  by (cases a; cases b) (auto simp: fun_eq_iff split: if_splits)

lemma full_child_eq:
  assumes "pget (PFull cs) = pget (PFull cs')" "length cs = 17" "length cs' = 17" "i < 17"
  shows "pget (cs ! i) = pget (cs' ! i)"
proof
  fix r
  have "unat (of_nat i :: u8) = i" using assms(4) by (simp add: unat_of_nat)
  moreover have "pget (PFull cs) (of_nat i # r) = pget (PFull cs') (of_nat i # r)" by (simp only: assms(1))
  ultimately show "pget (cs ! i) r = pget (cs' ! i) r" using assms(2-4) by simp
qed

lemma wfs_not_empty: "wfs a \<Longrightarrow> pget a \<noteq> pget PNil"
  using wfs_nonempty [of a] by auto

lemma slot_inject:
  assumes "a = PNil \<or> wfs a" "b = PNil \<or> wfs b" "pget a = pget b" "wfs a \<Longrightarrow> wfs b \<Longrightarrow> a = b"
  shows "a = b"
  using assms wfs_not_empty [of a] wfs_not_empty [of b] by (cases "a = PNil"; cases "b = PNil") simp_all

lemma wfs_inject: "wfs a \<Longrightarrow> wfs b \<Longrightarrow> pget a = pget b \<Longrightarrow> a = b"
proof (induction a arbitrary: b rule: wfs.induct)
  case (3 k c)
  then obtain k' c' where b: "b = PShort k' c'" using short_not_full [of k c] by (cases b) (simp_all del: pget.simps wfs.simps(3))
  note i = short_inject [OF "3.prems" [unfolded b]]
  show ?case
  proof (cases "is_val c")
    case True
    then have "term_key k" using "3.prems"(1) by (cases c) auto
    then have "is_val c'" using "3.prems"(2) b i(1) term_key_nibbles by auto
    then show ?thesis using b i value_inject [OF True i(2)] by simp
  next
    case False
    then have "nibbles k" "is_full c" "wfs c" using "3.prems"(1) by auto
    moreover then have "wfs c'" using "3.prems"(2) b i(1) term_key_nibbles by auto
    ultimately show ?thesis using "3.IH" i b by blast
  qed
next
  case (4 cs)
  then obtain cs' where b: "b = PFull cs'" using short_not_full [of _ _ cs] by (cases b) (simp_all del: pget.simps wfs.simps(3), metis)
  have s: "slots cs" "slots cs'" using 4(2,3) unfolding b wfs_slots by auto
  then have l: "length cs = 17" "length cs' = 17" by (auto simp: slots_def)
  note e = full_child_eq [OF "4.prems"(3) [unfolded b] l]
  have "cs ! i = cs' ! i" if "i < 17" for i
  proof (cases "i = 16")
    case True
    have "cs ! 16 = PNil \<or> is_val (cs ! 16)" "cs' ! 16 = PNil \<or> is_val (cs' ! 16)" using s by (auto simp: slots_def)
    then show ?thesis using True e [OF that] value_inject by metis
  next
    case False
    then have "i < 16" using that by simp
    moreover then have "cs ! i \<in> set (take 16 cs)" using l by (auto simp: in_set_conv_nth)
    ultimately show ?thesis using s e [OF that] "4.IH" slot_inject [of "cs ! i" "cs' ! i"] unfolding slots_def by blast
  qed
  then show ?case using b l by (simp add: nth_equalityI)
qed auto

theorem pget_inject:
  assumes "wf_trie a" "wf_trie b" "pget a = pget b"
  shows "a = b"
  using assms wfs_inject slot_inject [of a b] unfolding wf_trie_def by blast

end
