(* ===== verification/Trie_Ops.thy ===== *)
theory Trie_Ops
  imports Trie_Spec
begin

text \<open>
  The nodes of \<^verbatim>\<open>trie/node.go\<close> and the operations of \<^verbatim>\<open>trie/trie.go\<close>. The node database is the argument
  \<open>dbnode\<close>, \<^verbatim>\<open>Database.node\<close>: \<open>None\<close> is a panic, \<open>Some None\<close> a nil result. The recursive operations take fuel, one
  unit a call; \<open>None\<close> as a result is a panic or fuel that ran out.
\<close>

section \<open>Hashes as byte strings\<close>

definition BytesToHash :: "bytes \<Rightarrow> hash" where
  "BytesToHash b0 =
     (let b = (if length b0 > 32 then drop (length b0 - 32) b0 else b0)
      in foldl (\<lambda>h x. push_bit 8 h OR ucast x) 0 b)"

definition Hash_Bytes :: "hash \<Rightarrow> bytes" where
  "Hash_Bytes h = map (\<lambda>i. ucast (drop_bit (8 * (31 - i)) h)) [0..<32]"

section \<open>Nodes\<close>

type_synonym u16 = "16 word"

record nodeFlag =
  nfHash :: "bytes option"
  nfGen :: u16
  nfDirty :: bool

datatype node =
    NilNode
  | FullNode "node list" nodeFlag
  | ShortNode bytes node nodeFlag
  | HashNode bytes
  | ValueNode bytes

type_synonym node_source = "hash \<Rightarrow> u16 \<Rightarrow> node option option"

record MissingNodeError =
  mneNodeHash :: hash
  mnePath :: bytes

record Trie =
  tRoot :: node
  tOriginalRoot :: hash
  tCachegen :: u16
  tCachelimit :: u16

definition newFlag :: "u16 \<Rightarrow> nodeFlag" where
  "newFlag cachegen = \<lparr>nfHash = None, nfGen = cachegen, nfDirty = True\<rparr>"

definition resolveHash :: "node_source \<Rightarrow> u16 \<Rightarrow> bytes \<Rightarrow> bytes \<Rightarrow> (MissingNodeError + node) option" where
  "resolveHash dbnode cachegen n prefix =
     (let hash = BytesToHash n
      in case dbnode hash cachegen of
           None \<Rightarrow> None
         | Some (Some node) \<Rightarrow> Some (Inr node)
         | Some None \<Rightarrow> Some (Inl \<lparr>mneNodeHash = hash, mnePath = prefix\<rparr>))"

definition resolve :: "node_source \<Rightarrow> u16 \<Rightarrow> node \<Rightarrow> bytes \<Rightarrow> (MissingNodeError + node) option" where
  "resolve dbnode cachegen n prefix =
     (case n of HashNode h \<Rightarrow> resolveHash dbnode cachegen h prefix | _ \<Rightarrow> Some (Inr n))"

section \<open>Lookup\<close>

text \<open>The results are the value (\<open>None\<close> for nil), the new node, whether a node was resolved, and the error.\<close>

fun tryGet :: "node_source \<Rightarrow> u16 \<Rightarrow> nat \<Rightarrow> node \<Rightarrow> bytes \<Rightarrow> nat \<Rightarrow>
    (bytes option \<times> node \<times> bool \<times> MissingNodeError option) option" where
  "tryGet dbnode cachegen 0 n key pos = None"
| "tryGet dbnode cachegen (Suc fuel) NilNode key pos = Some (None, NilNode, False, None)"
| "tryGet dbnode cachegen (Suc fuel) (ValueNode v) key pos = Some (Some v, ValueNode v, False, None)"
| "tryGet dbnode cachegen (Suc fuel) (ShortNode k c flags) key pos =
     (if length key < pos + length k \<or> k \<noteq> take (length k) (drop pos key)
      then Some (None, ShortNode k c flags, False, None)
      else case tryGet dbnode cachegen fuel c key (pos + length k) of
             None \<Rightarrow> None
           | Some (value, newnode, didResolve, err) \<Rightarrow>
               let n = (if err = None \<and> didResolve then ShortNode k newnode (flags\<lparr>nfGen := cachegen\<rparr>)
                        else ShortNode k c flags)
               in Some (value, n, didResolve, err))"
| "tryGet dbnode cachegen (Suc fuel) (FullNode cs flags) key pos =
     (if pos \<ge> length key \<or> unat (key ! pos) \<ge> length cs then None
      else case tryGet dbnode cachegen fuel (cs ! unat (key ! pos)) key (pos + 1) of
             None \<Rightarrow> None
           | Some (value, newnode, didResolve, err) \<Rightarrow>
               let n = (if err = None \<and> didResolve
                        then FullNode (cs[unat (key ! pos) := newnode]) (flags\<lparr>nfGen := cachegen\<rparr>)
                        else FullNode cs flags)
               in Some (value, n, didResolve, err))"
| "tryGet dbnode cachegen (Suc fuel) (HashNode h) key pos =
     (case resolveHash dbnode cachegen h (take pos key) of
        None \<Rightarrow> None
      | Some (Inl err) \<Rightarrow> Some (None, HashNode h, True, Some err)
      | Some (Inr child) \<Rightarrow>
          (case tryGet dbnode cachegen fuel child key pos of
             None \<Rightarrow> None
           | Some (value, newnode, _, err) \<Rightarrow> Some (value, newnode, True, err)))"

definition Trie_TryGet :: "node_source \<Rightarrow> nat \<Rightarrow> bytes \<Rightarrow> Trie \<Rightarrow> ((bytes option \<times> MissingNodeError option) \<times> Trie) option" where
  "Trie_TryGet dbnode fuel key t =
     (case tryGet dbnode (tCachegen t) fuel (tRoot t) (keybytesToHex key) 0 of
        None \<Rightarrow> None
      | Some (value, newroot, didResolve, err) \<Rightarrow>
          Some ((value, err), if err = None \<and> didResolve then t\<lparr>tRoot := newroot\<rparr> else t))"

section \<open>Insertion\<close>

fun insert_node :: "node_source \<Rightarrow> u16 \<Rightarrow> nat \<Rightarrow> node \<Rightarrow> bytes \<Rightarrow> bytes \<Rightarrow> node \<Rightarrow>
    (bool \<times> node \<times> MissingNodeError option) option" where
  "insert_node dbnode cachegen 0 n prefix key val = None"
| "insert_node dbnode cachegen (Suc fuel) n prefix key val =
     (if length key = 0 then
        (case n of
           ValueNode v \<Rightarrow> (case val of ValueNode v' \<Rightarrow> Some (v \<noteq> v', val, None) | _ \<Rightarrow> None)
         | _ \<Rightarrow> Some (True, val, None))
      else
        case n of
          ShortNode k c flags \<Rightarrow>
            let matchlen = prefixLen key k
            in if matchlen = length k then
                 (case insert_node dbnode cachegen fuel c (prefix @ take matchlen key) (drop matchlen key) val of
                    None \<Rightarrow> None
                  | Some (dirty, nn, err) \<Rightarrow>
                      if \<not> dirty \<or> err \<noteq> None then Some (False, n, err)
                      else Some (True, ShortNode k nn (newFlag cachegen), None))
               else
                 if unat (k ! matchlen) \<ge> 17 then None
                 else
                   (case insert_node dbnode cachegen fuel NilNode (prefix @ take (matchlen + 1) k) (drop (matchlen + 1) k) c of
                      None \<Rightarrow> None
                    | Some (_, a, err) \<Rightarrow>
                        if err \<noteq> None then Some (False, NilNode, err)
                        else if matchlen \<ge> length key \<or> unat (key ! matchlen) \<ge> 17 then None
                        else
                          (case insert_node dbnode cachegen fuel NilNode (prefix @ take (matchlen + 1) key)
                                  (drop (matchlen + 1) key) val of
                             None \<Rightarrow> None
                           | Some (_, b, err) \<Rightarrow>
                               if err \<noteq> None then Some (False, NilNode, err)
                               else
                                 let branch = FullNode ((replicate 17 NilNode)[unat (k ! matchlen) := a,
                                                          unat (key ! matchlen) := b]) (newFlag cachegen)
                                 in if matchlen = 0 then Some (True, branch, None)
                                    else Some (True, ShortNode (take matchlen key) branch (newFlag cachegen), None)))
        | FullNode cs flags \<Rightarrow>
            if unat (key ! 0) \<ge> length cs then None
            else
              (case insert_node dbnode cachegen fuel (cs ! unat (key ! 0)) (prefix @ [key ! 0]) (drop 1 key) val of
                 None \<Rightarrow> None
               | Some (dirty, nn, err) \<Rightarrow>
                   if \<not> dirty \<or> err \<noteq> None then Some (False, n, err)
                   else Some (True, FullNode (cs[unat (key ! 0) := nn]) (newFlag cachegen), None))
        | NilNode \<Rightarrow> Some (True, ShortNode key val (newFlag cachegen), None)
        | HashNode h \<Rightarrow>
            (case resolveHash dbnode cachegen h prefix of
               None \<Rightarrow> None
             | Some (Inl err) \<Rightarrow> Some (False, NilNode, Some err)
             | Some (Inr rn) \<Rightarrow>
                 (case insert_node dbnode cachegen fuel rn prefix key val of
                    None \<Rightarrow> None
                  | Some (dirty, nn, err) \<Rightarrow>
                      if \<not> dirty \<or> err \<noteq> None then Some (False, rn, err) else Some (True, nn, None)))
        | ValueNode v \<Rightarrow> None)"

section \<open>Deletion\<close>

text \<open>The position of the only child left, \<open>-2\<close> for several, \<open>-1\<close> for none.\<close>

fun single_pos :: "node list \<Rightarrow> int \<Rightarrow> int \<Rightarrow> int" where
  "single_pos [] i pos = pos"
| "single_pos (cld # cs) i pos =
     (if cld \<noteq> NilNode then if pos = -1 then single_pos cs (i + 1) i else -2
      else single_pos cs (i + 1) pos)"

text \<open>The last part of the full node case: a node with one child left becomes a short node.\<close>

definition reduce_children :: "node_source \<Rightarrow> u16 \<Rightarrow> bytes \<Rightarrow> node list \<Rightarrow>
    (bool \<times> node \<times> MissingNodeError option) option" where
  "reduce_children dbnode cachegen prefix cs =
     (let pos = single_pos cs 0 (-1)
      in if pos \<ge> 0 then
           let p = nat pos
           in if pos \<noteq> 16 then
                (case resolve dbnode cachegen (cs ! p) prefix of
                   None \<Rightarrow> None
                 | Some (Inl err) \<Rightarrow> Some (False, NilNode, Some err)
                 | Some (Inr (ShortNode k' c' _)) \<Rightarrow>
                     Some (True, ShortNode (of_nat p # k') c' (newFlag cachegen), None)
                 | Some (Inr _) \<Rightarrow> Some (True, ShortNode [of_nat p] (cs ! p) (newFlag cachegen), None))
              else Some (True, ShortNode [of_nat p] (cs ! p) (newFlag cachegen), None)
         else Some (True, FullNode cs (newFlag cachegen), None))"

fun delete_node :: "node_source \<Rightarrow> u16 \<Rightarrow> nat \<Rightarrow> node \<Rightarrow> bytes \<Rightarrow> bytes \<Rightarrow>
    (bool \<times> node \<times> MissingNodeError option) option" where
  "delete_node dbnode cachegen 0 n prefix key = None"
| "delete_node dbnode cachegen (Suc fuel) n prefix key =
     (case n of
        ShortNode k c flags \<Rightarrow>
          let matchlen = prefixLen key k
          in if matchlen < length k then Some (False, n, None)
             else if matchlen = length key then Some (True, NilNode, None)
             else
               (case delete_node dbnode cachegen fuel c (prefix @ take (length k) key) (drop (length k) key) of
                  None \<Rightarrow> None
                | Some (dirty, child, err) \<Rightarrow>
                    if \<not> dirty \<or> err \<noteq> None then Some (False, n, err)
                    else
                      (case child of
                         ShortNode k' c' _ \<Rightarrow> Some (True, ShortNode (k @ k') c' (newFlag cachegen), None)
                       | _ \<Rightarrow> Some (True, ShortNode k child (newFlag cachegen), None)))
      | FullNode cs flags \<Rightarrow>
          if length key = 0 \<or> unat (key ! 0) \<ge> length cs then None
          else
            (case delete_node dbnode cachegen fuel (cs ! unat (key ! 0)) (prefix @ [key ! 0]) (drop 1 key) of
               None \<Rightarrow> None
             | Some (dirty, nn, err) \<Rightarrow>
                 if \<not> dirty \<or> err \<noteq> None then Some (False, n, err)
                 else
                   reduce_children dbnode cachegen prefix (cs[unat (key ! 0) := nn]))
      | ValueNode v \<Rightarrow> Some (True, NilNode, None)
      | NilNode \<Rightarrow> Some (False, NilNode, None)
      | HashNode h \<Rightarrow>
          (case resolveHash dbnode cachegen h prefix of
             None \<Rightarrow> None
           | Some (Inl err) \<Rightarrow> Some (False, NilNode, Some err)
           | Some (Inr rn) \<Rightarrow>
               (case delete_node dbnode cachegen fuel rn prefix key of
                  None \<Rightarrow> None
                | Some (dirty, nn, err) \<Rightarrow>
                    if \<not> dirty \<or> err \<noteq> None then Some (False, rn, err) else Some (True, nn, None))))"

definition Trie_TryDelete :: "node_source \<Rightarrow> nat \<Rightarrow> bytes \<Rightarrow> Trie \<Rightarrow> (MissingNodeError option \<times> Trie) option" where
  "Trie_TryDelete dbnode fuel key t =
     (case delete_node dbnode (tCachegen t) fuel (tRoot t) [] (keybytesToHex key) of
        None \<Rightarrow> None
      | Some (_, n, Some err) \<Rightarrow> Some (Some err, t)
      | Some (_, n, None) \<Rightarrow> Some (None, t\<lparr>tRoot := n\<rparr>))"

definition Trie_TryUpdate :: "node_source \<Rightarrow> nat \<Rightarrow> bytes \<Rightarrow> bytes \<Rightarrow> Trie \<Rightarrow> (MissingNodeError option \<times> Trie) option" where
  "Trie_TryUpdate dbnode fuel key value t =
     (let k = keybytesToHex key
      in case (if length value \<noteq> 0
               then insert_node dbnode (tCachegen t) fuel (tRoot t) [] k (ValueNode value)
               else delete_node dbnode (tCachegen t) fuel (tRoot t) [] k) of
           None \<Rightarrow> None
         | Some (_, n, Some err) \<Rightarrow> Some (Some err, t)
         | Some (_, n, None) \<Rightarrow> Some (None, t\<lparr>tRoot := n\<rparr>))"

text \<open>\<^verbatim>\<open>Get\<close>, \<^verbatim>\<open>Update\<close> and \<^verbatim>\<open>Delete\<close> log the error and drop it.\<close>

definition Trie_Get :: "node_source \<Rightarrow> nat \<Rightarrow> bytes \<Rightarrow> Trie \<Rightarrow> (bytes option \<times> Trie) option" where
  "Trie_Get dbnode fuel key t = map_option (\<lambda>((res, _), t'). (res, t')) (Trie_TryGet dbnode fuel key t)"

definition Trie_Update :: "node_source \<Rightarrow> nat \<Rightarrow> bytes \<Rightarrow> bytes \<Rightarrow> Trie \<Rightarrow> Trie option" where
  "Trie_Update dbnode fuel key value t = map_option snd (Trie_TryUpdate dbnode fuel key value t)"

definition Trie_Delete :: "node_source \<Rightarrow> nat \<Rightarrow> bytes \<Rightarrow> Trie \<Rightarrow> Trie option" where
  "Trie_Delete dbnode fuel key t = map_option snd (Trie_TryDelete dbnode fuel key t)"

definition emptyRoot :: hash where
  "emptyRoot = 0x56e81f171bcc55a6ff8345e692c0f86e5b48e01b996cadc001622fb5e363b421"

definition Trie_New :: "hash \<Rightarrow> node_source \<Rightarrow> (MissingNodeError + Trie) option" where
  "Trie_New root dbnode =
     (let trie = \<lparr>tRoot = NilNode, tOriginalRoot = root, tCachegen = 0, tCachelimit = 0\<rparr>
      in if root \<noteq> 0 \<and> root \<noteq> emptyRoot then
           (case resolveHash dbnode 0 (Hash_Bytes root) [] of
              None \<Rightarrow> None
            | Some (Inl err) \<Rightarrow> Some (Inl err)
            | Some (Inr rootnode) \<Rightarrow> Some (Inr (trie\<lparr>tRoot := rootnode\<rparr>)))
         else Some (Inr trie))"

definition SetCacheLimit :: "u16 \<Rightarrow> Trie \<Rightarrow> Trie" where
  "SetCacheLimit l t = t\<lparr>tCachelimit := l\<rparr>"

end
