(* ===== verification/Trie_Refine.thy ===== *)
theory Trie_Refine
  imports Trie_Ops
begin

text \<open>
  The operations of \<^verbatim>\<open>trie/trie.go\<close>, working on partly loaded tries with caching flags, against the loaded trie
  (\<open>expands\<close>) and against the key/value map it stores.
\<close>

fun is_inner :: "node \<Rightarrow> bool" where
  "is_inner (ShortNode k c f) = True"
| "is_inner (FullNode cs f) = True"
| "is_inner _ = False"

fun is_hash :: "node \<Rightarrow> bool" where
  "is_hash (HashNode h) = True"
| "is_hash _ = False"

lemma is_inner_not_hash: "is_inner n \<Longrightarrow> \<not> is_hash n"
  by (cases n) auto

section \<open>Keys that fit a trie\<close>

definition fits :: "ptrie \<Rightarrow> bytes \<Rightarrow> bool" where
  "fits t k = (wf_trie t \<and> term_key k \<or> (t = PNil \<or> is_val t) \<and> k = [])"

lemma fits_short: "fits (PShort nk c) (nk @ r) \<Longrightarrow> nk \<noteq> [] \<and> fits c r"
  by (auto simp: fits_def wf_trie_def term_key_append split: if_splits dest: term_key_nibbles)

lemma fits_full:
  assumes "fits (PFull cs) k"
  obtains x r where "k = x # r" "unat x < 17" "length cs = 17" "fits (cs ! unat x) r"
proof -
  have w: "wfs (PFull cs)" "term_key k" using assms by (auto simp: fits_def wf_trie_def)
  then obtain x r where k: "k = x # r" by (cases k) auto
  have s: "slots cs" using w(1) by (simp add: wfs_slots)
  have "fits (cs ! unat x) r"
  proof (cases "r = []")
    case True
    then have "x = 16" using w(2) k by (simp add: term_key_Cons)
    then show ?thesis using True s by (auto simp: fits_def slots_def)
  next
    case False
    then have "x < 16" "term_key r" using w(2) k by (auto simp: term_key_Cons)
    then show ?thesis using s by (auto simp: fits_def slots_def wf_trie_def word_less_nat_alt)
  qed
  then show ?thesis using that k w(2) s term_key_hd [of x r] by (simp add: slots_def)
qed

abbreviation enough :: "nat \<Rightarrow> node \<Rightarrow> nat \<Rightarrow> bool" where
  "enough fuel n len \<equiv> 2 * len + of_bool (is_hash n) < fuel"

lemma drop_split:
  assumes "drop pos key = k @ r" "pos \<le> length key"
  shows "length key = pos + length k + length r \<and> drop (pos + length k) key = r"
proof -
  obtain p where "key = p @ k @ r" "length p = pos"
    using append_take_drop_id [of pos key] assms by (metis length_take min.absorb2)
  then show ?thesis by auto
qed

section \<open>Insertion and deletion of nodes\<close>

lemma insert_nil:
  "insert_node dbnode g (Suc fuel) NilNode p k v = Some (True, if k = [] then v else ShortNode k v (newFlag g), None)"
  by simp

declare insert_node.simps(2) [simp del] delete_node.simps(2) [simp del]

lemma single_pos_found: "pos \<ge> 0 \<Longrightarrow> single_pos cs i pos = (if \<forall>c \<in> set cs. c = NilNode then pos else -2)"
  by (induction cs arbitrary: i) auto

lemma filter_upt_Suc:
  "filter P [0..<Suc n] = (if P 0 then [0] else []) @ map Suc (filter (\<lambda>i. P (Suc i)) [0..<n])"
  by (simp add: upt_conv_Cons filter_map comp_def flip: map_Suc_upt del: upt_Suc)

lemma single_pos_filter:
  "i \<ge> 0 \<Longrightarrow> single_pos cs i (-1) =
     (case filter (\<lambda>j. cs ! j \<noteq> NilNode) [0..<length cs] of [] \<Rightarrow> -1 | [j] \<Rightarrow> i + int j | _ \<Rightarrow> -2)"
proof (induction cs arbitrary: i)
  case (Cons c cs)
  let ?f = "filter (\<lambda>j. cs ! j \<noteq> NilNode) [0..<length cs]"
  have f: "filter (\<lambda>j. (c # cs) ! j \<noteq> NilNode) [0..<length (c # cs)] = (if c \<noteq> NilNode then [0] else []) @ map Suc ?f"
    by (simp add: filter_upt_Suc del: upt_Suc)
  show ?case
  proof (cases "c = NilNode")
    case True
    then show ?thesis unfolding f using Cons.IH [of "i + 1"] Cons.prems by (auto split: list.splits)
  next
    case False
    have "(\<forall>c \<in> set cs. c = NilNode) \<longleftrightarrow> ?f = []" by (auto simp: filter_empty_conv all_set_conv_all_nth)
    then show ?thesis unfolding f using False Cons.prems by (auto simp: single_pos_found split: list.splits)
  qed
qed simp

lemma reduce_full:
  assumes "wfs (PFull cs)"
  shows "reduce cs = PFull cs"
proof (cases "single_child cs")
  case (Some p)
  obtain i j where "i < 17" "j < 17" "i \<noteq> j" "cs ! i \<noteq> PNil" "cs ! j \<noteq> PNil" "length cs = 17"
    using assms by (auto simp: wfs_PFull)
  then show ?thesis using single_child_Some(3) [OF Some, of i] single_child_Some(3) [OF Some, of j] by auto
qed (simp add: reduce_def)

section \<open>Nodes and the tries they stand for\<close>

text \<open>
  A relation between nodes and tries that the operations keep: \<open>b\<close> says whether the node is the root. New nodes stand
  for what their children stand for, a hash node for what the node source has for it.
\<close>

locale node_relation =
  fixes src :: node_source
    and R :: "bool \<Rightarrow> node \<Rightarrow> ptrie \<Rightarrow> bool"
  assumes nilE: "R b NilNode t \<longleftrightarrow> t = PNil"
    and not_nil: "R b n PNil \<longleftrightarrow> n = NilNode"
    and valueE: "R b (ValueNode v) t \<longleftrightarrow> t = PVal v"
    and shortE: "R b (ShortNode k c f) t \<Longrightarrow> \<exists>t'. t = PShort k t' \<and> R False c t'"
    and short_new: "R False c t \<Longrightarrow> R b (ShortNode k c (newFlag g)) (PShort k t)"
    and short_gen: "R b (ShortNode k c f) (PShort k t) \<Longrightarrow> R False c' t \<Longrightarrow>
      R b (ShortNode k c' (f\<lparr>nfGen := g\<rparr>)) (PShort k t)"
    and fullE: "R b (FullNode cs f) t \<Longrightarrow>
      \<exists>ts. t = PFull ts \<and> length cs = length ts \<and> (\<forall>i < length cs. R False (cs ! i) (ts ! i))"
    and full_new: "length cs = length ts \<Longrightarrow> \<forall>i < length cs. R False (cs ! i) (ts ! i) \<Longrightarrow>
      R b (FullNode cs (newFlag g)) (PFull ts)"
    and full_gen: "R b (FullNode cs f) (PFull ts) \<Longrightarrow> R False c' (ts ! i) \<Longrightarrow>
      R b (FullNode (cs[i := c']) (f\<lparr>nfGen := g\<rparr>)) (PFull ts)"
    and hashE: "R b (HashNode h) t \<Longrightarrow> \<exists>n. resolveHash src g h p = Some (Inr n) \<and> is_inner n \<and> R b n t"
begin

lemmas R_simps = nilE not_nil valueE

lemmas R_intros = short_new full_new

lemma tryGet_R:
  "R b n t \<Longrightarrow> fits t (drop pos key) \<Longrightarrow> pos \<le> length key \<Longrightarrow> enough fuel n (length key - pos) \<Longrightarrow>
   \<exists>n' d. tryGet src g fuel n key pos = Some (pget t (drop pos key), n', d, None) \<and> R b n' t"
proof (induction fuel arbitrary: b n t pos)
  case (Suc fuel)
  note ih = Suc.IH
  show ?case
  proof (cases n)
    case NilNode
    then show ?thesis using Suc.prems by (auto simp: R_simps)
  next
    case (ValueNode v)
    then have "drop pos key = []" using Suc.prems by (auto simp: fits_def wf_trie_def R_simps)
    then show ?thesis using ValueNode Suc.prems(1) by (auto simp: R_simps)
  next
    case (ShortNode k c f)
    then obtain t' where t: "t = PShort k t'" "R False c t'" using Suc.prems(1) by (auto dest: shortE)
    have m: "length key < pos + length k \<or> k \<noteq> take (length k) (drop pos key) \<longleftrightarrow> take (length k) (drop pos key) \<noteq> k"
      using Suc.prems(3) by (auto simp del: take_self_append dest: arg_cong [of _ _ length])
    show ?thesis
    proof (cases "take (length k) (drop pos key) = k")
      case False
      then show ?thesis using m ShortNode Suc.prems(1) t by (simp del: take_self_append) blast
    next
      case True
      then obtain r where r: "drop pos key = k @ r" by auto
      then have l: "length key = pos + length k + length r" "drop (pos + length k) key = r"
        using drop_split [OF r Suc.prems(3)] by blast+
      have "k \<noteq> []" "fits t' r" using fits_short Suc.prems(2) r t by auto
      then have "enough fuel c (length r)" using Suc.prems(4) l ShortNode by (cases k) auto
      then obtain n' d where "tryGet src g fuel c key (pos + length k) = Some (pget t' r, n', d, None)" "R False n' t'"
        using ih [OF t(2), of "pos + length k"] l \<open>fits t' r\<close> by auto
      then show ?thesis using m True ShortNode t r Suc.prems(1) by (cases d) (auto simp: Let_def intro: short_gen)
    qed
  next
    case (FullNode cs f)
    then obtain ts where t: "t = PFull ts" "length cs = length ts" "\<forall>i < length cs. R False (cs ! i) (ts ! i)"
      using Suc.prems(1) by (auto dest: fullE)
    obtain x r where x: "drop pos key = x # r" "unat x < 17" "length ts = 17" "fits (ts ! unat x) r"
      using Suc.prems(2) t(1) fits_full by blast
    then have l: "pos < length key" "key ! pos = x" "drop (pos + 1) key = r" "length key - (pos + 1) = length r"
      using drop_split [of pos key "[x]" r] Suc.prems(3) nth_via_drop [OF x(1)] by auto
    then have e: "enough fuel (cs ! unat x) (length r)" using Suc.prems(4) FullNode x(1) by (auto dest: arg_cong [of _ _ length])
    then obtain n' d where "tryGet src g fuel (cs ! unat x) key (pos + 1) = Some (pget (ts ! unat x) r, n', d, None)"
        "R False n' (ts ! unat x)"
      using ih [of False "cs ! unat x" "ts ! unat x" "pos + 1"] t x l by auto
    then show ?thesis using FullNode t x l Suc.prems(1)
      by (cases d) (auto simp: Let_def intro: full_gen)
  next
    case (HashNode h)
    then obtain n1 where n1: "resolveHash src g h (take pos key) = Some (Inr n1)" "is_inner n1" "R b n1 t"
      using Suc.prems(1) hashE by blast
    have "enough fuel n1 (length key - pos)" using Suc.prems(4) HashNode is_inner_not_hash [OF n1(2)] by simp
    then show ?thesis using ih [OF n1(3) Suc.prems(2,3)] n1 HashNode by fastforce
  qed
qed simp

lemma R_leaf: "R False v t \<Longrightarrow> R False (if k = [] then v else ShortNode k v (newFlag g)) (leaf k t)"
  by (auto simp: leaf_def intro: short_new)

lemma R_fork:
  assumes "R False a t" "R False c u"
  shows "R b (FullNode ((replicate 17 NilNode)[unat x := a, unat y := c]) (newFlag g)) (fork x t y u)"
  unfolding fork_def using assms
  by (cases "unat x < 17"; cases "unat y < 17") (auto simp: nth_list_update nilE intro!: full_new)

lemma R_shorten:
  "\<forall>b. R b c t \<Longrightarrow> R b (if k = [] then c else ShortNode k c (newFlag g)) (shorten k t)"
  by (auto simp: shorten_def intro: short_new)

lemma R_update:
  assumes "length cs = length ts" "\<forall>i < length cs. R False (cs ! i) (ts ! i)" "R False n t"
  shows "R b (FullNode (cs[i := n]) (newFlag g)) (PFull (ts[i := t]))"
  using assms by (cases "i < length cs") (auto simp: nth_list_update intro!: full_new)

lemma insert_R:
  assumes "v \<noteq> []"
  shows "R b n t \<Longrightarrow> fits t key \<Longrightarrow> enough fuel n (length key) \<Longrightarrow>
   \<exists>n' d. insert_node src g fuel n p key (ValueNode v) = Some (d, n', None) \<and>
     R b n' (pinsert t key (PVal v)) \<and> (\<not> d \<longrightarrow> pinsert t key (PVal v) = t)"
proof (induction fuel arbitrary: b n t p key)
  case (Suc fuel)
  note ih = Suc.IH
  show ?case
  proof (cases "key = []")
    case True
    then show ?thesis using Suc.prems
      by (cases n) (auto simp: insert_node.simps(2) fits_def R_simps dest: shortE fullE dest!: hashE)
  next
    case False
    then have wf: "wf_trie t" "term_key key" using Suc.prems(2) by (auto simp: fits_def)
    show ?thesis
    proof (cases n)
      case NilNode
      then have "t = PNil" using Suc.prems(1) by (simp add: nilE)
      then show ?thesis using NilNode False by (cases key) (auto simp: insert_node.simps(2) valueE short_new)
    next
      case (ValueNode w)
      then show ?thesis using Suc.prems(1) wf(1) by (auto simp: wf_trie_def valueE)
    next
      case (ShortNode k c f)
      then obtain t' where t: "t = PShort k t'" "R False c t'" using Suc.prems(1) by (auto dest: shortE)
      have nk: "k \<noteq> []" "term_key k \<or> nibbles k" using wfs_short_key [of k t'] wf(1) t(1) by (auto simp: wf_trie_def)
      from wf(2) nk(2) show ?thesis
      proof (cases rule: key_meets)
        case (whole r)
        have "fits t' r" using fits_short Suc.prems(2) whole(1) t(1) by blast
        moreover have "enough fuel c (length r)" using Suc.prems(3) whole(1) nk(1) ShortNode by (cases k) auto
        ultimately obtain n' d where "insert_node src g fuel c (p @ k) r (ValueNode v) = Some (d, n', None)"
            "R False n' (pinsert t' r (PVal v))" "\<not> d \<longrightarrow> pinsert t' r (PVal v) = t'"
          using ih [OF t(2), of r "p @ k"] by blast
        then show ?thesis using ShortNode t whole False Suc.prems(1) pinsert_whole [OF whole False, of t' "PVal v"]
          by (cases d) (auto simp: insert_node.simps(2) intro: short_new)
      next
        case (split q x a y z)
        have "fuel \<noteq> 0" using Suc.prems(3) split(1) by auto
        then obtain f' where f': "fuel = Suc f'" by (cases fuel) auto
        have w: "wfs (PShort (q @ y # z) t')" using wf(1) t(1) split(2) by (simp add: wf_trie_def)
        have xy: "unat y < 17" "unat x < 17"
          using slot_ok_lt [OF wfs_suffix [OF w]] slot_ok_lt [OF wfs_suffix, OF wfs_leaf [OF wf(2) assms, unfolded split(1)]] .
        have "insert_node src g (Suc fuel) n p key (ValueNode v) =
            Some (True, if q = [] then FullNode ((replicate 17 NilNode)[unat y := if z = [] then c else ShortNode z c (newFlag g),
                unat x := if a = [] then ValueNode v else ShortNode a (ValueNode v) (newFlag g)]) (newFlag g)
              else ShortNode q (FullNode ((replicate 17 NilNode)[unat y := if z = [] then c else ShortNode z c (newFlag g),
                unat x := if a = [] then ValueNode v else ShortNode a (ValueNode v) (newFlag g)]) (newFlag g)) (newFlag g), None)"
          unfolding insert_node.simps(2) [of _ _ _ n] using ShortNode split xy f' by (simp add: nth_append insert_nil)
        moreover have "\<forall>b. R b (FullNode ((replicate 17 NilNode)[unat y := if z = [] then c else ShortNode z c (newFlag g),
                unat x := if a = [] then ValueNode v else ShortNode a (ValueNode v) (newFlag g)]) (newFlag g))
            (fork y (leaf z t') x (leaf a (PVal v)))"
          using t(2) by (intro allI R_fork R_leaf) (simp_all add: valueE)
        ultimately show ?thesis using pinsert_split [OF split, of t' "PVal v"] t(1) R_shorten [of _ _ b q g] by (auto split: if_splits)
      qed
    next
      case (FullNode cs f)
      then obtain ts where t: "t = PFull ts" "length cs = length ts" "\<forall>i < length cs. R False (cs ! i) (ts ! i)"
        using Suc.prems(1) by (auto dest: fullE)
      obtain x r where x: "key = x # r" "unat x < 17" "length ts = 17" "fits (ts ! unat x) r"
        using Suc.prems(2) t(1) fits_full by blast
      have "enough fuel (cs ! unat x) (length r)" using Suc.prems(3) FullNode x(1) by auto
      then obtain n' d where "insert_node src g fuel (cs ! unat x) (p @ [x]) r (ValueNode v) = Some (d, n', None)"
          "R False n' (pinsert (ts ! unat x) r (PVal v))" "\<not> d \<longrightarrow> pinsert (ts ! unat x) r (PVal v) = ts ! unat x"
        using ih [of False "cs ! unat x" "ts ! unat x" r "p @ [x]"] t x by auto
      then show ?thesis using FullNode t x Suc.prems(1) R_update [OF t(2,3)]
        by (cases d) (auto simp: insert_node.simps(2))
    next
      case (HashNode h)
      then obtain n1 where n1: "resolveHash src g h p = Some (Inr n1)" "is_inner n1" "R b n1 t"
        using Suc.prems(1) hashE by blast
      have "enough fuel n1 (length key)" using Suc.prems(3) HashNode is_inner_not_hash [OF n1(2)] by simp
      then obtain n' d where "insert_node src g fuel n1 p key (ValueNode v) = Some (d, n', None)"
          "R b n' (pinsert t key (PVal v))" "\<not> d \<longrightarrow> pinsert t key (PVal v) = t"
        using ih [OF n1(3) Suc.prems(2)] by blast
      then show ?thesis using n1 HashNode False by (cases d) (auto simp: insert_node.simps(2))
    qed
  qed
qed simp

lemma single_pos_child:
  assumes "length cs = length ts" "\<forall>i < length cs. R False (cs ! i) (ts ! i)"
  shows "single_child ts = (if single_pos cs 0 (-1) \<ge> 0 then Some (nat (single_pos cs 0 (-1))) else None)"
proof -
  have "filter (\<lambda>j. cs ! j \<noteq> NilNode) [0..<length cs] = filter (\<lambda>j. ts ! j \<noteq> PNil) [0..<length ts]"
    using assms not_nil nilE by (auto intro!: filter_cong)
  then show ?thesis unfolding single_child_def single_pos_filter [OF order_refl, of cs]
    by (auto split: list.splits)
qed

lemma resolve_R:
  assumes "R b n t"
  obtains n' where "resolve src g n p = Some (Inr n')" "R b n' t" "\<not> is_hash n'"
proof (cases "is_hash n")
  case True
  then obtain h where "n = HashNode h" by (cases n) auto
  then show ?thesis using that hashE [of b h t g p] assms is_inner_not_hash by (auto simp: resolve_def)
next
  case False
  then show ?thesis using that [of n] assms by (cases n) (auto simp: resolve_def)
qed

lemma reduce_R:
  assumes cs: "length cs = length ts" "\<forall>i < length cs. R False (cs ! i) (ts ! i)" and l: "length ts = 17"
  shows "\<exists>n'. reduce_children src g prefix cs = Some (True, n', None) \<and> R b n' (reduce ts) \<and> \<not> is_hash n'"
proof -
  define pos where pos: "pos = single_pos cs 0 (-1)"
  note d = reduce_children_def [of src g prefix cs, unfolded Let_def, folded pos]
  show ?thesis
  proof (cases "pos \<ge> 0")
  case False
  then have "single_child ts = None" using single_pos_child [OF cs] pos by simp
  then show ?thesis using False cs by (auto simp: d reduce_def intro!: full_new)
next
  case True
  define p where "p = nat pos"
  have s: "single_child ts = Some p" using True single_pos_child [OF cs] pos p_def by simp
  then have e: "R False (cs ! p) (ts ! p)" using cs single_child_Some(1) [OF s] by simp
  obtain n' where n': "resolve src g (cs ! p) prefix = Some (Inr n')" "R False n' (ts ! p)" "\<not> is_hash n'"
    using resolve_R [OF e] .
  have p16: "pos = 16 \<longleftrightarrow> p = 16" using True p_def by auto
  show ?thesis
  proof (cases n')
    case (ShortNode k' c' f)
    then obtain t' where "ts ! p = PShort k' t'" "R False c' t'" using n'(2) by (auto dest: shortE)
    then show ?thesis using True n' ShortNode s e p16 by (auto simp: d p_def reduce_def intro!: short_new)
  next
    case (FullNode cs' f)
    then obtain ts' where "ts ! p = PFull ts'" using n'(2) by (auto dest: fullE)
    then show ?thesis using True n' FullNode s e p16 by (auto simp: d p_def reduce_def intro!: short_new)
  next
    case (ValueNode v)
    then have "ts ! p = PVal v" using n'(2) by (simp add: valueE)
    then show ?thesis using True n' ValueNode s e p16 by (auto simp: d p_def reduce_def intro!: short_new)
  next
    case NilNode
    then show ?thesis using n'(2) single_child_Some(2) [OF s] by (simp add: nilE)
  qed (use n'(3) in simp)
qed
qed

lemma merge_R:
  assumes "R False n t" "\<not> is_hash n"
  shows "R b (case n of ShortNode k' c' _ \<Rightarrow> ShortNode (k @ k') c' (newFlag g) | _ \<Rightarrow> ShortNode k n (newFlag g)) (merge k t)"
  using assms by (cases n) (auto simp: merge_def R_simps dest!: shortE dest: fullE intro!: short_new split: ptrie.splits)

lemma delete_R:
  "R b n t \<Longrightarrow> fits t key \<Longrightarrow> enough fuel n (length key) \<Longrightarrow>
   \<exists>n' d. delete_node src g fuel n p key = Some (d, n', None) \<and>
     R b n' (pdelete t key) \<and> (if d then \<not> is_hash n' else pdelete t key = t)"
proof (induction fuel arbitrary: b n t p key)
  case (Suc fuel)
  note ih = Suc.IH
  show ?case
  proof (cases n)
    case NilNode
    then have "t = PNil" using Suc.prems(1) by (simp add: nilE)
    then show ?thesis using NilNode by (auto simp: delete_node.simps(2) nilE)
  next
    case (ValueNode w)
    then have "t = PVal w" using Suc.prems(1) by (simp add: valueE)
    then show ?thesis using ValueNode by (auto simp: delete_node.simps(2) nilE)
  next
    case (ShortNode k c f)
    then obtain t' where t: "t = PShort k t'" "R False c t'" using Suc.prems(1) by (auto dest: shortE)
    then have wf: "wf_trie t" "term_key key" using Suc.prems(2) by (auto simp: fits_def)
    have nk: "k \<noteq> []" "term_key k \<or> nibbles k" using wfs_short_key [of k t'] wf(1) t(1) by (auto simp: wf_trie_def)
    from wf(2) nk(2) show ?thesis
    proof (cases rule: key_meets)
      case (whole r)
      show ?thesis
      proof (cases "r = []")
        case True
        then show ?thesis using ShortNode t whole by (auto simp: delete_node.simps(2) nilE)
      next
        case False
        have "fits t' r" using fits_short Suc.prems(2) whole(1) t(1) by blast
        moreover have "enough fuel c (length r)" using Suc.prems(3) whole(1) nk(1) ShortNode by (cases k) auto
        ultimately obtain n' d where d: "delete_node src g fuel c (p @ k) r = Some (d, n', None)"
            "R False n' (pdelete t' r)" "if d then \<not> is_hash n' else pdelete t' r = t'"
          using ih [OF t(2), of r "p @ k"] by blast
        have e: "pdelete t key = merge k (pdelete t' r)" using t(1) whole False by simp
        show ?thesis
        proof (cases d)
          case True
          then show ?thesis unfolding e using ShortNode whole False d merge_R [OF d(2), of b k g]
            by (cases n') (auto simp: delete_node.simps(2))
        next
          case d': False
          have "wfs t" "\<not> (\<exists>k c. t' = PShort k c)"
            using wf(1) t(1) by (auto simp: wf_trie_def)
          then have "merge k t' = t" using t(1) by (cases t') (auto simp: merge_def)
          then show ?thesis unfolding e using ShortNode whole False d d' Suc.prems(1)
            by (auto simp: delete_node.simps(2))
        qed
      qed
    next
      case (split q x a y z)
      then show ?thesis using ShortNode t Suc.prems(1) by (auto simp: delete_node.simps(2))
    qed
  next
    case (FullNode cs f)
    then obtain ts where t: "t = PFull ts" "length cs = length ts" "\<forall>i < length cs. R False (cs ! i) (ts ! i)"
      using Suc.prems(1) by (auto dest: fullE)
    obtain x r where x: "key = x # r" "unat x < 17" "length ts = 17" "fits (ts ! unat x) r"
      using Suc.prems(2) t(1) fits_full by blast
    have w: "wfs (PFull ts)" using Suc.prems(2) t(1) by (auto simp: fits_def wf_trie_def)
    have "enough fuel (cs ! unat x) (length r)" using Suc.prems(3) FullNode x(1) by auto
    then obtain n' d where d: "delete_node src g fuel (cs ! unat x) (p @ [x]) r = Some (d, n', None)"
        "R False n' (pdelete (ts ! unat x) r)" "if d then \<not> is_hash n' else pdelete (ts ! unat x) r = ts ! unat x"
      using ih [of False "cs ! unat x" "ts ! unat x" r "p @ [x]"] t x by auto
    have e: "pdelete t key = reduce (ts[unat x := pdelete (ts ! unat x) r])" using t(1) x by simp
    show ?thesis
    proof (cases d)
      case True
      have "\<forall>i < length (cs[unat x := n']). R False (cs[unat x := n'] ! i) (ts[unat x := pdelete (ts ! unat x) r] ! i)"
        using t d(2) x(2,3) by (simp add: nth_list_update)
      then show ?thesis unfolding e using FullNode True d(1) x t(2)
          reduce_R [of "cs[unat x := n']" "ts[unat x := pdelete (ts ! unat x) r]" g p b]
        by (auto simp: delete_node.simps(2))
    next
      case False
      then have "pdelete t key = t" unfolding e using d(3) reduce_full [OF w] t(1) by simp
      then show ?thesis using FullNode False d(1) x t(2) Suc.prems(1) by (auto simp: delete_node.simps(2))
    qed
  next
    case (HashNode h)
    then obtain n1 where n1: "resolveHash src g h p = Some (Inr n1)" "is_inner n1" "R b n1 t"
      using Suc.prems(1) hashE by blast
    have "enough fuel n1 (length key)" using Suc.prems(3) HashNode is_inner_not_hash [OF n1(2)] by simp
    then obtain n' d where "delete_node src g fuel n1 p key = Some (d, n', None)"
        "R b n' (pdelete t key)" "if d then \<not> is_hash n' else pdelete t key = t"
      using ih [OF n1(3) Suc.prems(2)] by blast
    then show ?thesis using n1 HashNode by (cases d) (auto simp: delete_node.simps(2))
  qed
qed simp

end

section \<open>Stored maps\<close>

text \<open>A trie in minimal form whose keys are the hex forms of the keys of \<open>m\<close>.\<close>

definition byte_keys :: "ptrie \<Rightarrow> bool" where
  "byte_keys p = (\<forall>k. pget p k \<noteq> None \<longrightarrow> (\<exists>b. k = keybytesToHex b))"

definition spells :: "ptrie \<Rightarrow> (bytes \<Rightarrow> bytes option) \<Rightarrow> bool" where
  "spells p m = (wf_trie p \<and> byte_keys p \<and> (\<forall>k. pget p (keybytesToHex k) = m k))"

definition stores :: "(bool \<Rightarrow> node \<Rightarrow> ptrie \<Rightarrow> bool) \<Rightarrow> Trie \<Rightarrow> (bytes \<Rightarrow> bytes option) \<Rightarrow> bool" where
  "stores R t m = (\<exists>p. R True (tRoot t) p \<and> spells p m)"

lemma keybytesToHex_inject [simp]: "keybytesToHex a = keybytesToHex b \<longleftrightarrow> a = b"
  using hexToKeybytes_inverse by (metis option.inject)

lemma spells_unique:
  assumes "spells p m" "spells p' m"
  shows "p = p'"
proof (rule pget_inject)
  show "wf_trie p" "wf_trie p'" using assms by (auto simp: spells_def)
  show "pget p = pget p'"
  proof
    fix k
    show "pget p k = pget p' k"
    proof (cases "\<exists>b. k = keybytesToHex b")
      case True
      then show ?thesis using assms by (auto simp: spells_def)
    next
      case False
      then show ?thesis using assms unfolding spells_def byte_keys_def by metis
    qed
  qed
qed

abbreviation key_fuel :: "bytes \<Rightarrow> nat" where
  "key_fuel key \<equiv> 4 * length key + 4"

lemma enough_key: "key_fuel key \<le> fuel \<Longrightarrow> enough fuel n (length (keybytesToHex key))"
  by (cases n) (simp_all add: keybytesToHex_def)

lemma fits_key: "spells p m \<Longrightarrow> fits p (keybytesToHex key)"
  by (simp add: fits_def spells_def keybytesToHex_term)

lemma spells_insert:
  assumes "spells p m" "v \<noteq> []"
  shows "spells (pinsert p (keybytesToHex key) (PVal v)) (m(key \<mapsto> v))"
proof -
  let ?p = "pinsert p (keybytesToHex key) (PVal v)"
  have "wfs ?p" and g: "pget ?p = (pget p)(keybytesToHex key \<mapsto> v)"
    using assms(1) pinsert_ok [OF _ keybytesToHex_term assms(2)] unfolding spells_def by blast+
  moreover have "byte_keys ?p" using assms(1) unfolding byte_keys_def g spells_def by (simp split: if_splits)
  ultimately show ?thesis using assms(1) unfolding spells_def wf_trie_def g by simp
qed

lemma spells_delete:
  assumes "spells p m"
  shows "spells (pdelete p (keybytesToHex key)) (m(key := None))"
proof -
  let ?p = "pdelete p (keybytesToHex key)"
  have "wf_trie ?p" and g: "pget ?p = (pget p)(keybytesToHex key := None)"
    using assms(1) pdelete_ok [OF _ keybytesToHex_term] unfolding spells_def by blast+
  moreover have "byte_keys ?p" using assms(1) unfolding byte_keys_def g spells_def by (simp split: if_splits)
  ultimately show ?thesis using assms(1) unfolding spells_def g by simp
qed

lemma spells_empty: "spells PNil (\<lambda>_. None)"
  by (simp add: spells_def wf_trie_def byte_keys_def)

abbreviation written :: "bytes \<Rightarrow> bytes option" where
  "written v \<equiv> (if v = [] then None else Some v)"

section \<open>Stores of keys and values\<close>

text \<open>The contract of a store of keys and values, and what follows from it for a run of writes.\<close>

primrec puts :: "('k \<Rightarrow> 'v \<Rightarrow> 's \<Rightarrow> 's option) \<Rightarrow> ('k \<times> 'v) list \<Rightarrow> 's \<Rightarrow> 's option" where
  "puts put [] s = Some s"
| "puts put (w # ws) s = (case put (fst w) (snd w) s of None \<Rightarrow> None | Some s' \<Rightarrow> puts put ws s')"

locale kv_store =
  fixes holds :: "'s \<Rightarrow> ('k \<Rightarrow> 'r option) \<Rightarrow> bool"
    and look :: "'k \<Rightarrow> 's \<Rightarrow> ('r option \<times> 's) option"
    and put :: "'k \<Rightarrow> 'v \<Rightarrow> 's \<Rightarrow> 's option"
    and effect :: "'v \<Rightarrow> 'r option"
    and good :: "'k \<Rightarrow> bool"
  assumes look_law: "holds s m \<Longrightarrow> good k \<Longrightarrow> \<exists>s'. look k s = Some (m k, s') \<and> holds s' m"
    and put_law: "holds s m \<Longrightarrow> good k \<Longrightarrow> \<exists>s'. put k v s = Some s' \<and> holds s' (m(k := effect v))"
begin

lemma puts_hold:
  "holds s m \<Longrightarrow> \<forall>w \<in> set ws. good (fst w) \<Longrightarrow>
   \<exists>s'. puts put ws s = Some s' \<and> holds s' (fold (\<lambda>(k, v) m. m(k := effect v)) ws m)"
proof (induction ws arbitrary: s m)
  case (Cons w ws)
  obtain k v where w: "w = (k, v)" by (cases w)
  then obtain s' where s': "put k v s = Some s'" "holds s' (m(k := effect v))" using put_law Cons.prems by fastforce
  then show ?case using Cons.IH [OF s'(2)] Cons.prems(2) w by auto
qed auto

lemma look_after_puts:
  assumes "holds s m" "\<forall>w \<in> set ws. good (fst w)" "good k" "puts put ws s = Some s'"
  shows "\<exists>s''. look k s' = Some (fold (\<lambda>(k, v) m. m(k := effect v)) ws m k, s'')"
  using puts_hold [OF assms(1,2)] look_law assms(3,4) by fastforce

end

section \<open>The operations on a trie that stores a map\<close>

context node_relation
begin

lemma TryGet_stores:
  assumes "stores R t m" "key_fuel key \<le> fuel"
  shows "\<exists>t'. Trie_TryGet src fuel key t = Some ((m key, None), t') \<and> stores R t' m"
proof -
  obtain p where p: "R True (tRoot t) p" "spells p m" using assms(1) by (auto simp: stores_def)
  then obtain n' d where
    "tryGet src (tCachegen t) fuel (tRoot t) (keybytesToHex key) 0 = Some (m key, n', d, None)" "R True n' p"
    using tryGet_R [of True "tRoot t" p 0 "keybytesToHex key" fuel "tCachegen t"] fits_key [OF p(2)] enough_key [OF assms(2)]
    by (auto simp: spells_def)
  then show ?thesis using p assms(1) by (auto simp: Trie_TryGet_def stores_def)
qed

lemma TryDelete_stores:
  assumes "stores R t m" "key_fuel key \<le> fuel"
  shows "\<exists>t'. Trie_TryDelete src fuel key t = Some (None, t') \<and> stores R t' (m(key := None))"
proof -
  obtain p where p: "R True (tRoot t) p" "spells p m" using assms(1) by (auto simp: stores_def)
  then obtain n' d where
    "delete_node src (tCachegen t) fuel (tRoot t) [] (keybytesToHex key) = Some (d, n', None)"
    "R True n' (pdelete p (keybytesToHex key))"
    using delete_R [OF p(1) fits_key enough_key [OF assms(2)]] by blast
  then show ?thesis using spells_delete [OF p(2), of key] by (auto simp: Trie_TryDelete_def stores_def)
qed

lemma TryUpdate_stores:
  assumes "stores R t m" "key_fuel key \<le> fuel"
  shows "\<exists>t'. Trie_TryUpdate src fuel key v t = Some (None, t') \<and> stores R t' (m(key := written v))"
proof (cases "v = []")
  case True
  then show ?thesis using TryDelete_stores [OF assms] by (simp add: Trie_TryUpdate_def Trie_TryDelete_def)
next
  case False
  obtain p where p: "R True (tRoot t) p" "spells p m" using assms(1) by (auto simp: stores_def)
  then obtain n' d where
    "insert_node src (tCachegen t) fuel (tRoot t) [] (keybytesToHex key) (ValueNode v) = Some (d, n', None)"
    "R True n' (pinsert p (keybytesToHex key) (PVal v))"
    using insert_R [OF False p(1) fits_key enough_key [OF assms(2)]] by blast
  then show ?thesis using spells_insert [OF p(2) False, of key] False by (auto simp: Trie_TryUpdate_def stores_def)
qed

lemma Get_stores:
  assumes "stores R t m" "key_fuel key \<le> fuel"
  shows "\<exists>t'. Trie_Get src fuel key t = Some (m key, t') \<and> stores R t' m"
  using TryGet_stores [OF assms] by (auto simp: Trie_Get_def)

lemma Update_stores:
  assumes "stores R t m" "key_fuel key \<le> fuel"
  shows "\<exists>t'. Trie_Update src fuel key v t = Some t' \<and> stores R t' (m(key := written v))"
  using TryUpdate_stores [OF assms, of v] by (elim exE conjE) (simp add: Trie_Update_def)

lemma stores_empty:
  "root = 0 \<or> root = emptyRoot \<Longrightarrow> \<exists>t. Trie_New root src = Some (Inr t) \<and> stores R t (\<lambda>_. None)"
  using spells_empty by (auto simp: Trie_New_def stores_def nilE)

end

text \<open>With fuel for keys of at most \<open>len\<close> bytes the trie is a store.\<close>

sublocale node_relation \<subseteq> kv: kv_store "stores R" "Trie_Get src (4 * len + 4)" "Trie_Update src (4 * len + 4)"
    written "\<lambda>key. length key \<le> len" for len
  by unfold_locales (simp_all only: Get_stores Update_stores add_le_mono1 mult_le_mono2)

section \<open>Loading every node\<close>

text \<open>The trie a node stands for when every hash node is replaced by the node the source has for it, whatever the
  caching flags say.\<close>

inductive expands :: "node_source \<Rightarrow> node \<Rightarrow> ptrie \<Rightarrow> bool" for src :: node_source where
  Nil: "expands src NilNode PNil"
| Value: "expands src (ValueNode v) (PVal v)"
| Short: "expands src c t \<Longrightarrow> expands src (ShortNode k c f) (PShort k t)"
| Full: "length cs = length ts \<Longrightarrow> \<forall>i < length cs. expands src (cs ! i) (ts ! i) \<Longrightarrow>
    expands src (FullNode cs f) (PFull ts)"
| Hash: "\<forall>g. \<exists>n. src (BytesToHash h) g = Some (Some n) \<and> is_inner n \<and> expands src n t \<Longrightarrow>
    expands src (HashNode h) t"

inductive_cases expands_NilE [elim!]: "expands src NilNode t"
inductive_cases expands_ValueE [elim!]: "expands src (ValueNode v) t"
inductive_cases expands_ShortE: "expands src (ShortNode k c f) t"
inductive_cases expands_FullE: "expands src (FullNode cs f) t"
inductive_cases expands_HashE: "expands src (HashNode h) t"

lemma expands_inner: "expands src n t \<Longrightarrow> is_inner n \<Longrightarrow> (\<exists>k c. t = PShort k c) \<or> (\<exists>ts. t = PFull ts)"
  by (cases rule: expands.cases) auto

lemma expands_nil: "expands src n t \<Longrightarrow> t = PNil \<longleftrightarrow> n = NilNode"
  by (cases rule: expands.cases) (auto dest!: spec [of _ 0] expands_inner)

interpretation loaded: node_relation src "\<lambda>b. expands src" for src
proof
  show "expands src (HashNode h) t \<Longrightarrow> \<exists>n. resolveHash src g h p = Some (Inr n) \<and> is_inner n \<and> expands src n t" for h t g p
    by (auto elim!: expands_HashE dest!: spec [of _ g] simp: resolveHash_def)
  show "expands src (FullNode cs f) (PFull ts) \<Longrightarrow> expands src c' (ts ! i) \<Longrightarrow>
      expands src (FullNode (cs[i := c']) (f\<lparr>nfGen := g\<rparr>)) (PFull ts)" for cs f ts c' i g
    by (erule expands_FullE) (cases "i < length cs"; auto simp: nth_list_update intro!: expands.Full)
qed (auto intro: expands.intros elim: expands_ShortE expands_FullE dest: expands_nil)

end
