(* ===== verification/Trie_Codec.thy ===== *)
theory Trie_Codec
  imports Trie_Refine Rlp_Raw
begin

text \<open>
  The stored form of trie nodes: the encoder of \<^verbatim>\<open>trie/node.go\<close>, the decoder and the round trip between them.
\<close>

section \<open>Encoding\<close>

text \<open>What the RLP writers make of a node: a nil child of a full node is an empty string, a nil interface elsewhere
  the byte \<open>0xC0\<close>.\<close>

fun node_item :: "node \<Rightarrow> rlp_item" where
  "node_item NilNode = Raw [0xC0]"
| "node_item (ValueNode v) = Str v"
| "node_item (HashNode h) = Str h"
| "node_item (ShortNode k c f) = Lst [Str k, node_item c]"
| "node_item (FullNode cs f) = Lst (map (\<lambda>c. if c = NilNode then Str [] else node_item c) cs)"

section \<open>Decoding\<close>

datatype node_error =
    NUnexpectedEOF
  | NDecode rlp_error
  | NInvalidCount nat
  | NInvalidValue rlp_error
  | NRlp rlp_error
  | NOversized nat
  | NInvalidSize nat

text \<open>An error with the path it was wrapped in.\<close>

type_synonym wrapped_error = "node_error \<times> string list"

definition wrapError :: "wrapped_error \<Rightarrow> string \<Rightarrow> wrapped_error" where
  "wrapError err ctx = (fst err, snd err @ [ctx])"

text \<open>Results of the decoder: \<open>None\<close> is a panic or fuel that ran out.\<close>

type_synonym 'a decoded = "(wrapped_error + 'a) option"

definition hashLen :: nat where
  "hashLen = 32"

definition decodeRef :: "(bytes \<Rightarrow> node decoded) \<Rightarrow> bytes \<Rightarrow> (node \<times> bytes) decoded" where
  "decodeRef decode buf =
     (case Split buf of
        None \<Rightarrow> None
      | Some (Inl err) \<Rightarrow> Some (Inl (NRlp err, []))
      | Some (Inr (kind, val, rest)) \<Rightarrow>
          if kind = List then
            if length buf - length rest > hashLen then Some (Inl (NOversized (length buf - length rest), []))
            else (case decode buf of
                    None \<Rightarrow> None
                  | Some (Inl err) \<Rightarrow> Some (Inl err)
                  | Some (Inr n) \<Rightarrow> Some (Inr (n, rest)))
          else if kind = String \<and> length val = 0 then Some (Inr (NilNode, rest))
          else if kind = String \<and> length val = 32 then Some (Inr (HashNode val, rest))
          else Some (Inl (NInvalidSize (length val), [])))"

definition decodeShort :: "(bytes \<Rightarrow> node decoded) \<Rightarrow> bytes option \<Rightarrow> bytes \<Rightarrow> u16 \<Rightarrow> node decoded" where
  "decodeShort decode hash elems cachegen =
     (case SplitString elems of
        None \<Rightarrow> None
      | Some (Inl err) \<Rightarrow> Some (Inl (NRlp err, []))
      | Some (Inr (kbuf, rest)) \<Rightarrow>
          let flag = \<lparr>nfHash = hash, nfGen = cachegen, nfDirty = False\<rparr>
          in case compactToHex kbuf of
               None \<Rightarrow> None
             | Some key \<Rightarrow>
                 if hasTerm key then
                   (case SplitString rest of
                      None \<Rightarrow> None
                    | Some (Inl err) \<Rightarrow> Some (Inl (NInvalidValue err, []))
                    | Some (Inr (val, _)) \<Rightarrow> Some (Inr (ShortNode key (ValueNode val) flag)))
                 else
                   (case decodeRef decode rest of
                      None \<Rightarrow> None
                    | Some (Inl err) \<Rightarrow> Some (Inl (wrapError err ''val''))
                    | Some (Inr (r, _)) \<Rightarrow> Some (Inr (ShortNode key r flag))))"

text \<open>The decimal index in the context of a full node's child, up to 15.\<close>

definition child_context :: "nat \<Rightarrow> string" where
  "child_context i =
     ''['' @ (if i \<ge> 10 then [CHR ''1'', char_of (48 + (i - 10))] else [char_of (48 + i)]) @ '']''"

primrec decodeFull_loop :: "(bytes \<Rightarrow> node decoded) \<Rightarrow> nat \<Rightarrow> nat \<Rightarrow> bytes \<Rightarrow> (node list \<times> bytes) decoded" where
  "decodeFull_loop decode 0 i elems = Some (Inr ([], elems))"
| "decodeFull_loop decode (Suc m) i elems =
     (case decodeRef decode elems of
        None \<Rightarrow> None
      | Some (Inl err) \<Rightarrow> Some (Inl (wrapError err (child_context i)))
      | Some (Inr (cld, rest)) \<Rightarrow>
          (case decodeFull_loop decode m (i + 1) rest of
             None \<Rightarrow> None
           | Some (Inl err) \<Rightarrow> Some (Inl err)
           | Some (Inr (cs, rest')) \<Rightarrow> Some (Inr (cld # cs, rest'))))"

definition decodeFull :: "(bytes \<Rightarrow> node decoded) \<Rightarrow> bytes option \<Rightarrow> bytes \<Rightarrow> u16 \<Rightarrow> node decoded" where
  "decodeFull decode hash elems cachegen =
     (case decodeFull_loop decode 16 0 elems of
        None \<Rightarrow> None
      | Some (Inl err) \<Rightarrow> Some (Inl err)
      | Some (Inr (cs, rest)) \<Rightarrow>
          (case SplitString rest of
             None \<Rightarrow> None
           | Some (Inl err) \<Rightarrow> Some (Inl (NRlp err, []))
           | Some (Inr (val, _)) \<Rightarrow>
               Some (Inr (FullNode (cs @ [if length val > 0 then ValueNode val else NilNode])
                            \<lparr>nfHash = hash, nfGen = cachegen, nfDirty = False\<rparr>))))"

primrec decodeNode :: "nat \<Rightarrow> bytes option \<Rightarrow> bytes \<Rightarrow> u16 \<Rightarrow> node decoded" where
  "decodeNode 0 hash buf cachegen = None"
| "decodeNode (Suc fuel) hash buf cachegen =
     (if length buf = 0 then Some (Inl (NUnexpectedEOF, []))
      else
        case SplitList buf of
          None \<Rightarrow> None
        | Some (Inl err) \<Rightarrow> Some (Inl (NDecode err, []))
        | Some (Inr (elems, _)) \<Rightarrow>
            let decode = (\<lambda>buf. decodeNode fuel None buf cachegen)
            in case CountValues (Suc (length elems)) elems of
                 None \<Rightarrow> None
               | Some res \<Rightarrow>
                   let c = (case res of Inl _ \<Rightarrow> 0 | Inr c \<Rightarrow> c)
                   in if c = 2 then map_option (map_sum (\<lambda>e. wrapError e ''short'') id) (decodeShort decode hash elems cachegen)
                      else if c = 17 then
                        map_option (map_sum (\<lambda>e. wrapError e ''full'') id) (decodeFull decode hash elems cachegen)
                      else Some (Inl (NInvalidCount c, [])))"

definition mustDecodeNode :: "nat \<Rightarrow> bytes option \<Rightarrow> bytes \<Rightarrow> u16 \<Rightarrow> node option" where
  "mustDecodeNode fuel hash buf cachegen =
     (case decodeNode fuel hash buf cachegen of Some (Inr n) \<Rightarrow> Some n | _ \<Rightarrow> None)"

section \<open>The encoding of a trie\<close>

text \<open>
  The item a trie in minimal form is encoded as: a child whose encoding takes fewer than 32 bytes stands in its place,
  a larger one is replaced by the hash of its encoding.
\<close>

definition compact :: "bytes \<Rightarrow> bytes" where
  "compact k = (case hexToCompact k of Some c \<Rightarrow> c | None \<Rightarrow> [])"

definition ref_item :: "(bytes \<Rightarrow> hash) \<Rightarrow> rlp_item \<Rightarrow> rlp_item" where
  "ref_item keccak it = (if length (rlp it) < 32 then it else Str (Hash_Bytes (keccak (rlp it))))"

fun enc_item :: "(bytes \<Rightarrow> hash) \<Rightarrow> ptrie \<Rightarrow> rlp_item" where
  "enc_item keccak PNil = Str []"
| "enc_item keccak (PVal v) = Str v"
| "enc_item keccak (PShort k c) =
     Lst [Str (compact k), (case c of PVal v \<Rightarrow> Str v | _ \<Rightarrow> ref_item keccak (enc_item keccak c))]"
| "enc_item keccak (PFull cs) =
     Lst (map (\<lambda>c. case c of PNil \<Rightarrow> Str [] | PVal v \<Rightarrow> Str v | _ \<Rightarrow> ref_item keccak (enc_item keccak c)) cs)"

abbreviation enc :: "(bytes \<Rightarrow> hash) \<Rightarrow> ptrie \<Rightarrow> bytes" where
  "enc keccak t \<equiv> rlp (enc_item keccak t)"

text \<open>The node it is decoded to.\<close>

fun ref_node :: "(bytes \<Rightarrow> hash) \<Rightarrow> u16 \<Rightarrow> bytes option \<Rightarrow> bool \<Rightarrow> ptrie \<Rightarrow> node" where
  "ref_node keccak gen h whole PNil = NilNode"
| "ref_node keccak gen h whole (PVal v) = ValueNode v"
| "ref_node keccak gen h whole (PShort k c) =
     (if whole \<or> length (enc keccak (PShort k c)) < 32
      then ShortNode k (ref_node keccak gen None False c) \<lparr>nfHash = h, nfGen = gen, nfDirty = False\<rparr>
      else HashNode (Hash_Bytes (keccak (enc keccak (PShort k c)))))"
| "ref_node keccak gen h whole (PFull cs) =
     (if whole \<or> length (enc keccak (PFull cs)) < 32
      then FullNode (map (ref_node keccak gen None False) cs) \<lparr>nfHash = h, nfGen = gen, nfDirty = False\<rparr>
      else HashNode (Hash_Bytes (keccak (enc keccak (PFull cs)))))"

section \<open>Decoding an encoded trie\<close>

lemma Split_item:
  assumes "is_value it" "length (rlp it @ r) < 2 ^ 63 - 9"
  shows "Split (rlp it @ r) = Some (Inr (item_kind it, item_content it, r))"
  using Split_complete [of "item_kind it" "item_content it" r] rlp_enc_kind [OF assms(1)] assms(2) by simp

lemma SplitString_item:
  assumes "length (rlp (Str b) @ r) < 2 ^ 63 - 9"
  shows "SplitString (rlp (Str b) @ r) = Some (Inr (b, r))"
  using Split_item [of "Str b" r] assms by (simp add: SplitString_def del: rlp.simps)

lemma SplitList_item:
  assumes "length (rlp (Lst its) @ r) < 2 ^ 63 - 9"
  shows "SplitList (rlp (Lst its) @ r) = Some (Inr (concat (map rlp its), r))"
  using Split_item [of "Lst its" r] assms by (simp add: SplitList_def del: rlp.simps)

lemma CountValues_items:
  assumes "\<forall>it \<in> set its. is_value it" "length (concat (map rlp its)) < 2 ^ 63 - 9"
  shows "CountValues (Suc (length (concat (map rlp its)))) (concat (map rlp its)) = Some (Inr (length its))"
proof -
  let ?vs = "map (\<lambda>it. (item_kind it, item_content it)) its"
  have e: "concat (map (\<lambda>(k, c). enc_kind k c) ?vs) = concat (map rlp its)"
    using assms(1) rlp_enc_kind by (induction its) auto
  have k: "\<forall>(k, c) \<in> set ?vs. kind_ok k c" using assms(1) rlp_enc_kind by auto
  have "length ?vs < Suc (length (concat (map rlp its)))" using values_le_bytes [of ?vs] unfolding e by simp
  from count_values [of ?vs, OF _ k this, of 0] show ?thesis unfolding e CountValues_def using assms(2) by simp
qed

lemma hex_key_wfs: "wfs (PShort k c) \<Longrightarrow> hex_key k \<and> (hasTerm k \<longleftrightarrow> is_val c)"
proof -
  assume "wfs (PShort k c)"
  then consider "term_key k" "is_val c" | "nibbles k" "is_full c" by auto
  then show ?thesis
  proof cases
    case 1
    then show ?thesis by (auto simp: term_key_def hex_key_def hasTerm_def last_conv_nth)
  next
    case 2
    then show ?thesis using nibbles_not_term [of k] by (cases c) (auto simp: hex_key_def)
  qed
qed

lemma compact_inverse: "hex_key k \<Longrightarrow> compactToHex (compact k) = Some k"
  by (erule compactToHex_inverse) (simp add: compact_def)

lemma length_Hash_Bytes [simp]: "length (Hash_Bytes h) = 32"
  by (simp add: Hash_Bytes_def)

lemma Hash_Bytes_nonempty [simp]: "Hash_Bytes h \<noteq> []"
  using length_Hash_Bytes [of h] by (metis list.size(3) zero_neq_numeral)

lemma ref_item_value: "is_value it \<Longrightarrow> is_value (ref_item keccak it)"
  by (simp add: ref_item_def)

lemma enc_item_value: "is_value (enc_item keccak t)"
  by (cases t) simp_all

definition child_item :: "(bytes \<Rightarrow> hash) \<Rightarrow> ptrie \<Rightarrow> rlp_item" where
  "child_item keccak c = (case c of PNil \<Rightarrow> Str [] | PVal v \<Rightarrow> Str v | _ \<Rightarrow> ref_item keccak (enc_item keccak c))"

lemma child_item_value: "is_value (child_item keccak c)"
  by (cases c) (simp_all add: child_item_def ref_item_value enc_item_value)

lemma enc_item_short: "c \<noteq> PNil \<Longrightarrow> enc_item keccak (PShort k c) = Lst [Str (compact k), child_item keccak c]"
  by (cases c) (simp_all add: child_item_def)

lemma enc_item_full: "enc_item keccak (PFull cs) = Lst (map (child_item keccak) cs)"
  by (simp add: child_item_def)

declare enc_item.simps(3,4) [simp del]

lemma decodeRef_child:
  assumes c: "c = PNil \<or> wfs c" and len: "length (rlp (child_item keccak c) @ r) < 2 ^ 63 - 9"
    and dec: "length (enc keccak c) < 32 \<Longrightarrow> c \<noteq> PNil \<Longrightarrow> decode (enc keccak c @ r) = Some (Inr (ref_node keccak gen None True c))"
  shows "decodeRef decode (rlp (child_item keccak c) @ r) = Some (Inr (ref_node keccak gen None False c, r))"
proof -
  have S: "Split (rlp (child_item keccak c) @ r) =
      Some (Inr (item_kind (child_item keccak c), item_content (child_item keccak c), r))"
    by (rule Split_item [OF child_item_value len])
  show ?thesis
  proof (cases "c = PNil")
    case True
    then show ?thesis using S by (simp add: decodeRef_def child_item_def del: rlp.simps)
  next
    case False
    then have w: "wfs c" and ci: "child_item keccak c = ref_item keccak (enc_item keccak c)"
      using c by (cases c; auto simp: child_item_def)+
    have L: "\<exists>its. enc_item keccak c = Lst its" using w by (cases c) (auto simp: enc_item.simps(3,4))
    show ?thesis
    proof (cases "length (enc keccak c) < 32")
      case True
      then have "child_item keccak c = enc_item keccak c" using ci by (simp add: ref_item_def)
      moreover have "ref_node keccak gen None False c = ref_node keccak gen None True c" using True w by (cases c) auto
      ultimately show ?thesis using S L True dec [OF True False] by (auto simp: decodeRef_def hashLen_def simp del: rlp.simps)
    next
      case big: False
      then have e: "child_item keccak c = Str (Hash_Bytes (keccak (enc keccak c)))" using ci by (simp add: ref_item_def)
      have "ref_node keccak gen None False c = HashNode (Hash_Bytes (keccak (enc keccak c)))" using big w by (cases c) auto
      then show ?thesis using S unfolding e by (simp add: decodeRef_def del: rlp.simps)
    qed
  qed
qed

lemma decodeFull_loop_children:
  "\<forall>c \<in> set cs. c = PNil \<or> wfs c \<Longrightarrow> length (concat (map (\<lambda>c. rlp (child_item keccak c)) cs) @ r) < 2 ^ 63 - 9 \<Longrightarrow>
   \<forall>c \<in> set cs. \<forall>r. length (enc keccak c) < 32 \<longrightarrow> c \<noteq> PNil \<longrightarrow> length (enc keccak c @ r) < 2 ^ 63 - 9 \<longrightarrow>
     decode (enc keccak c @ r) = Some (Inr (ref_node keccak gen None True c)) \<Longrightarrow>
   decodeFull_loop decode (length cs) i (concat (map (\<lambda>c. rlp (child_item keccak c)) cs) @ r) =
     Some (Inr (map (ref_node keccak gen None False) cs, r))"
proof (induction cs arbitrary: i)
  case (Cons c cs)
  let ?r = "concat (map (\<lambda>c. rlp (child_item keccak c)) cs) @ r"
  have "decodeRef decode (rlp (child_item keccak c) @ ?r) = Some (Inr (ref_node keccak gen None False c, ?r))"
  proof (rule decodeRef_child)
    assume "length (enc keccak c) < 32" "c \<noteq> PNil"
    moreover then have "child_item keccak c = enc_item keccak c"
      using Cons.prems(1) by (cases c) (auto simp: child_item_def ref_item_def)
    ultimately show "decode (enc keccak c @ ?r) = Some (Inr (ref_node keccak gen None True c))"
      using Cons.prems(2,3) by simp
  qed (use Cons.prems in simp_all)
  then show ?case using Cons.IH [of "i + 1"] Cons.prems by simp
qed simp

lemma rlp_Lst_length: "length (concat (map rlp its)) < length (rlp (Lst its))"
  using enc_kind_nonempty [of List "[]"] by (simp add: Let_def list_head_def puthead_def)

lemma child_enc_shorter:
  assumes "child_item keccak c \<in> set its" "c = PNil \<or> wfs c" "length (enc keccak c) < 32" "c \<noteq> PNil"
  shows "length (enc keccak c) < length (rlp (Lst its))"
proof -
  have "child_item keccak c = enc_item keccak c" using assms by (cases c) (auto simp: child_item_def ref_item_def)
  moreover obtain as bs where "its = as @ child_item keccak c # bs" using split_list [OF assms(1)] by blast
  ultimately have "length (enc keccak c) \<le> length (concat (map rlp its))" by simp
  then show ?thesis using rlp_Lst_length [of its] by linarith
qed

lemma decodeNode_enc:
  "wfs t \<Longrightarrow> length (enc keccak t) < fuel \<Longrightarrow> length (enc keccak t @ r) < 2 ^ 63 - 9 \<Longrightarrow>
   decodeNode fuel hash (enc keccak t @ r) gen = Some (Inr (ref_node keccak gen hash True t))"
proof (induction fuel arbitrary: t hash r)
  case (Suc fuel)
  note ih = Suc.IH
  obtain its where its: "enc_item keccak t = Lst its" using Suc.prems(1) by (cases t) (auto simp: enc_item.simps(3,4))
  let ?e = "concat (map rlp its)"
  have sl: "SplitList (enc keccak t @ r) = Some (Inr (?e, r))"
    using SplitList_item [of its r] Suc.prems(3) unfolding its .
  have le: "length ?e < length (enc keccak t)" unfolding its by (rule rlp_Lst_length)
  have ne: "enc keccak t @ r \<noteq> []" using le by auto
  let ?decode = "\<lambda>buf. decodeNode fuel None buf gen"
  show ?case
  proof (cases t)
    case (PShort k c)
    have c: "c \<noteq> PNil" using Suc.prems(1) PShort by auto
    have i: "its = [Str (compact k), child_item keccak c]" using its PShort enc_item_short [OF c] by simp
    have k: "hex_key k" "hasTerm k \<longleftrightarrow> is_val c" using hex_key_wfs Suc.prems(1) PShort by auto
    have cv: "CountValues (Suc (length ?e)) ?e = Some (Inr 2)"
      using CountValues_items [of its] child_item_value le Suc.prems(3) unfolding i by (simp del: rlp.simps)
    have e: "?e = rlp (Str (compact k)) @ rlp (child_item keccak c)" unfolding i by (simp del: rlp.simps)
    have s1: "SplitString ?e = Some (Inr (compact k, rlp (child_item keccak c)))"
      unfolding e using le Suc.prems(3) by (intro SplitString_item) (simp add: e del: rlp.simps)
    have "decodeShort ?decode hash ?e gen = Some (Inr (ref_node keccak gen hash True t))"
    proof (cases "is_val c")
      case True
      then obtain v where v: "c = PVal v" by (cases c) auto
      have "SplitString (rlp (Str v) @ []) = Some (Inr (v, []))"
        using le Suc.prems(3) e v by (intro SplitString_item) (simp add: child_item_def del: rlp.simps)
      moreover have "hasTerm k" using k(2) True by simp
      ultimately show ?thesis using s1 k(1) compact_inverse v PShort
        by (simp add: decodeShort_def child_item_def Let_def del: rlp.simps)
    next
      case False
      then have w: "wfs c" using Suc.prems(1) PShort by auto
      have "decodeRef ?decode (rlp (child_item keccak c) @ []) = Some (Inr (ref_node keccak gen None False c, []))"
      proof (rule decodeRef_child)
        assume "length (enc keccak c) < 32" "c \<noteq> PNil"
        moreover then have "length (enc keccak c) < length (enc keccak t)"
          unfolding its using child_enc_shorter [of keccak c its] w i by simp
        ultimately show "?decode (enc keccak c @ []) = Some (Inr (ref_node keccak gen None True c))"
          using ih [OF w, of "[]"] Suc.prems(2,3) by simp
      qed (use w le e Suc.prems(3) in \<open>simp_all del: rlp.simps\<close>)
      then show ?thesis using s1 k compact_inverse False PShort by (simp add: decodeShort_def Let_def del: rlp.simps)
    qed
    then show ?thesis using sl ne cv by (simp add: Let_def)
  next
    case (PFull cs)
    have i: "its = map (child_item keccak) cs" using its PFull enc_item_full by simp
    have s: "slots cs" using Suc.prems(1) PFull by (simp add: wfs_slots)
    obtain bs b where cs: "cs = bs @ [b]" "length bs = 16"
      using s by (cases cs rule: rev_cases) (auto simp: slots_def)
    have bs: "\<forall>c \<in> set bs. c = PNil \<or> wfs c" and b: "b = PNil \<or> is_val b"
      using s cs by (auto simp: slots_def nth_append all_set_conv_all_nth)
    have cv: "CountValues (Suc (length ?e)) ?e = Some (Inr 17)"
      using CountValues_items [of its] child_item_value le Suc.prems(3) cs unfolding i by (simp del: rlp.simps)
    have e: "?e = concat (map (\<lambda>c. rlp (child_item keccak c)) bs) @ rlp (child_item keccak b)"
      unfolding i cs by (simp add: comp_def del: rlp.simps)
    have dec: "\<forall>c \<in> set bs. \<forall>r. length (enc keccak c) < 32 \<longrightarrow> c \<noteq> PNil \<longrightarrow> length (enc keccak c @ r) < 2 ^ 63 - 9 \<longrightarrow>
        ?decode (enc keccak c @ r) = Some (Inr (ref_node keccak gen None True c))"
    proof (intro ballI allI impI)
      fix c r
      assume c: "c \<in> set bs" "length (enc keccak c) < 32" "c \<noteq> PNil" "length (enc keccak c @ r) < 2 ^ 63 - 9"
      have "wfs c" using bs c(1,3) by blast
      moreover have "child_item keccak c \<in> set its" unfolding i cs using c(1) by simp
      ultimately have "length (enc keccak c) < length (enc keccak t)"
        unfolding its using child_enc_shorter c(2,3) by blast
      then show "?decode (enc keccak c @ r) = Some (Inr (ref_node keccak gen None True c))"
        using ih [of c r None] c bs Suc.prems(2) by auto
    qed
    have l: "decodeFull_loop ?decode 16 0 ?e = Some (Inr (map (ref_node keccak gen None False) bs, rlp (child_item keccak b)))"
      using decodeFull_loop_children [OF bs _ dec, of "rlp (child_item keccak b)" 0] le Suc.prems(3) cs(2) unfolding e by simp
    define v where "v = (case b of PVal v \<Rightarrow> v | _ \<Rightarrow> [])"
    have v: "child_item keccak b = Str v" "(if length v > 0 then ValueNode v else NilNode) = ref_node keccak gen None False b"
      using b by (cases b; simp add: v_def child_item_def)+
    have "SplitString (rlp (Str v) @ []) = Some (Inr (v, []))"
      using le Suc.prems(3) e v(1) by (intro SplitString_item) (simp del: rlp.simps)
    then have "decodeFull ?decode hash ?e gen = Some (Inr (ref_node keccak gen hash True t))"
      using l v PFull cs by (simp add: decodeFull_def del: rlp.simps)
    then show ?thesis using sl ne cv by (simp add: Let_def)
  qed (use Suc.prems(1) in simp_all)
qed simp

end
