(* ===== verification/Trie_Database.thy ===== *)
theory Trie_Database
  imports Trie_Codec "HOL-Library.AList"
begin

text \<open>
  The reference-counted node cache of \<^verbatim>\<open>trie/database.go\<close> in front of the disk database. The disk is a map from keys
  to values; \<open>None\<close> as a result is a panic (a nil map entry dereferenced, an encoding error), or fuel that ran out in
  the cascading operations.
\<close>

type_synonym disk = "bytes \<Rightarrow> bytes option"

section \<open>Cached nodes\<close>

text \<open>\<^verbatim>\<open>rawNode\<close>, \<^verbatim>\<open>rawFullNode\<close>, \<^verbatim>\<open>rawShortNode\<close>, and the hash, value and nil nodes inside them.\<close>

datatype rnode =
    RNil
  | RawNode bytes
  | RFull "rnode list"
  | RShort bytes rnode
  | RHash bytes
  | RValue bytes

text \<open>The encoder of the raw nodes is that of the nodes they come from.\<close>

fun rnode_item :: "rnode \<Rightarrow> rlp_item" where
  "rnode_item RNil = Raw [0xC0]"
| "rnode_item (RawNode b) = Str b"
| "rnode_item (RValue v) = Str v"
| "rnode_item (RHash h) = Str h"
| "rnode_item (RShort k c) = Lst [Str k, rnode_item c]"
| "rnode_item (RFull cs) = Lst (map (\<lambda>c. if c = RNil then Str [] else rnode_item c) cs)"

record cachedNode =
  cnNode :: rnode
  cnSize :: u16
  cnParents :: u16
  cnChildren :: "(hash \<times> u16) list"
  cnFlushPrev :: hash
  cnFlushNext :: hash

record Database =
  dDisk :: disk
  dNodes :: "(hash \<times> cachedNode) list"
  dOldest :: hash
  dNewest :: hash
  dPreimages :: "(hash \<times> bytes) list"
  dNodesSize :: int
  dPreimagesSize :: int

function gatherChildren :: "rnode \<Rightarrow> hash list option" where
  "gatherChildren (RShort k c) = gatherChildren c"
| "gatherChildren (RFull cs) =
     map_option concat (those (map gatherChildren (take 16 cs)))"
| "gatherChildren (RHash h) = Some [BytesToHash h]"
| "gatherChildren (RValue v) = Some []"
| "gatherChildren RNil = Some []"
| "gatherChildren (RawNode b) = None"
  by pat_completeness auto
termination
  by (relation "measure size") (auto simp: less_Suc_eq_le size_list_estimation' dest!: in_set_takeD)

fun simplifyNode :: "node \<Rightarrow> rnode option" where
  "simplifyNode (ShortNode k c f) = map_option (RShort k) (simplifyNode c)"
| "simplifyNode (FullNode cs f) =
     map_option RFull (those (map (\<lambda>c. if c = NilNode then Some RNil else simplifyNode c) cs))"
| "simplifyNode (ValueNode v) = Some (RValue v)"
| "simplifyNode (HashNode h) = Some (RHash h)"
| "simplifyNode NilNode = None"

fun expandNode :: "bytes option \<Rightarrow> rnode \<Rightarrow> u16 \<Rightarrow> node option" where
  "expandNode hash (RShort k c) cachegen =
     (case compactToHex k of
        None \<Rightarrow> None
      | Some key \<Rightarrow>
          map_option (\<lambda>val. ShortNode key val \<lparr>nfHash = hash, nfGen = cachegen, nfDirty = False\<rparr>)
            (expandNode None c cachegen))"
| "expandNode hash (RFull cs) cachegen =
     map_option (\<lambda>cs'. FullNode cs' \<lparr>nfHash = hash, nfGen = cachegen, nfDirty = False\<rparr>)
       (those (map (\<lambda>c. if c = RNil then Some NilNode else expandNode None c cachegen) cs))"
| "expandNode hash (RValue v) cachegen = Some (ValueNode v)"
| "expandNode hash (RHash h) cachegen = Some (HashNode h)"
| "expandNode hash RNil cachegen = None"
| "expandNode hash (RawNode b) cachegen = None"

definition cachedNode_rlp :: "cachedNode \<Rightarrow> bytes option" where
  "cachedNode_rlp n = (case cnNode n of RawNode b \<Rightarrow> Some b | r \<Rightarrow> EncodeToBytes (rnode_item r))"

definition cachedNode_obj :: "hash \<Rightarrow> u16 \<Rightarrow> cachedNode \<Rightarrow> node option" where
  "cachedNode_obj hash cachegen n =
     (case cnNode n of
        RawNode b \<Rightarrow> mustDecodeNode (Suc (length b)) (Some (Hash_Bytes hash)) b cachegen
      | r \<Rightarrow> expandNode (Some (Hash_Bytes hash)) r cachegen)"

text \<open>The explicit children come first, in an order Go leaves open; here the order of their insertion.\<close>

definition cachedNode_childs :: "cachedNode \<Rightarrow> hash list option" where
  "cachedNode_childs n =
     (case cnNode n of
        RawNode b \<Rightarrow> Some (map fst (cnChildren n))
      | r \<Rightarrow> map_option (\<lambda>cs. map fst (cnChildren n) @ cs) (gatherChildren r))"

section \<open>Insertion and lookup\<close>

definition NewDatabase :: "disk \<Rightarrow> Database" where
  "NewDatabase diskdb =
     \<lparr>dDisk = diskdb,
      dNodes = [(0, \<lparr>cnNode = RNil, cnSize = 0, cnParents = 0, cnChildren = [], cnFlushPrev = 0, cnFlushNext = 0\<rparr>)],
      dOldest = 0, dNewest = 0, dPreimages = [], dNodesSize = 0, dPreimagesSize = 0\<rparr>"

definition entry :: "Database \<Rightarrow> hash \<Rightarrow> cachedNode option" where
  "entry db hash = map_of (dNodes db) hash"

definition set_entry :: "hash \<Rightarrow> cachedNode \<Rightarrow> Database \<Rightarrow> Database" where
  "set_entry hash n db = db\<lparr>dNodes := AList.update hash n (dNodes db)\<rparr>"

text \<open>Assignments to a field of \<^verbatim>\<open>db.nodes[hash]\<close>, a nil dereference when there is no entry.\<close>

definition on_node :: "hash \<Rightarrow> (cachedNode \<Rightarrow> cachedNode) \<Rightarrow> Database \<Rightarrow> Database option" where
  "on_node hash f db =
     (case entry db hash of
        None \<Rightarrow> None
      | Some n \<Rightarrow> Some (set_entry hash (f n) db))"

definition count_parent :: "hash \<Rightarrow> Database \<Rightarrow> Database" where
  "count_parent child db =
     (case entry db child of
        None \<Rightarrow> db
      | Some c \<Rightarrow> set_entry child (c\<lparr>cnParents := cnParents c + 1\<rparr>) db)"

definition simplify :: "bytes + node \<Rightarrow> rnode option" where
  "simplify n = (case n of Inl blob \<Rightarrow> Some (RawNode blob) | Inr nd \<Rightarrow> simplifyNode nd)"

text \<open>The node is a \<^verbatim>\<open>rawNode\<close> (\<open>Inl\<close>) or a collapsed trie node. \<^verbatim>\<open>common.HashLength + entry.size\<close> is a sum of 16-bit
  integers.\<close>

definition Database_insert :: "hash \<Rightarrow> bytes \<Rightarrow> bytes + node \<Rightarrow> Database \<Rightarrow> Database option" where
  "Database_insert hash blob nd db =
     (if entry db hash \<noteq> None then Some db
      else
        case simplify nd of
          None \<Rightarrow> None
        | Some r \<Rightarrow>
            let e = \<lparr>cnNode = r, cnSize = of_nat (length blob), cnParents = 0, cnChildren = [],
                         cnFlushPrev = dNewest db, cnFlushNext = 0\<rparr>
            in case cachedNode_childs e of
                 None \<Rightarrow> None
               | Some childs \<Rightarrow>
                   let db1 = fold count_parent childs db;
                       db2 = set_entry hash e db1;
                       db3 = (if dOldest db = 0 then Some (db2\<lparr>dOldest := hash, dNewest := hash\<rparr>)
                              else map_option (\<lambda>d. d\<lparr>dNewest := hash\<rparr>)
                                     (on_node (dNewest db2) (\<lambda>n. n\<lparr>cnFlushNext := hash\<rparr>) db2))
                   in map_option (\<lambda>d. d\<lparr>dNodesSize := dNodesSize d + uint (32 + cnSize e)\<rparr>) db3)"

definition Database_InsertBlob :: "hash \<Rightarrow> bytes \<Rightarrow> Database \<Rightarrow> Database option" where
  "Database_InsertBlob hash blob db = Database_insert hash blob (Inl blob) db"

definition Database_insertPreimage :: "hash \<Rightarrow> bytes \<Rightarrow> Database \<Rightarrow> Database" where
  "Database_insertPreimage hash preimage db =
     (if map_of (dPreimages db) hash \<noteq> None then db
      else db\<lparr>dPreimages := dPreimages db @ [(hash, preimage)],
              dPreimagesSize := dPreimagesSize db + int (32 + length preimage)\<rparr>)"

definition Database_node :: "Database \<Rightarrow> node_source" where
  "Database_node db hash cachegen =
     (case entry db hash of
        Some n \<Rightarrow> map_option Some (cachedNode_obj hash cachegen n)
      | None \<Rightarrow>
          (case dDisk db (Hash_Bytes hash) of
             None \<Rightarrow> Some None
           | Some e \<Rightarrow> map_option Some (mustDecodeNode (Suc (length e)) (Some (Hash_Bytes hash)) e cachegen)))"

text \<open>\<^verbatim>\<open>Node\<close>: \<open>Some None\<close> is the error of the disk database.\<close>

definition Database_Node :: "Database \<Rightarrow> hash \<Rightarrow> bytes option option" where
  "Database_Node db hash =
     (case entry db hash of
        Some n \<Rightarrow> map_option Some (cachedNode_rlp n)
      | None \<Rightarrow> Some (dDisk db (Hash_Bytes hash)))"

definition secureKey :: "bytes \<Rightarrow> bytes" where
  "secureKey key = map (\<lambda>c. of_nat (of_char c)) ''secure-key-'' @ key"

definition Database_preimage :: "Database \<Rightarrow> hash \<Rightarrow> bytes option" where
  "Database_preimage db hash =
     (case map_of (dPreimages db) hash of
        Some p \<Rightarrow> Some p
      | None \<Rightarrow> dDisk db (secureKey (Hash_Bytes hash)))"

section \<open>References\<close>

definition child_count :: "(hash \<times> u16) list \<Rightarrow> hash \<Rightarrow> u16" where
  "child_count cs h = (case map_of cs h of Some c \<Rightarrow> c | None \<Rightarrow> 0)"

definition set_child :: "hash \<Rightarrow> u16 \<Rightarrow> (hash \<times> u16) list \<Rightarrow> (hash \<times> u16) list" where
  "set_child h c cs = AList.update h c cs"

definition Database_reference :: "hash \<Rightarrow> hash \<Rightarrow> Database \<Rightarrow> Database option" where
  "Database_reference child parent db =
     (case entry db child of
        None \<Rightarrow> Some db
      | Some _ \<Rightarrow>
          (case entry db parent of
             None \<Rightarrow> None
           | Some p \<Rightarrow>
               if map_of (cnChildren p) child \<noteq> None \<and> parent \<noteq> 0 then Some db
               else
                 on_node parent (\<lambda>n. n\<lparr>cnChildren := set_child child (child_count (cnChildren n) child + 1) (cnChildren n)\<rparr>)
                   (count_parent child db)))"

text \<open>The flush-list switch of \<^verbatim>\<open>dereference\<close> and \<^verbatim>\<open>uncache\<close>.\<close>

definition unlink_flush :: "hash \<Rightarrow> cachedNode \<Rightarrow> Database \<Rightarrow> Database option" where
  "unlink_flush h node db =
     (if h = dOldest db then
        on_node (cnFlushNext node) (\<lambda>n. n\<lparr>cnFlushPrev := 0\<rparr>) (db\<lparr>dOldest := cnFlushNext node\<rparr>)
      else if h = dNewest db then
        on_node (cnFlushPrev node) (\<lambda>n. n\<lparr>cnFlushNext := 0\<rparr>) (db\<lparr>dNewest := cnFlushPrev node\<rparr>)
      else
        case on_node (cnFlushPrev node) (\<lambda>n. n\<lparr>cnFlushNext := cnFlushNext node\<rparr>) db of
          None \<Rightarrow> None
        | Some db1 \<Rightarrow> on_node (cnFlushNext node) (\<lambda>n. n\<lparr>cnFlushPrev := cnFlushPrev node\<rparr>) db1)"

text \<open>\<^verbatim>\<open>delete(db.nodes, h)\<close> with the size taken off.\<close>

definition drop_node :: "hash \<Rightarrow> cachedNode \<Rightarrow> Database \<Rightarrow> Database" where
  "drop_node h node db =
     db\<lparr>dNodes := AList.delete h (dNodes db), dNodesSize := dNodesSize db - (32 + uint (cnSize node))\<rparr>"

primrec each_hash :: "(hash \<Rightarrow> Database \<Rightarrow> Database option) \<Rightarrow> hash list \<Rightarrow> Database \<Rightarrow> Database option" where
  "each_hash f [] db = Some db"
| "each_hash f (h # hs) db = (case f h db of None \<Rightarrow> None | Some db' \<Rightarrow> each_hash f hs db')"

primrec dereference :: "nat \<Rightarrow> hash \<Rightarrow> hash \<Rightarrow> Database \<Rightarrow> Database option" where
  "dereference 0 child parent db = None"
| "dereference (Suc fuel) child parent db =
     (case entry db parent of
        None \<Rightarrow> None
      | Some pn \<Rightarrow>
          let cs = cnChildren pn;
              cs' = (if child_count cs child > 0 then
                       if child_count cs child - 1 = 0 then AList.delete child cs
                       else set_child child (child_count cs child - 1) cs
                     else cs);
              db1 = set_entry parent (pn\<lparr>cnChildren := cs'\<rparr>) db
          in case entry db1 child of
               None \<Rightarrow> Some db1
             | Some node \<Rightarrow>
                 let parents = (if cnParents node > 0 then cnParents node - 1 else cnParents node);
                     node' = node\<lparr>cnParents := parents\<rparr>;
                     db2 = set_entry child (node') db1
                 in if parents = 0 then
                      case unlink_flush child node' db2 of
                        None \<Rightarrow> None
                      | Some db3 \<Rightarrow>
                          (case cachedNode_childs node' of
                             None \<Rightarrow> None
                           | Some childs \<Rightarrow>
                               map_option (drop_node child node')
                                 (each_hash (\<lambda>h. dereference fuel h child) childs db3))
                    else Some db2)"

definition Database_Dereference :: "nat \<Rightarrow> hash \<Rightarrow> Database \<Rightarrow> Database option" where
  "Database_Dereference fuel root db = (if root = 0 then Some db else dereference fuel root 0 db)"

section \<open>Writing to disk\<close>

text \<open>
  A batch of \<^verbatim>\<open>dbwrapper\<close> collects puts and counts the bytes of their values. Writing it is the argument
  \<open>disk_write\<close>, LevelDB's: \<open>None\<close> is an error that leaves the disk as it was. In the results, \<open>Inl\<close> is such an error
  with the disk at that moment.
\<close>

type_synonym batch = "(bytes \<times> bytes) list"

type_synonym disk_writer = "disk \<Rightarrow> batch \<Rightarrow> disk option"

definition ValueSize :: "batch \<Rightarrow> nat" where
  "ValueSize b = sum_list (map (\<lambda>(k, v). length v) b)"

definition IdealBatchSize :: nat where
  "IdealBatchSize = 100 * 1024"

primrec put_preimages :: "disk_writer \<Rightarrow> (hash \<times> bytes) list \<Rightarrow> batch \<times> disk \<Rightarrow> disk + batch \<times> disk" where
  "put_preimages disk_write [] bd = Inr bd"
| "put_preimages disk_write (p # ps) bd =
     (let batch = fst bd @ [(secureKey (Hash_Bytes (fst p)), snd p)]
      in if ValueSize batch > IdealBatchSize then
           (case disk_write (snd bd) batch of
              None \<Rightarrow> Inl (snd bd)
            | Some d \<Rightarrow> put_preimages disk_write ps ([], d))
         else put_preimages disk_write ps (batch, snd bd))"

text \<open>A put of a node with the write when the batch has reached the ideal size.\<close>

definition put_node :: "disk_writer \<Rightarrow> hash \<Rightarrow> cachedNode \<Rightarrow> batch \<times> disk \<Rightarrow> (disk + batch \<times> disk) option" where
  "put_node disk_write hash node bd =
     (case cachedNode_rlp node of
        None \<Rightarrow> None
      | Some blob \<Rightarrow>
          let batch = fst bd @ [(Hash_Bytes hash, blob)]
          in Some (if ValueSize batch \<ge> IdealBatchSize then
                     (case disk_write (snd bd) batch of None \<Rightarrow> Inl (snd bd) | Some d \<Rightarrow> Inr ([], d))
                   else Inr (batch, snd bd)))"

primrec commit_each :: "(hash \<Rightarrow> batch \<times> disk \<Rightarrow> (disk + batch \<times> disk) option) \<Rightarrow> hash list \<Rightarrow> batch \<times> disk \<Rightarrow>
    (disk + batch \<times> disk) option" where
  "commit_each f [] bd = Some (Inr bd)"
| "commit_each f (h # hs) bd =
     (case f h bd of
        None \<Rightarrow> None
      | Some (Inl d) \<Rightarrow> Some (Inl d)
      | Some (Inr bd') \<Rightarrow> commit_each f hs bd')"

primrec commit :: "disk_writer \<Rightarrow> Database \<Rightarrow> nat \<Rightarrow> hash \<Rightarrow> batch \<times> disk \<Rightarrow> (disk + batch \<times> disk) option" where
  "commit disk_write db 0 hash bd = None"
| "commit disk_write db (Suc fuel) hash bd =
     (case entry db hash of
        None \<Rightarrow> Some (Inr bd)
      | Some node \<Rightarrow>
          (case cachedNode_childs node of
             None \<Rightarrow> None
           | Some childs \<Rightarrow>
               (case commit_each (commit disk_write db fuel) childs bd of
                  None \<Rightarrow> None
                | Some (Inl d) \<Rightarrow> Some (Inl d)
                | Some (Inr bd') \<Rightarrow> put_node disk_write hash node bd')))"

primrec uncache :: "nat \<Rightarrow> hash \<Rightarrow> Database \<Rightarrow> Database option" where
  "uncache 0 hash db = None"
| "uncache (Suc fuel) hash db =
     (case entry db hash of
        None \<Rightarrow> Some db
      | Some node \<Rightarrow>
          (case unlink_flush hash node db of
             None \<Rightarrow> None
           | Some db1 \<Rightarrow>
               (case cachedNode_childs node of
                  None \<Rightarrow> None
                | Some childs \<Rightarrow> map_option (drop_node hash node) (each_hash (uncache fuel) childs db1))))"

text \<open>The result of \<^verbatim>\<open>Commit\<close> says whether there was an error.\<close>

definition Database_Commit :: "disk_writer \<Rightarrow> nat \<Rightarrow> hash \<Rightarrow> Database \<Rightarrow> (bool \<times> Database) option" where
  "Database_Commit disk_write fuel node db =
     (case put_preimages disk_write (dPreimages db) ([], dDisk db) of
        Inl d \<Rightarrow> Some (True, db\<lparr>dDisk := d\<rparr>)
      | Inr bd \<Rightarrow>
          (case commit disk_write db fuel node bd of
             None \<Rightarrow> None
           | Some (Inl d) \<Rightarrow> Some (True, db\<lparr>dDisk := d\<rparr>)
           | Some (Inr (batch, d)) \<Rightarrow>
               (case disk_write d batch of
                  None \<Rightarrow> Some (True, db\<lparr>dDisk := d\<rparr>)
                | Some d' \<Rightarrow>
                    map_option (Pair False)
                      (uncache fuel node (db\<lparr>dDisk := d', dPreimages := [], dPreimagesSize := 0\<rparr>)))))"

text \<open>The flush loop of \<^verbatim>\<open>Cap\<close>; the result is the first node that stays.\<close>

primrec cap_flush :: "disk_writer \<Rightarrow> Database \<Rightarrow> int \<Rightarrow> nat \<Rightarrow> int \<Rightarrow> hash \<Rightarrow> batch \<times> disk \<Rightarrow>
    (disk + hash \<times> batch \<times> disk) option" where
  "cap_flush disk_write db limit 0 sz oldest bd = None"
| "cap_flush disk_write db limit (Suc fuel) sz oldest bd =
     (if sz > limit \<and> oldest \<noteq> 0 then
        (case entry db oldest of
           None \<Rightarrow> None
         | Some node \<Rightarrow>
             (case put_node disk_write oldest node bd of
                None \<Rightarrow> None
              | Some (Inl d) \<Rightarrow> Some (Inl d)
              | Some (Inr bd') \<Rightarrow>
                  cap_flush disk_write db limit fuel (sz - (3 * 32 + uint (cnSize node))) (cnFlushNext node) bd'))
      else Some (Inr (oldest, bd)))"

primrec cap_drop :: "nat \<Rightarrow> hash \<Rightarrow> Database \<Rightarrow> Database option" where
  "cap_drop 0 oldest db = None"
| "cap_drop (Suc fuel) oldest db =
     (if dOldest db \<noteq> oldest then
        (case entry db (dOldest db) of
           None \<Rightarrow> None
         | Some node \<Rightarrow> cap_drop fuel oldest ((drop_node (dOldest db) node db)\<lparr>dOldest := cnFlushNext node\<rparr>))
      else Some db)"

definition Database_Cap :: "disk_writer \<Rightarrow> nat \<Rightarrow> int \<Rightarrow> Database \<Rightarrow> (bool \<times> Database) option" where
  "Database_Cap disk_write fuel limit db =
     (let sz = dNodesSize db + int ((length (dNodes db) - 1) * 2 * 32);
          flushPreimages = dPreimagesSize db > 4 * 1024 * 1024
      in case (if flushPreimages then put_preimages disk_write (dPreimages db) ([], dDisk db) else Inr ([], dDisk db)) of
           Inl d \<Rightarrow> Some (True, db\<lparr>dDisk := d\<rparr>)
         | Inr bd \<Rightarrow>
             (case cap_flush disk_write db limit fuel sz (dOldest db) bd of
                None \<Rightarrow> None
              | Some (Inl d) \<Rightarrow> Some (True, db\<lparr>dDisk := d\<rparr>)
              | Some (Inr (oldest, batch, d)) \<Rightarrow>
                  (case disk_write d batch of
                     None \<Rightarrow> Some (True, db\<lparr>dDisk := d\<rparr>)
                   | Some d' \<Rightarrow>
                       let db1 = db\<lparr>dDisk := d'\<rparr>;
                           db2 = (if flushPreimages then db1\<lparr>dPreimages := [], dPreimagesSize := 0\<rparr> else db1)
                       in case cap_drop fuel oldest db2 of
                            None \<Rightarrow> None
                          | Some db3 \<Rightarrow>
                              map_option (Pair False)
                                (if dOldest db3 \<noteq> 0
                                 then on_node (dOldest db3) (\<lambda>n. n\<lparr>cnFlushPrev := 0\<rparr>) db3
                                 else Some db3))))"

definition Database_Size :: "Database \<Rightarrow> int \<times> int" where
  "Database_Size db = (dNodesSize db + int ((length (dNodes db) - 1) * 2 * 32), dPreimagesSize db)"

end
