(* ===== verification/Trie_Hash.thy ===== *)
theory Trie_Hash
  imports Trie_Database
begin

text \<open>
  The hasher of \<^verbatim>\<open>trie/hasher.go\<close> and \<^verbatim>\<open>Hash\<close> and \<^verbatim>\<open>Commit\<close> of \<^verbatim>\<open>trie/trie.go\<close>. Keccak is the argument
  \<open>keccak\<close>; a nil database is \<open>None\<close>; the fuel bounds the depth of the trie.
\<close>

type_synonym leaf_callback = "bytes \<Rightarrow> hash \<Rightarrow> Database \<Rightarrow> Database option"

definition nodeFlag_canUnload :: "nodeFlag \<Rightarrow> u16 \<Rightarrow> u16 \<Rightarrow> bool" where
  "nodeFlag_canUnload n cachegen cachelimit = (\<not> nfDirty n \<and> cachegen - nfGen n \<ge> cachelimit)"

fun canUnload :: "node \<Rightarrow> u16 \<Rightarrow> u16 \<Rightarrow> bool" where
  "canUnload (FullNode cs f) gen limit = nodeFlag_canUnload f gen limit"
| "canUnload (ShortNode k c f) gen limit = nodeFlag_canUnload f gen limit"
| "canUnload n gen limit = False"

fun node_cache :: "node \<Rightarrow> bytes option \<times> bool" where
  "node_cache (FullNode cs f) = (nfHash f, nfDirty f)"
| "node_cache (ShortNode k c f) = (nfHash f, nfDirty f)"
| "node_cache n = (None, True)"

definition makeHashNode :: "(bytes \<Rightarrow> hash) \<Rightarrow> bytes \<Rightarrow> bytes" where
  "makeHashNode keccak data = Hash_Bytes (keccak data)"

text \<open>The leaves a stored node reports to the callback.\<close>

primrec call_leaves :: "leaf_callback \<Rightarrow> hash \<Rightarrow> node list \<Rightarrow> Database \<Rightarrow> Database option" where
  "call_leaves onleaf hash [] db = Some db"
| "call_leaves onleaf hash (c # cs) db =
     (case c of
        ValueNode v \<Rightarrow> (case onleaf v hash db of None \<Rightarrow> None | Some db' \<Rightarrow> call_leaves onleaf hash cs db')
      | _ \<Rightarrow> call_leaves onleaf hash cs db)"

definition track_leaves :: "leaf_callback option \<Rightarrow> hash \<Rightarrow> node \<Rightarrow> Database \<Rightarrow> Database option" where
  "track_leaves onleaf hash n db =
     (case onleaf of
        None \<Rightarrow> Some db
      | Some f \<Rightarrow>
          (case n of
             ShortNode k c _ \<Rightarrow> call_leaves f hash [c] db
           | FullNode cs _ \<Rightarrow> call_leaves f hash (take 16 cs) db
           | _ \<Rightarrow> Some db))"

definition hasher_store :: "(bytes \<Rightarrow> hash) \<Rightarrow> leaf_callback option \<Rightarrow> node \<Rightarrow> Database option \<Rightarrow> bool \<Rightarrow>
    (node \<times> Database option) option" where
  "hasher_store keccak onleaf n db force =
     (if n = NilNode \<or> is_hash n then Some (n, db)
      else
        case Encode (node_item n) of
          None \<Rightarrow> None
        | Some tmp \<Rightarrow>
            if length tmp < 32 \<and> \<not> force then Some (n, db)
            else
              let hash = (case fst (node_cache n) of None \<Rightarrow> makeHashNode keccak tmp | Some h \<Rightarrow> h)
              in case db of
                   None \<Rightarrow> Some (HashNode hash, None)
                 | Some d \<Rightarrow>
                     (case Database_insert (BytesToHash hash) tmp (Inr n) d of
                        None \<Rightarrow> None
                      | Some d1 \<Rightarrow>
                          map_option (\<lambda>d2. (HashNode hash, Some d2)) (track_leaves onleaf (BytesToHash hash) n d1)))"

primrec hash_each :: "(node \<Rightarrow> Database option \<Rightarrow> (node \<times> node \<times> Database option) option) \<Rightarrow> node list \<Rightarrow>
    Database option \<Rightarrow> (node list \<times> node list \<times> Database option) option" where
  "hash_each h [] db = Some ([], [], db)"
| "hash_each h (c # cs) db =
     (case (if c = NilNode then Some (NilNode, NilNode, db) else h c db) of
        None \<Rightarrow> None
      | Some (x, y, db1) \<Rightarrow>
          (case hash_each h cs db1 of
             None \<Rightarrow> None
           | Some (xs, ys, db2) \<Rightarrow> Some (x # xs, y # ys, db2)))"

definition hashChildren :: "(node \<Rightarrow> Database option \<Rightarrow> (node \<times> node \<times> Database option) option) \<Rightarrow> node \<Rightarrow>
    Database option \<Rightarrow> (node \<times> node \<times> Database option) option" where
  "hashChildren h original db =
     (case original of
        ShortNode k c f \<Rightarrow>
          (case hexToCompact k of
             None \<Rightarrow> None
           | Some ck \<Rightarrow>
               (case c of
                  ValueNode v \<Rightarrow> Some (ShortNode ck c f, ShortNode k c f, db)
                | _ \<Rightarrow>
                    map_option (\<lambda>(x, y, db'). (ShortNode ck x f, ShortNode k y f, db'))
                      (if c = NilNode then None else h c db)))
      | FullNode cs f \<Rightarrow>
          map_option (\<lambda>(xs, ys, db'). (FullNode (xs @ drop 16 cs) f, FullNode (ys @ drop 16 cs) f, db'))
            (hash_each h (take 16 cs) db)
      | _ \<Rightarrow> Some (original, original, db))"

definition set_cached :: "bytes option \<Rightarrow> bool \<Rightarrow> nodeFlag \<Rightarrow> nodeFlag" where
  "set_cached hash stored f = (if stored then f\<lparr>nfHash := hash, nfDirty := False\<rparr> else f\<lparr>nfHash := hash\<rparr>)"

primrec hasher_hash :: "(bytes \<Rightarrow> hash) \<Rightarrow> leaf_callback option \<Rightarrow> u16 \<Rightarrow> u16 \<Rightarrow> nat \<Rightarrow> bool \<Rightarrow> node \<Rightarrow> Database option \<Rightarrow>
    (node \<times> node \<times> Database option) option" where
  "hasher_hash keccak onleaf cachegen cachelimit 0 force n db = None"
| "hasher_hash keccak onleaf cachegen cachelimit (Suc fuel) force n db =
     (let walk =
            (case hashChildren (hasher_hash keccak onleaf cachegen cachelimit fuel False) n db of
               None \<Rightarrow> None
             | Some (collapsed, cached, db1) \<Rightarrow>
                 (case hasher_store keccak onleaf collapsed db1 force of
                    None \<Rightarrow> None
                  | Some (hashed, db2) \<Rightarrow>
                      let cachedHash = (case hashed of HashNode h \<Rightarrow> Some h | _ \<Rightarrow> None);
                          cn = (case cached of
                                  ShortNode k c f \<Rightarrow> ShortNode k c (set_cached cachedHash (db \<noteq> None) f)
                                | FullNode cs f \<Rightarrow> FullNode cs (set_cached cachedHash (db \<noteq> None) f)
                                | _ \<Rightarrow> cached)
                      in Some (hashed, cn, db2)))
      in if n = NilNode then None
         else
           case fst (node_cache n) of
             None \<Rightarrow> walk
           | Some h \<Rightarrow>
               if db = None then Some (HashNode h, n, db)
               else if canUnload n cachegen cachelimit then Some (HashNode h, HashNode h, db)
               else if \<not> snd (node_cache n) then Some (HashNode h, n, db)
               else walk)"

definition hashRoot :: "(bytes \<Rightarrow> hash) \<Rightarrow> leaf_callback option \<Rightarrow> nat \<Rightarrow> Trie \<Rightarrow> Database option \<Rightarrow>
    (node \<times> node \<times> Database option) option" where
  "hashRoot keccak onleaf fuel t db =
     (if tRoot t = NilNode then Some (HashNode (Hash_Bytes emptyRoot), NilNode, db)
      else hasher_hash keccak onleaf (tCachegen t) (tCachelimit t) fuel True (tRoot t) db)"

definition Trie_Hash :: "(bytes \<Rightarrow> hash) \<Rightarrow> nat \<Rightarrow> Trie \<Rightarrow> (hash \<times> Trie) option" where
  "Trie_Hash keccak fuel t =
     (case hashRoot keccak None fuel t None of
        Some (HashNode h, cached, _) \<Rightarrow> Some (BytesToHash h, t\<lparr>tRoot := cached\<rparr>)
      | _ \<Rightarrow> None)"

definition Trie_Commit :: "(bytes \<Rightarrow> hash) \<Rightarrow> leaf_callback option \<Rightarrow> nat \<Rightarrow> Trie \<Rightarrow> Database \<Rightarrow>
    (hash \<times> Trie \<times> Database) option" where
  "Trie_Commit keccak onleaf fuel t db =
     (case hashRoot keccak onleaf fuel t (Some db) of
        Some (HashNode h, cached, Some db') \<Rightarrow>
          Some (BytesToHash h, t\<lparr>tRoot := cached, tCachegen := tCachegen t + 1\<rparr>, db')
      | _ \<Rightarrow> None)"

end
