(* ===== verification/Trie_Track.thy ===== *)
theory Trie_Track
  imports Trie_Hash
begin

text \<open>
  What the cached hashes of a trie mean: the relation \<open>tracks\<close> between nodes and tries that the operations and the
  hasher keep. Every cached hash is the hash of the encoding, and of a clean node or a hash node the source has all that
  is needed to load it again.
\<close>

section \<open>Hashes and bytes\<close>

lemma hash_bytes_step:
  fixes h :: hash
  assumes "n < 32"
  shows "push_bit 8 (drop_bit (8 * (32 - n)) h) OR ucast (ucast (drop_bit (8 * (31 - n)) h) :: u8) = drop_bit (8 * (31 - n)) h"
proof (rule bit_word_eqI)
  fix k
  assume "k < LENGTH(256)"
  moreover have "8 * (32 - n) + (k - 8) = 8 * (31 - n) + k" if "8 \<le> k" using assms that by auto
  ultimately show "bit (push_bit 8 (drop_bit (8 * (32 - n)) h) OR ucast (ucast (drop_bit (8 * (31 - n)) h) :: u8)) k \<longleftrightarrow>
      bit (drop_bit (8 * (31 - n)) h) k"
    by (cases "8 \<le> k") (auto simp: bit_simps)
qed

lemma BytesToHash_Hash_Bytes [simp]: "BytesToHash (Hash_Bytes h) = h"
proof -
  have "foldl (\<lambda>h x. push_bit 8 h OR ucast x) 0 (map (\<lambda>i. ucast (drop_bit (8 * (31 - i)) h) :: u8) [0..<n]) =
      drop_bit (8 * (32 - n)) h" if "n \<le> 32" for n
    using that
  proof (induction n)
    case 0
    show ?case by (simp add: drop_bit_word_beyond)
  next
    case (Suc n)
    then show ?case using hash_bytes_step [of n h] by simp
  qed
  from this [of 32] show ?thesis by (simp add: BytesToHash_def Hash_Bytes_def Let_def del: upt_rec_numeral)
qed

section \<open>What a source has to hold\<close>

fun subs :: "ptrie \<Rightarrow> ptrie set" where
  "subs (PShort k c) = insert (PShort k c) (subs c)"
| "subs (PFull cs) = insert (PFull cs) (\<Union>c \<in> set cs. subs c)"
| "subs t = {t}"

lemma subs_self [simp]: "t \<in> subs t"
  by (cases t) simp_all

abbreviation hash_of :: "(bytes \<Rightarrow> hash) \<Rightarrow> ptrie \<Rightarrow> bytes" where
  "hash_of keccak t \<equiv> Hash_Bytes (keccak (enc keccak t))"

abbreviation large :: "(bytes \<Rightarrow> hash) \<Rightarrow> ptrie \<Rightarrow> bool" where
  "large keccak t \<equiv> 32 \<le> length (enc keccak t)"

definition avail :: "(bytes \<Rightarrow> hash) \<Rightarrow> node_source \<Rightarrow> ptrie \<Rightarrow> bool" where
  "avail keccak src t =
     (\<forall>g. src (keccak (enc keccak t)) g = Some (Some (ref_node keccak g (Some (hash_of keccak t)) True t)))"

definition deep :: "(bytes \<Rightarrow> hash) \<Rightarrow> node_source \<Rightarrow> ptrie \<Rightarrow> bool" where
  "deep keccak src t = (\<forall>u \<in> subs t. wfs u \<longrightarrow> large keccak u \<longrightarrow> avail keccak src u)"

definition grows :: "node_source \<Rightarrow> node_source \<Rightarrow> bool" where
  "grows src src' = (\<forall>h g n. src h g = Some (Some n) \<longrightarrow> src' h g = Some (Some n))"

lemma grows_refl [simp]: "grows src src"
  by (simp add: grows_def)

lemma grows_trans [trans]: "grows a b \<Longrightarrow> grows b c \<Longrightarrow> grows a c"
  by (simp add: grows_def)

lemma avail_grows: "avail keccak src t \<Longrightarrow> grows src src' \<Longrightarrow> avail keccak src' t"
  by (simp add: avail_def grows_def)

lemma deep_grows: "deep keccak src t \<Longrightarrow> grows src src' \<Longrightarrow> deep keccak src' t"
  using avail_grows by (auto simp: deep_def)

lemma deep_child: "deep keccak src (PShort k c) \<Longrightarrow> deep keccak src c" "deep keccak src (PFull cs) \<Longrightarrow> c \<in> set cs \<Longrightarrow> deep keccak src c"
  by (auto simp: deep_def)

lemma full_kinds:
  assumes "wfs (PFull cs)" "c \<in> set cs"
  shows "c = PNil \<or> is_val c \<or> wfs c"
proof -
  obtain i where "i < 17" "c = cs ! i" using assms by (auto simp: in_set_conv_nth wfs_slots slots_def)
  then have "i < 16 \<or> i = 16" "c = cs ! i" by auto
  then show ?thesis using assms(1) unfolding wfs_PFull by blast
qed

section \<open>The relation\<close>

definition flag_ok :: "(bytes \<Rightarrow> hash) \<Rightarrow> node_source \<Rightarrow> bool \<Rightarrow> nodeFlag \<Rightarrow> ptrie \<Rightarrow> bool" where
  "flag_ok keccak src b f t =
     ((\<forall>h. nfHash f = Some h \<longrightarrow> h = hash_of keccak t \<and> (b \<or> large keccak t)) \<and>
      (\<not> nfDirty f \<longrightarrow>
         deep keccak src t \<and> (if nfHash f = None then \<not> b \<and> \<not> large keccak t else avail keccak src t)))"

inductive tracks :: "(bytes \<Rightarrow> hash) \<Rightarrow> node_source \<Rightarrow> bool \<Rightarrow> node \<Rightarrow> ptrie \<Rightarrow> bool"
    for keccak :: "bytes \<Rightarrow> hash" and src :: node_source where
  Nil: "tracks keccak src b NilNode PNil"
| Value: "tracks keccak src b (ValueNode v) (PVal v)"
| Short: "tracks keccak src False c t \<Longrightarrow> flag_ok keccak src b f (PShort k t) \<Longrightarrow>
    tracks keccak src b (ShortNode k c f) (PShort k t)"
| Full: "length cs = length ts \<Longrightarrow> \<forall>i < length cs. tracks keccak src False (cs ! i) (ts ! i) \<Longrightarrow>
    flag_ok keccak src b f (PFull ts) \<Longrightarrow> tracks keccak src b (FullNode cs f) (PFull ts)"
| Hash: "wfs t \<Longrightarrow> b \<or> large keccak t \<Longrightarrow> avail keccak src t \<Longrightarrow> deep keccak src t \<Longrightarrow> h = hash_of keccak t \<Longrightarrow>
    tracks keccak src b (HashNode h) t"

inductive_cases tracks_NilE: "tracks keccak src b NilNode t"
inductive_cases tracks_ValueE: "tracks keccak src b (ValueNode v) t"
inductive_cases tracks_ShortE: "tracks keccak src b (ShortNode k c f) t"
inductive_cases tracks_FullE: "tracks keccak src b (FullNode cs f) t"
inductive_cases tracks_HashE: "tracks keccak src b (HashNode h) t"

lemma flag_ok_grows: "flag_ok keccak src b f t \<Longrightarrow> grows src src' \<Longrightarrow> flag_ok keccak src' b f t"
  using avail_grows deep_grows by (auto simp: flag_ok_def)

lemma flag_ok_new [simp]: "flag_ok keccak src b (newFlag g) t"
  by (simp add: flag_ok_def newFlag_def)

lemma flag_ok_gen [simp]: "flag_ok keccak src b (f\<lparr>nfGen := g\<rparr>) t = flag_ok keccak src b f t"
  by (simp add: flag_ok_def)

lemma tracks_grows: "tracks keccak src b n t \<Longrightarrow> grows src src' \<Longrightarrow> tracks keccak src' b n t"
  by (induction rule: tracks.induct) (auto intro: tracks.intros flag_ok_grows avail_grows deep_grows)

lemma ref_node_tracks:
  "(c = PNil \<or> is_val c \<or> wfs c) \<Longrightarrow> deep keccak src c \<Longrightarrow>
     (w \<longrightarrow> h = Some (hash_of keccak c) \<and> avail keccak src c \<and> (b \<or> large keccak c)) \<Longrightarrow>
     (\<not> w \<longrightarrow> h = None \<and> \<not> b) \<Longrightarrow> tracks keccak src b (ref_node keccak g h w c) c"
proof (induction c arbitrary: w h b)
  case PNil
  then show ?case by (auto intro: tracks.intros)
next
  case (PVal v)
  then show ?case by (auto intro: tracks.intros)
next
  case (PShort k c)
  have w: "wfs (PShort k c)" using PShort.prems(1) by auto
  have c: "tracks keccak src False (ref_node keccak g None False c) c"
    using w PShort.prems(2) deep_child(1) by (intro PShort.IH) auto
  show ?case
  proof (cases "w \<or> \<not> large keccak (PShort k c)")
    case True
    then show ?thesis using c PShort.prems by (auto simp: flag_ok_def intro!: tracks.Short)
  next
    case False
    then have "avail keccak src (PShort k c)" using PShort.prems(2) w by (auto simp: deep_def)
    then show ?thesis using False w PShort.prems(2) by (auto intro!: tracks.Hash)
  qed
next
  case (PFull cs)
  have w: "wfs (PFull cs)" using PFull.prems(1) by auto
  have kinds: "c = PNil \<or> is_val c \<or> wfs c" if "c \<in> set cs" for c using full_kinds [OF w that] .
  have c: "tracks keccak src False (ref_node keccak g None False c) c" if "c \<in> set cs" for c
    using that kinds PFull.prems(2) deep_child(2) by (intro PFull.IH) auto
  show ?case
  proof (cases "w \<or> \<not> large keccak (PFull cs)")
    case True
    then show ?thesis using c PFull.prems by (auto simp: flag_ok_def intro!: tracks.Full)
  next
    case False
    then have "avail keccak src (PFull cs)" using PFull.prems(2) w by (auto simp: deep_def)
    then show ?thesis using False w PFull.prems(2) by (auto intro!: tracks.Hash)
  qed
qed

interpretation track: node_relation src "tracks keccak src" for keccak src
proof
  fix b h t g p
  assume "tracks keccak src b (HashNode h) t"
  then show "\<exists>n. resolveHash src g h p = Some (Inr n) \<and> is_inner n \<and> tracks keccak src b n t"
  proof (rule tracks_HashE)
    assume a: "wfs t" "b \<or> large keccak t" "avail keccak src t" "deep keccak src t" "h = hash_of keccak t"
    let ?n = "ref_node keccak g (Some h) True t"
    have "resolveHash src g h p = Some (Inr ?n)" using a(3,5) by (simp add: resolveHash_def avail_def)
    moreover have "is_inner ?n" using a(1) by (cases t) auto
    moreover have "tracks keccak src b ?n t" using a by (intro ref_node_tracks) auto
    ultimately show ?thesis by blast
  qed
next
  show "tracks keccak src b (FullNode cs f) (PFull ts) \<Longrightarrow> tracks keccak src False c' (ts ! i) \<Longrightarrow>
      tracks keccak src b (FullNode (cs[i := c']) (f\<lparr>nfGen := g\<rparr>)) (PFull ts)" for b cs f ts c' i g
    by (erule tracks_FullE) (cases "i < length cs"; auto simp: nth_list_update intro!: tracks.Full)
next
  show "tracks keccak src b (ShortNode k c f) (PShort k t) \<Longrightarrow> tracks keccak src False c' t \<Longrightarrow>
      tracks keccak src b (ShortNode k c' (f\<lparr>nfGen := g\<rparr>)) (PShort k t)" for b k c f t c' g
    by (erule tracks_ShortE) (auto intro!: tracks.Short)
qed (auto intro: tracks.intros elim: tracks_ShortE tracks_FullE tracks_NilE tracks_ValueE elim: tracks.cases)

section \<open>Collapsed nodes\<close>

text \<open>The raw form of a trie: what \<^verbatim>\<open>simplifyNode\<close> makes of the collapsed node and \<^verbatim>\<open>expandNode\<close> reads.\<close>

fun rn :: "(bytes \<Rightarrow> hash) \<Rightarrow> bool \<Rightarrow> ptrie \<Rightarrow> rnode" where
  "rn keccak w PNil = RNil"
| "rn keccak w (PVal v) = RValue v"
| "rn keccak w (PShort k c) =
     (if w \<or> \<not> large keccak (PShort k c) then RShort (compact k) (rn keccak False c) else RHash (hash_of keccak (PShort k c)))"
| "rn keccak w (PFull cs) =
     (if w \<or> \<not> large keccak (PFull cs) then RFull (map (rn keccak False) cs) else RHash (hash_of keccak (PFull cs)))"

lemma rn_nil [simp]: "rn keccak w t = RNil \<longleftrightarrow> t = PNil"
  by (cases t) auto

lemma those_map_Some: "(\<forall>x \<in> set xs. f x = Some (g x)) \<Longrightarrow> those (map f xs) = Some (map g xs)"
  by (induction xs) auto

lemma expand_rn:
  "t = PNil \<and> \<not> w \<or> is_val t \<or> wfs t \<Longrightarrow> t \<noteq> PNil \<Longrightarrow>
   expandNode h (rn keccak w t) g = Some (ref_node keccak g h w t)"
proof (induction t arbitrary: w h)
  case (PShort k c)
  have w: "wfs (PShort k c)" using PShort.prems by simp
  then have "c \<noteq> PNil" "is_val c \<or> wfs c" "compactToHex (compact k) = Some k"
    using hex_key_wfs compact_inverse by auto
  then show ?case using PShort.IH [of False None] by auto
next
  case (PFull cs)
  have w: "wfs (PFull cs)" using PFull.prems by simp
  have "those (map ((\<lambda>c. if c = RNil then Some NilNode else expandNode None c g) \<circ> rn keccak False) cs) =
      Some (map (ref_node keccak g None False) cs)"
    using full_kinds [OF w] PFull.IH by (intro those_map_Some) auto
  then show ?case by simp
qed auto

lemma those_not_None: "(\<forall>x \<in> set xs. f x \<noteq> None) \<Longrightarrow> those (map f xs) \<noteq> None"
  by (induction xs) auto

lemma those_Some: "those xs = Some ys \<Longrightarrow> xs = map Some ys"
  by (induction xs arbitrary: ys) (auto split: option.splits)

lemma gather_rn: "gatherChildren (rn keccak w t) \<noteq> None"
proof (induction t arbitrary: w)
  case (PFull cs)
  have "those (map gatherChildren (take 16 (map (rn keccak False) cs))) \<noteq> None"
    using PFull.IH by (intro those_not_None) (auto dest!: in_set_takeD)
  then show ?case by simp
qed auto

lemma simplify_item: "simplifyNode x = Some r \<Longrightarrow> node_item x = rnode_item r \<and> r \<noteq> RNil"
proof (induction x arbitrary: r rule: simplifyNode.induct)
  case (2 cs f)
  then obtain rs where rs: "map (\<lambda>c. if c = NilNode then Some RNil else simplifyNode c) cs = map Some rs" "r = RFull rs"
    by (auto dest: those_Some)
  have "map (\<lambda>c. if c = NilNode then Str [] else node_item c) cs = map (\<lambda>c. if c = RNil then Str [] else rnode_item c) rs"
  proof (rule nth_equalityI)
    show l: "length (map (\<lambda>c. if c = NilNode then Str [] else node_item c) cs) =
        length (map (\<lambda>c. if c = RNil then Str [] else rnode_item c) rs)"
      using arg_cong [OF rs(1), of length] by simp
    fix i
    assume "i < length (map (\<lambda>c. if c = NilNode then Str [] else node_item c) cs)"
    then have i: "i < length cs" "i < length rs" using l by simp_all
    have e: "(if cs ! i = NilNode then Some RNil else simplifyNode (cs ! i)) = Some (rs ! i)"
      using arg_cong [OF rs(1), of "\<lambda>xs. xs ! i"] i by simp
    then show "map (\<lambda>c. if c = NilNode then Str [] else node_item c) cs ! i =
        map (\<lambda>c. if c = RNil then Str [] else rnode_item c) rs ! i"
      using i "2.IH" [OF nth_mem [OF i(1)]] by (auto split: if_splits)
  qed
  then show ?case using rs(2) by simp
qed auto

lemma child_item_nil: "child_item keccak PNil = Str []"
  by (simp add: child_item_def)

lemma rnode_item_rn:
  "is_val t \<or> wfs t \<Longrightarrow> rnode_item (rn keccak w t) = (if w then enc_item keccak t else child_item keccak t)"
proof (induction t arbitrary: w)
  case (PVal v)
  then show ?case by (simp add: child_item_def)
next
  case (PShort k c)
  have w: "wfs (PShort k c)" using PShort.prems by simp
  then have c: "c \<noteq> PNil" "is_val c \<or> wfs c" by auto
  have "Lst [Str (compact k), rnode_item (rn keccak False c)] = enc_item keccak (PShort k c)"
    using PShort.IH [OF c(2)] enc_item_short [OF c(1)] by simp
  then show ?case by (auto simp: child_item_def ref_item_def)
next
  case (PFull cs)
  have w: "wfs (PFull cs)" using PFull.prems by simp
  have "map ((\<lambda>c. if c = RNil then Str [] else rnode_item c) \<circ> rn keccak False) cs = map (child_item keccak) cs"
  proof (intro map_cong refl)
    fix c
    assume c: "c \<in> set cs"
    show "((\<lambda>c. if c = RNil then Str [] else rnode_item c) \<circ> rn keccak False) c = child_item keccak c"
      using full_kinds [OF w c] PFull.IH [OF c, of False] by (cases "c = PNil") (simp_all add: child_item_nil)
  qed
  then have "Lst (map ((\<lambda>c. if c = RNil then Str [] else rnode_item c) \<circ> rn keccak False) cs) = enc_item keccak (PFull cs)"
    by (simp add: enc_item_full)
  then show ?case by (auto simp: child_item_def ref_item_def)
qed auto

section \<open>Databases whose content is keyed by its hash\<close>

text \<open>
  \<open>C\<close> is a set of byte strings without collisions under \<open>keccak\<close>; the database holds only members of it, each under
  its hash.
\<close>

definition no_collision :: "(bytes \<Rightarrow> hash) \<Rightarrow> bytes set \<Rightarrow> bool" where
  "no_collision keccak C = (\<forall>x \<in> C. keccak x \<noteq> 0 \<and> keccak x \<noteq> emptyRoot \<and> length x < 2 ^ 63 - 9 \<and> (\<forall>y \<in> C. keccak x = keccak y \<longrightarrow> x = y))"

definition entry_ok :: "(bytes \<Rightarrow> hash) \<Rightarrow> bytes set \<Rightarrow> hash \<Rightarrow> rnode \<Rightarrow> bool" where
  "entry_ok keccak C h r =
     ((\<exists>blob \<in> C. keccak blob = h \<and> r = RawNode blob) \<or>
      (\<exists>u. wfs u \<and> enc keccak u \<in> C \<and> keccak (enc keccak u) = h \<and> r = rn keccak True u))"

definition db_ok :: "(bytes \<Rightarrow> hash) \<Rightarrow> bytes set \<Rightarrow> Database \<Rightarrow> bool" where
  "db_ok keccak C d =
     ((\<forall>h e. entry d h = Some e \<longrightarrow> h \<noteq> 0 \<longrightarrow> entry_ok keccak C h (cnNode e)) \<and>
      (\<forall>h blob. dDisk d (Hash_Bytes h) = Some blob \<longrightarrow> blob \<in> C \<and> keccak blob = h) \<and>
      (dOldest d \<noteq> 0 \<longrightarrow> entry d (dNewest d) \<noteq> None))"

definition same_content :: "Database \<Rightarrow> Database \<Rightarrow> bool" where
  "same_content d d' =
     (dDisk d' = dDisk d \<and> (\<forall>h. map_option cnNode (entry d' h) = map_option cnNode (entry d h)))"

lemma obj_content: "cnNode e = cnNode e' \<Longrightarrow> cachedNode_obj h g e = cachedNode_obj h g e'"
  by (simp add: cachedNode_obj_def)

lemma same_content_node:
  assumes "same_content d d'"
  shows "Database_node d' = Database_node d"
proof (intro ext)
  fix h g
  have "map_option cnNode (entry d' h) = map_option cnNode (entry d h)" "dDisk d' = dDisk d"
    using assms by (auto simp: same_content_def)
  then show "Database_node d' h g = Database_node d h g"
    by (cases "entry d h"; cases "entry d' h") (auto simp: Database_node_def intro!: arg_cong [of _ _ "map_option Some"] obj_content)
qed

lemma decode_must:
  assumes "wfs t" "length (enc keccak t) < 2 ^ 63 - 9"
  shows "mustDecodeNode (Suc (length (enc keccak t))) h (enc keccak t) g = Some (ref_node keccak g h True t)"
  using decodeNode_enc [OF assms(1), of keccak "Suc (length (enc keccak t))" "[]" h g] assms(2) by (simp add: mustDecodeNode_def)

lemma obj_rn: "wfs u \<Longrightarrow> cnNode e = rn keccak True u \<Longrightarrow> cachedNode_obj h g e = Some (ref_node keccak g (Some (Hash_Bytes h)) True u)"
  using expand_rn [of u True "Some (Hash_Bytes h)" keccak g] by (cases u) (auto simp: cachedNode_obj_def)

lemma enc_determines:
  assumes "wfs t" "wfs u" "enc keccak t = enc keccak u" "length (enc keccak t) < 2 ^ 63 - 9"
  shows "ref_node keccak g h True t = ref_node keccak g h True u"
  using decode_must [OF assms(1,4), of h g] decode_must [OF assms(2), of keccak h g] assms(3,4) by simp

text \<open>Whatever the database has under the hash of a trie's encoding reads as that trie.\<close>

lemma db_ok_reads:
  assumes d: "db_ok keccak C d" and C: "no_collision keccak C" and t: "wfs t" "enc keccak t \<in> C"
    and some: "entry d (keccak (enc keccak t)) \<noteq> None \<or> dDisk d (hash_of keccak t) \<noteq> None"
  shows "avail keccak (Database_node d) t"
  unfolding avail_def
proof
  fix g
  let ?h = "keccak (enc keccak t)"
  have len: "length (enc keccak t) < 2 ^ 63 - 9" and nz: "?h \<noteq> 0" using C t(2) by (auto simp: no_collision_def)
  have inj: "x = enc keccak t" if "x \<in> C" "keccak x = ?h" for x using C t(2) that by (auto simp: no_collision_def)
  show "Database_node d ?h g = Some (Some (ref_node keccak g (Some (hash_of keccak t)) True t))"
  proof (cases "entry d ?h")
    case None
    then obtain blob where "dDisk d (hash_of keccak t) = Some blob" using some by auto
    moreover then have "blob = enc keccak t" using d inj by (auto simp: db_ok_def)
    ultimately show ?thesis using None decode_must [OF t(1) len] by (simp add: Database_node_def)
  next
    case (Some e)
    then consider blob where "blob \<in> C" "keccak blob = ?h" "cnNode e = RawNode blob"
      | u where "wfs u" "enc keccak u \<in> C" "keccak (enc keccak u) = ?h" "cnNode e = rn keccak True u"
      using d nz unfolding db_ok_def entry_ok_def by blast
    then show ?thesis
    proof cases
      case 1
      then show ?thesis using Some inj [of blob] decode_must [OF t(1) len] by (simp add: Database_node_def cachedNode_obj_def)
    next
      case (2 u)
      then have "enc keccak u = enc keccak t" using inj by blast
      then show ?thesis using Some obj_rn [OF 2(1,4)] enc_determines [OF t(1) 2(1) _ len] by (simp add: Database_node_def)
    qed
  qed
qed

section \<open>Inserting into the database\<close>

lemma entry_set_entry: "entry (set_entry h n d) h' = (if h' = h then Some n else entry d h')"
  by (simp add: entry_def set_entry_def update_conv')

lemma entry_same:
  "entry d x = Some n \<Longrightarrow> cnNode n' = cnNode n \<Longrightarrow> map_option cnNode (entry (set_entry x n' d) y) = map_option cnNode (entry d y)"
  by (simp add: entry_set_entry)

lemma entry_update_simps [simp]:
  "entry (d\<lparr>dNodesSize := z\<rparr>) h = entry d h" "entry (d\<lparr>dNewest := x\<rparr>) h = entry d h"
  "entry (d\<lparr>dOldest := x\<rparr>) h = entry d h" "entry (d\<lparr>dDisk := k\<rparr>) h = entry d h"
  by (simp_all add: entry_def)

lemma set_entry_simps [simp]:
  "dDisk (set_entry h n d) = dDisk d" "dOldest (set_entry h n d) = dOldest d" "dNewest (set_entry h n d) = dNewest d"
  by (simp_all add: set_entry_def)

lemma count_parents_keep:
  "dDisk (fold count_parent cs d) = dDisk d \<and> dOldest (fold count_parent cs d) = dOldest d \<and>
   dNewest (fold count_parent cs d) = dNewest d \<and>
   (\<forall>h. map_option cnNode (entry (fold count_parent cs d) h) = map_option cnNode (entry d h))"
proof (induction cs arbitrary: d)
  case (Cons c cs)
  have "dDisk (count_parent c d) = dDisk d \<and> dOldest (count_parent c d) = dOldest d \<and>
      dNewest (count_parent c d) = dNewest d \<and> (\<forall>h. map_option cnNode (entry (count_parent c d) h) = map_option cnNode (entry d h))"
    by (auto simp: count_parent_def entry_set_entry split: option.splits)
  then show ?case using Cons.IH [of "count_parent c d"] by simp
qed simp

lemma insert_new:
  assumes "entry d h = None" "simplify nd = Some r" "\<And>e. cnNode e = r \<Longrightarrow> cachedNode_childs e \<noteq> None"
    and "dOldest d \<noteq> 0 \<longrightarrow> entry d (dNewest d) \<noteq> None"
  obtains d' where "Database_insert h blob nd d = Some d'" "dDisk d' = dDisk d"
    "\<And>x. map_option cnNode (entry d' x) = (if x = h then Some r else map_option cnNode (entry d x))"
    "dOldest d' \<noteq> 0 \<longrightarrow> entry d' (dNewest d') \<noteq> None"
proof -
  let ?e = "\<lparr>cnNode = r, cnSize = of_nat (length blob), cnParents = 0, cnChildren = [], cnFlushPrev = dNewest d, cnFlushNext = 0\<rparr>"
  obtain cs where cs: "cachedNode_childs ?e = Some cs" using assms(3) [of ?e] by auto
  let ?d2 = "set_entry h ?e (fold count_parent cs d)"
  note k = count_parents_keep [of cs d]
  have e2: "map_option cnNode (entry ?d2 x) = (if x = h then Some r else map_option cnNode (entry d x))" for x
    using k by (simp add: entry_set_entry)
  show ?thesis
  proof (cases "dOldest d = 0")
    case True
    show ?thesis
      by (rule that [of "?d2\<lparr>dOldest := h, dNewest := h, dNodesSize := dNodesSize (?d2\<lparr>dOldest := h, dNewest := h\<rparr>) + uint (32 + cnSize ?e)\<rparr>"])
         (use assms cs True k e2 in \<open>simp_all add: Database_insert_def Let_def entry_set_entry\<close>)
  next
    case False
    then obtain n where n: "entry ?d2 (dNewest ?d2) = Some n"
      using assms(1,4) e2 [of "dNewest d"] k by (cases "entry ?d2 (dNewest ?d2)") (auto split: if_splits)
    let ?d3 = "(set_entry (dNewest ?d2) (n\<lparr>cnFlushNext := h\<rparr>) ?d2)\<lparr>dNewest := h\<rparr>"
    have e3: "map_option cnNode (entry ?d3 x) = (if x = h then Some r else map_option cnNode (entry d x))" for x
      using e2 [of x] entry_same [OF n, of "n\<lparr>cnFlushNext := h\<rparr>" x] by simp
    show ?thesis
      by (rule that [of "?d3\<lparr>dNodesSize := dNodesSize ?d3 + uint (32 + cnSize ?e)\<rparr>"])
         (use assms cs False k e3 n in \<open>simp_all add: Database_insert_def Let_def on_node_def, auto simp: entry_set_entry\<close>)
  qed
qed

lemma childs_rn: "cnNode e = rn keccak True t \<Longrightarrow> wfs t \<Longrightarrow> cachedNode_childs e \<noteq> None"
  using gather_rn [of keccak True t] by (cases t) (auto simp: cachedNode_childs_def)

lemma insert_ok:
  assumes d: "db_ok keccak C d" and C: "no_collision keccak C" and t: "wfs t" "enc keccak t \<in> C"
    and x: "simplifyNode x = Some (rn keccak True t)"
  obtains d' where "Database_insert (keccak (enc keccak t)) (enc keccak t) (Inr x) d = Some d'" "db_ok keccak C d'"
    "entry d' (keccak (enc keccak t)) \<noteq> None" "grows (Database_node d) (Database_node d')" "avail keccak (Database_node d') t"
proof (cases "entry d (keccak (enc keccak t)) = None")
  case False
  then show ?thesis using that [of d] d db_ok_reads [OF d C t] by (simp add: Database_insert_def)
next
  case True
  let ?h = "keccak (enc keccak t)"
  have nz: "?h \<noteq> 0" using C t(2) by (auto simp: no_collision_def)
  obtain d' where d': "Database_insert ?h (enc keccak t) (Inr x) d = Some d'" "dDisk d' = dDisk d"
      "\<And>y. map_option cnNode (entry d' y) = (if y = ?h then Some (rn keccak True t) else map_option cnNode (entry d y))"
      "dOldest d' \<noteq> 0 \<longrightarrow> entry d' (dNewest d') \<noteq> None"
    using insert_new [OF True, of "Inr x" "rn keccak True t" "enc keccak t"] childs_rn [OF _ t(1), of _ keccak] x d
    by (auto simp: simplify_def db_ok_def)
  have ok: "db_ok keccak C d'"
    unfolding db_ok_def
  proof (intro conjI allI impI)
    show "entry d' (dNewest d') \<noteq> None" if "dOldest d' \<noteq> 0" using d'(4) that by blast
  next
    fix h e
    assume e: "entry d' h = Some e" "h \<noteq> 0"
    show "entry_ok keccak C h (cnNode e)"
    proof (cases "h = ?h")
      case True
      then have "cnNode e = rn keccak True t" using d'(3) [of h] e by simp
      then show ?thesis using True t unfolding entry_ok_def by blast
    next
      case False
      then obtain e0 where "entry d h = Some e0" "cnNode e0 = cnNode e" using d'(3) [of h] e by (cases "entry d h") auto
      then show ?thesis using d e(2) unfolding db_ok_def by metis
    qed
  next
    fix h blob
    assume "dDisk d' (Hash_Bytes h) = Some blob"
    then show "blob \<in> C" "keccak blob = h" using d d'(2) unfolding db_ok_def by metis+
  qed
  have some: "entry d' ?h \<noteq> None" using d'(3) [of ?h] by (cases "entry d' ?h") auto
  have av: "avail keccak (Database_node d') t" using db_ok_reads [OF ok C t] some by blast
  have "grows (Database_node d) (Database_node d')"
    unfolding grows_def
  proof (intro allI impI)
    fix h g n
    assume n: "Database_node d h g = Some (Some n)"
    show "Database_node d' h g = Some (Some n)"
    proof (cases "h = ?h")
      case True
      have "dDisk d (hash_of keccak t) \<noteq> None"
        using n True \<open>entry d ?h = None\<close> by (auto simp: Database_node_def split: option.splits)
      then have "avail keccak (Database_node d) t" using db_ok_reads [OF d C t] by blast
      then show ?thesis using av n True by (simp add: avail_def)
    next
      case False
      then have "map_option cnNode (entry d' h) = map_option cnNode (entry d h)" using d'(3) [of h] by simp
      then have "Database_node d' h g = Database_node d h g"
        using d'(2) by (cases "entry d h"; cases "entry d' h")
          (auto simp: Database_node_def intro!: arg_cong [of _ _ "map_option Some"] obj_content)
      then show ?thesis using n by simp
    qed
  qed
  then show ?thesis using that d'(1) ok some av by blast
qed

definition leaf_ok :: "(bytes \<Rightarrow> hash) \<Rightarrow> bytes set \<Rightarrow> leaf_callback option \<Rightarrow> bool" where
  "leaf_ok keccak C onleaf =
     (\<forall>f v h d. onleaf = Some f \<longrightarrow> db_ok keccak C d \<longrightarrow> entry d h \<noteq> None \<longrightarrow>
        (\<exists>d'. f v h d = Some d' \<and> db_ok keccak C d' \<and> same_content d d'))"

lemma same_content_entry: "same_content d d' \<Longrightarrow> entry d' h = None \<longleftrightarrow> entry d h = None"
  unfolding same_content_def by (metis option.map_disc_iff)

lemma same_content_refl: "same_content d d"
  by (simp add: same_content_def)

lemma same_content_trans: "same_content a b \<Longrightarrow> same_content b c \<Longrightarrow> same_content a c"
  by (simp add: same_content_def)

lemma call_leaves_ok:
  "leaf_ok keccak C (Some f) \<Longrightarrow> db_ok keccak C d \<Longrightarrow> entry d h \<noteq> None \<Longrightarrow>
   \<exists>d'. call_leaves f h cs d = Some d' \<and> db_ok keccak C d' \<and> same_content d d'"
proof (induction cs arbitrary: d)
  case Nil
  then show ?case by (simp add: same_content_def)
next
  case (Cons c cs)
  show ?case
  proof (cases c)
    case (ValueNode v)
    obtain d1 where d1: "f v h d = Some d1" "db_ok keccak C d1" "same_content d d1"
      using Cons.prems unfolding leaf_ok_def by blast
    then have "entry d1 h \<noteq> None" using Cons.prems(3) same_content_entry [OF d1(3)] by simp
    then obtain d2 where "call_leaves f h cs d1 = Some d2" "db_ok keccak C d2" "same_content d1 d2"
      using Cons.IH [OF Cons.prems(1) d1(2)] by blast
    then show ?thesis using ValueNode d1 same_content_trans by auto
  qed (use Cons in auto)
qed

lemma track_leaves_ok:
  assumes "leaf_ok keccak C onleaf" "db_ok keccak C d" "entry d h \<noteq> None"
  shows "\<exists>d'. track_leaves onleaf h n d = Some d' \<and> db_ok keccak C d' \<and> same_content d d'"
proof (cases onleaf)
  case None
  then show ?thesis using assms(2) by (simp add: track_leaves_def same_content_def)
next
  case (Some f)
  then show ?thesis using assms(2) call_leaves_ok [OF _ assms(2,3), of f] assms(1)
    by (cases n) (auto simp: track_leaves_def same_content_refl simp del: call_leaves.simps)
qed

section \<open>Hashing\<close>

text \<open>The source behind an optional database, and what is required of the database.\<close>

definition src_of :: "node_source \<Rightarrow> Database option \<Rightarrow> node_source" where
  "src_of src db = (case db of None \<Rightarrow> src | Some d \<Rightarrow> Database_node d)"

definition opt_ok :: "(bytes \<Rightarrow> hash) \<Rightarrow> bytes set \<Rightarrow> Database option \<Rightarrow> bool" where
  "opt_ok keccak C db = (case db of None \<Rightarrow> True | Some d \<Rightarrow> db_ok keccak C d \<and> no_collision keccak C)"

definition bounded :: "bytes set \<Rightarrow> bool" where
  "bounded C = (\<forall>x \<in> C. length x < 2 ^ 63 - 9)"

lemma no_collision_bounded: "no_collision keccak C \<Longrightarrow> bounded C"
  by (simp add: no_collision_def bounded_def)

lemma Encode_enc:
  assumes "bounded C" "wfs t" "enc keccak t \<in> C" "simplifyNode x = Some (rn keccak True t)"
  shows "Encode (node_item x) = Some (enc keccak t)"
proof -
  have "node_item x = enc_item keccak t" using simplify_item [OF assms(4)] rnode_item_rn [of t keccak True] assms(2) by simp
  moreover have "length (enc keccak t) < 2 ^ 64" using assms(1,3) by (force simp: bounded_def)
  ultimately show ?thesis using Encode_rlp by simp
qed

text \<open>The outcome of hashing a node that stands for \<open>t\<close>.\<close>

definition hashed_as :: "(bytes \<Rightarrow> hash) \<Rightarrow> bool \<Rightarrow> node \<Rightarrow> ptrie \<Rightarrow> bool" where
  "hashed_as keccak force x t =
     (if force \<or> large keccak t then x = HashNode (hash_of keccak t)
      else \<not> is_hash x \<and> simplifyNode x = Some (rn keccak False t))"

definition settled :: "(bytes \<Rightarrow> hash) \<Rightarrow> bytes set \<Rightarrow> node_source \<Rightarrow> Database option \<Rightarrow> Database option \<Rightarrow> bool" where
  "settled keccak C src db db' =
     (opt_ok keccak C db' \<and> (db' = None \<longleftrightarrow> db = None) \<and> grows (src_of src db) (src_of src db'))"

lemma settled_refl: "opt_ok keccak C db \<Longrightarrow> settled keccak C src db db"
  by (simp add: settled_def)

lemma settled_trans: "settled keccak C src a b \<Longrightarrow> settled keccak C src b c \<Longrightarrow> settled keccak C src a c"
  using grows_trans unfolding settled_def by blast

lemma rn_small: "\<not> large keccak t \<Longrightarrow> rn keccak True t = rn keccak False t"
  by (cases t) auto

lemma store_ok:
  assumes C: "bounded C" and leafs: "leaf_ok keccak C onleaf" and db: "opt_ok keccak C db"
    and t: "wfs t" "enc keccak t \<in> C" and x: "simplifyNode x = Some (rn keccak True t)"
    and h: "\<forall>h. fst (node_cache x) = Some h \<longrightarrow> h = hash_of keccak t"
  obtains y db' where "hasher_store keccak onleaf x db force = Some (y, db')" "settled keccak C src db db'"
    "hashed_as keccak force y t" "db \<noteq> None \<longrightarrow> force \<or> large keccak t \<longrightarrow> avail keccak (src_of src db') t"
proof -
  have nh: "x \<noteq> NilNode" "\<not> is_hash x" using x t(1) by (cases x; cases t; auto)+
  note e = Encode_enc [OF C t x]
  show ?thesis
  proof (cases "force \<or> large keccak t")
    case False
    then show ?thesis using that [of x db] nh e x db settled_refl rn_small [of keccak t]
      by (auto simp: hasher_store_def hashed_as_def)
  next
    case True
    have hh: "(case fst (node_cache x) of None \<Rightarrow> makeHashNode keccak (enc keccak t) | Some h \<Rightarrow> h) = hash_of keccak t"
      using h by (auto simp: makeHashNode_def split: option.splits)
    show ?thesis
    proof (cases db)
      case None
      then show ?thesis using that [of "HashNode (hash_of keccak t)" None] nh e True hh settled_refl [OF db]
        by (auto simp: hasher_store_def hashed_as_def)
    next
      case (Some d)
      then have d: "db_ok keccak C d" and nc: "no_collision keccak C" using db by (simp_all add: opt_ok_def)
      obtain d1 where d1: "Database_insert (keccak (enc keccak t)) (enc keccak t) (Inr x) d = Some d1" "db_ok keccak C d1"
          "entry d1 (keccak (enc keccak t)) \<noteq> None" "grows (Database_node d) (Database_node d1)" "avail keccak (Database_node d1) t"
        using insert_ok [OF d nc t x] .
      obtain d2 where d2: "track_leaves onleaf (keccak (enc keccak t)) x d1 = Some d2" "db_ok keccak C d2" "same_content d1 d2"
        using track_leaves_ok [OF leafs d1(2,3)] by blast
      have "Database_node d2 = Database_node d1" by (rule same_content_node [OF d2(3)])
      then show ?thesis
        using that [of "HashNode (hash_of keccak t)" "Some d2"] nh e True hh Some d1 d2 nc
        by (auto simp: hasher_store_def hashed_as_def settled_def opt_ok_def src_of_def)
    qed
  qed
qed

definition outcome :: "(bytes \<Rightarrow> hash) \<Rightarrow> bytes set \<Rightarrow> node_source \<Rightarrow> bool \<Rightarrow> ptrie \<Rightarrow> Database option \<Rightarrow>
    node \<times> node \<times> Database option \<Rightarrow> bool" where
  "outcome keccak C src b t db r =
     (case r of (x, y, db') \<Rightarrow>
        settled keccak C src db db' \<and> tracks keccak (src_of src db') b y t \<and> hashed_as keccak b x t \<and>
        (db \<noteq> None \<longrightarrow> deep keccak (src_of src db') t \<and> (b \<or> large keccak t \<longrightarrow> avail keccak (src_of src db') t)))"

definition encs_in :: "(bytes \<Rightarrow> hash) \<Rightarrow> bytes set \<Rightarrow> ptrie \<Rightarrow> bool" where
  "encs_in keccak C t = (\<forall>u \<in> subs t. wfs u \<longrightarrow> enc keccak u \<in> C)"

lemma encs_in_child:
  "encs_in keccak C (PShort k c) \<Longrightarrow> encs_in keccak C c"
  "encs_in keccak C (PFull cs) \<Longrightarrow> c \<in> set cs \<Longrightarrow> encs_in keccak C c"
  by (auto simp: encs_in_def)

lemma deep_parent:
  "deep keccak src c \<Longrightarrow> (large keccak (PShort k c) \<longrightarrow> avail keccak src (PShort k c)) \<Longrightarrow> deep keccak src (PShort k c)"
  "\<forall>c \<in> set cs. deep keccak src c \<Longrightarrow> (large keccak (PFull cs) \<longrightarrow> avail keccak src (PFull cs)) \<Longrightarrow> deep keccak src (PFull cs)"
  by (auto simp: deep_def)

lemma hashed_as_simplify: "hashed_as keccak False x t \<Longrightarrow> wfs t \<Longrightarrow> x \<noteq> NilNode \<and> simplifyNode x = Some (rn keccak False t)"
  by (cases t) (auto simp: hashed_as_def split: if_splits)

definition hashes :: "(bytes \<Rightarrow> hash) \<Rightarrow> bytes set \<Rightarrow> node_source \<Rightarrow> nat \<Rightarrow>
    (node \<Rightarrow> Database option \<Rightarrow> (node \<times> node \<times> Database option) option) \<Rightarrow> bool" where
  "hashes keccak C src k h =
     (\<forall>n t db. tracks keccak (src_of src db) False n t \<longrightarrow> wfs t \<longrightarrow> size n < k \<longrightarrow> encs_in keccak C t \<longrightarrow>
        opt_ok keccak C db \<longrightarrow> (\<exists>r. h n db = Some r \<and> outcome keccak C src False t db r))"

lemma hash_each_ok:
  assumes h: "hashes keccak C src k h"
  shows "list_all2 (tracks keccak (src_of src db) False) cs ts \<Longrightarrow> \<forall>t \<in> set ts. (t = PNil \<or> wfs t) \<and> encs_in keccak C t \<Longrightarrow>
    \<forall>c \<in> set cs. size c < k \<Longrightarrow> opt_ok keccak C db \<Longrightarrow>
    \<exists>xs ys db'. hash_each h cs db = Some (xs, ys, db') \<and> settled keccak C src db db' \<and>
      list_all2 (tracks keccak (src_of src db') False) ys ts \<and>
      map (\<lambda>c. if c = NilNode then Some RNil else simplifyNode c) xs = map (\<lambda>t. Some (rn keccak False t)) ts \<and>
      (db \<noteq> None \<longrightarrow> (\<forall>t \<in> set ts. deep keccak (src_of src db') t))"
proof (induction cs arbitrary: ts db)
  case Nil
  then show ?case by (auto simp: settled_refl)
next
  case (Cons c cs)
  then obtain t ts' where ts: "ts = t # ts'" "tracks keccak (src_of src db) False c t"
      "list_all2 (tracks keccak (src_of src db) False) cs ts'"
    by (cases ts) auto
  have "\<exists>x y db1. (if c = NilNode then Some (NilNode, NilNode, db) else h c db) = Some (x, y, db1) \<and>
      settled keccak C src db db1 \<and> tracks keccak (src_of src db1) False y t \<and>
      (if x = NilNode then Some RNil else simplifyNode x) = Some (rn keccak False t) \<and>
      (db \<noteq> None \<longrightarrow> deep keccak (src_of src db1) t)"
  proof (cases "c = NilNode")
    case True
    then have "t = PNil" using ts(2) track.nilE by blast
    then show ?thesis using True Cons.prems(4) by (auto simp: settled_refl deep_def intro: tracks.intros)
  next
    case False
    then have "t \<noteq> PNil" using ts(2) track.not_nil by blast
    then have t: "wfs t" "encs_in keccak C t" using Cons.prems(2) ts(1) by auto
    then obtain r where r: "h c db = Some r" "outcome keccak C src False t db r"
      using h ts(2) Cons.prems(3,4) unfolding hashes_def by (metis list.set_intros(1))
    obtain x y db1 where "r = (x, y, db1)" by (cases r)
    then show ?thesis using r False hashed_as_simplify [of keccak x t] t(1) by (auto simp: outcome_def)
  qed
  then obtain x y db1 where x: "(if c = NilNode then Some (NilNode, NilNode, db) else h c db) = Some (x, y, db1)"
      "settled keccak C src db db1" "tracks keccak (src_of src db1) False y t"
      "(if x = NilNode then Some RNil else simplifyNode x) = Some (rn keccak False t)"
      "db \<noteq> None \<longrightarrow> deep keccak (src_of src db1) t" by blast
  have g: "grows (src_of src db) (src_of src db1)" and o: "opt_ok keccak C db1" and n: "db1 = None \<longleftrightarrow> db = None"
    using x(2) by (auto simp: settled_def)
  have "list_all2 (tracks keccak (src_of src db1) False) cs ts'"
    using ts(3) by (rule list_all2_mono) (rule tracks_grows [OF _ g])
  then obtain xs ys db2 where xs: "hash_each h cs db1 = Some (xs, ys, db2)" "settled keccak C src db1 db2"
      "list_all2 (tracks keccak (src_of src db2) False) ys ts'"
      "map (\<lambda>c. if c = NilNode then Some RNil else simplifyNode c) xs = map (\<lambda>t. Some (rn keccak False t)) ts'"
      "db1 \<noteq> None \<longrightarrow> (\<forall>t \<in> set ts'. deep keccak (src_of src db2) t)"
    using Cons.IH [of db1 ts'] Cons.prems(2,3) ts(1) o by auto
  have g2: "grows (src_of src db1) (src_of src db2)" using xs(2) by (simp add: settled_def)
  have "hash_each h (c # cs) db = Some (x # xs, y # ys, db2)" using x(1) xs(1) by simp
  moreover have "settled keccak C src db db2" by (rule settled_trans [OF x(2) xs(2)])
  moreover have "list_all2 (tracks keccak (src_of src db2) False) (y # ys) ts"
    using ts(1) xs(3) tracks_grows [OF x(3) g2] by simp
  moreover have "map (\<lambda>c. if c = NilNode then Some RNil else simplifyNode c) (x # xs) = map (\<lambda>t. Some (rn keccak False t)) ts"
    using ts(1) x(4) xs(4) by simp
  moreover have "db \<noteq> None \<longrightarrow> (\<forall>t \<in> set ts. deep keccak (src_of src db2) t)"
    using ts(1) x(5) xs(5) n deep_grows [OF _ g2] by auto
  ultimately show ?case by blast
qed

end
