(* ===== verification/Trie_Root.thy ===== *)
theory Trie_Root
  imports Trie_Track
begin

text \<open>The hasher on tracked tries: the root hash and the tries that can be loaded again after a commit.\<close>

fun flag_of :: "node \<Rightarrow> nodeFlag" where
  "flag_of (ShortNode k c f) = f"
| "flag_of (FullNode cs f) = f"
| "flag_of n = newFlag 0"

fun reflag :: "nodeFlag \<Rightarrow> node \<Rightarrow> node" where
  "reflag f (ShortNode k c _) = ShortNode k c f"
| "reflag f (FullNode cs _) = FullNode cs f"
| "reflag f n = n"

definition ready_node :: "(bytes \<Rightarrow> hash) \<Rightarrow> node_source \<Rightarrow> bool \<Rightarrow> node \<Rightarrow> ptrie \<Rightarrow> bool" where
  "ready_node keccak src b y t =
     (\<forall>src' f. grows src src' \<longrightarrow> flag_ok keccak src' b f t \<longrightarrow> tracks keccak src' b (reflag f y) t)"

definition ready_deep :: "(bytes \<Rightarrow> hash) \<Rightarrow> node_source \<Rightarrow> ptrie \<Rightarrow> bool" where
  "ready_deep keccak src t =
     (\<forall>src'. grows src src' \<longrightarrow> (large keccak t \<longrightarrow> avail keccak src' t) \<longrightarrow> deep keccak src' t)"

lemma hashChildren_short:
  assumes h: "hashes keccak C src k h" and tr: "tracks keccak (src_of src db) b (ShortNode key c f) t"
    and t: "wfs t" "encs_in keccak C t" and sz: "size c < k" and db: "opt_ok keccak C db"
  obtains x y db1 where "hashChildren h (ShortNode key c f) db = Some (x, y, db1)" "simplifyNode x = Some (rn keccak True t)"
    "node_cache x = node_cache (ShortNode key c f)" "is_inner y" "flag_of y = f" "settled keccak C src db db1"
    "ready_node keccak (src_of src db1) b y t" "db \<noteq> None \<longrightarrow> ready_deep keccak (src_of src db1) t"
proof -
  obtain t' where t': "t = PShort key t'" "tracks keccak (src_of src db) False c t'"
    using tr by (auto elim: tracks_ShortE)
  have key: "hex_key key" using hex_key_wfs t(1) t'(1) by blast
  then obtain ck where ck: "hexToCompact key = Some ck" "compact key = ck"
    by (elim compactToHex_inverse) (simp add: compact_def)
  show ?thesis
  proof (cases "is_val t'")
    case True
    then obtain v where v: "t' = PVal v" by (cases t') auto
    then have c: "c = ValueNode v" using t'(2) by (auto elim: tracks.cases)
    show ?thesis
      by (rule that [of "ShortNode ck c f" "ShortNode key c f" db])
         (use ck c v t' settled_refl [OF db] in \<open>auto simp: hashChildren_def ready_node_def ready_deep_def deep_def intro!: tracks.intros\<close>)
  next
    case False
    then have w: "wfs t'" using t(1) t'(1) by auto
    have c: "c \<noteq> NilNode" "\<forall>v. c \<noteq> ValueNode v" using t'(2) w track.nilE track.valueE by auto
    obtain x y db1 where r: "h c db = Some (x, y, db1)" "outcome keccak C src False t' db (x, y, db1)"
      using h t'(2) w sz encs_in_child(1) t(2) db unfolding hashes_def t'(1) by (metis prod_cases3)
    then have o: "settled keccak C src db db1" "tracks keccak (src_of src db1) False y t'"
        "simplifyNode x = Some (rn keccak False t')" "db \<noteq> None \<longrightarrow> deep keccak (src_of src db1) t'"
      using hashed_as_simplify [OF _ w] by (auto simp: outcome_def)
    have "hashChildren h (ShortNode key c f) db = Some (ShortNode ck x f, ShortNode key y f, db1)"
      using ck(1) c r(1) by (cases c) (auto simp: hashChildren_def)
    moreover have "ready_node keccak (src_of src db1) b (ShortNode key y f) t"
      unfolding ready_node_def t'(1) using tracks_grows [OF o(2)] by (auto intro!: tracks.Short)
    moreover have "db \<noteq> None \<longrightarrow> ready_deep keccak (src_of src db1) t"
      unfolding ready_deep_def t'(1) using o(4) deep_grows deep_parent(1) by blast
    ultimately show ?thesis using that ck(2) t'(1) o(1,3) by simp
  qed
qed

lemma hashChildren_full:
  assumes h: "hashes keccak C src k h" and tr: "tracks keccak (src_of src db) b (FullNode cs f) t"
    and t: "wfs t" "encs_in keccak C t" and sz: "\<forall>c \<in> set cs. size c < k" and db: "opt_ok keccak C db"
  obtains x y db1 where "hashChildren h (FullNode cs f) db = Some (x, y, db1)" "simplifyNode x = Some (rn keccak True t)"
    "node_cache x = node_cache (FullNode cs f)" "is_inner y" "flag_of y = f" "settled keccak C src db db1"
    "ready_node keccak (src_of src db1) b y t" "db \<noteq> None \<longrightarrow> ready_deep keccak (src_of src db1) t"
proof -
  obtain ts where ts: "t = PFull ts" "length cs = length ts" "\<forall>i < length cs. tracks keccak (src_of src db) False (cs ! i) (ts ! i)"
    using tr by (auto elim: tracks_FullE)
  have s: "slots ts" using t(1) ts(1) by (simp add: wfs_slots)
  then have l: "length ts = 17" by (simp add: slots_def)
  have tk: "list_all2 (tracks keccak (src_of src db) False) (take 16 cs) (take 16 ts)"
    using ts(2,3) by (auto simp: list_all2_conv_all_nth)
  have kinds: "\<forall>u \<in> set (take 16 ts). (u = PNil \<or> wfs u) \<and> encs_in keccak C u"
    using wfs.simps(4) [of ts] t ts(1) encs_in_child(2) by (auto dest: in_set_takeD)
  obtain xs ys db1 where r: "hash_each h (take 16 cs) db = Some (xs, ys, db1)" "settled keccak C src db db1"
      "list_all2 (tracks keccak (src_of src db1) False) ys (take 16 ts)"
      "map (\<lambda>c. if c = NilNode then Some RNil else simplifyNode c) xs = map (\<lambda>t. Some (rn keccak False t)) (take 16 ts)"
      "db \<noteq> None \<longrightarrow> (\<forall>t \<in> set (take 16 ts). deep keccak (src_of src db1) t)"
    using hash_each_ok [OF h tk kinds _ db] sz by (meson in_set_takeD)
  have g: "grows (src_of src db) (src_of src db1)" using r(2) by (simp add: settled_def)
  have lst: "drop 16 cs = [cs ! 16]" "drop 16 ts = [ts ! 16]" 
    using Cons_nth_drop_Suc [of 16 cs] Cons_nth_drop_Suc [of 16 ts] l ts(2) by simp_all
  have v: "ts ! 16 = PNil \<or> is_val (ts ! 16)" using s by (simp add: slots_def)
  have tl: "tracks keccak (src_of src db) False (cs ! 16) (ts ! 16)" using ts l by simp
  have simp_last: "(if cs ! 16 = NilNode then Some RNil else simplifyNode (cs ! 16)) = Some (rn keccak False (ts ! 16))"
    using v tl by (cases "ts ! 16") (auto elim: tracks.cases)
  have spl: "take 16 ts @ [ts ! 16] = ts" using lst(2) append_take_drop_id [of 16 ts] by simp
  have "map (\<lambda>c. if c = NilNode then Some RNil else simplifyNode c) (xs @ [cs ! 16]) =
      map (\<lambda>t. Some (rn keccak False t)) (take 16 ts @ [ts ! 16])"
    using r(4) simp_last by simp
  then have "those (map (\<lambda>c. if c = NilNode then Some RNil else simplifyNode c) (xs @ [cs ! 16])) = Some (map (rn keccak False) ts)"
    unfolding spl using those_map_Some [of ts "\<lambda>t. Some (rn keccak False t)" "rn keccak False"] by simp
  then have sx: "simplifyNode (FullNode (xs @ [cs ! 16]) f) = Some (rn keccak True t)" using ts(1) by simp
  have "ready_node keccak (src_of src db1) b (FullNode (ys @ [cs ! 16]) f) t"
    unfolding ready_node_def ts(1)
  proof (intro allI impI)
    fix src' f'
    assume a: "grows (src_of src db1) src'" "flag_ok keccak src' b f' (PFull ts)"
    have "list_all2 (tracks keccak src' False) (ys @ [cs ! 16]) (take 16 ts @ [ts ! 16])"
      using list_all2_mono [OF r(3)] tracks_grows [OF _ a(1)] tracks_grows [OF tl grows_trans [OF g a(1)]] by (simp add: list_all2_appendI)
    then have "list_all2 (tracks keccak src' False) (ys @ [cs ! 16]) ts" unfolding spl .
    then show "tracks keccak src' b (reflag f' (FullNode (ys @ [cs ! 16]) f)) (PFull ts)"
      using a(2) by (auto simp: list_all2_conv_all_nth intro!: tracks.Full)
  qed
  moreover have "db \<noteq> None \<longrightarrow> ready_deep keccak (src_of src db1) t"
    unfolding ready_deep_def ts(1)
  proof (intro impI allI)
    fix src'
    assume a: "db \<noteq> None" "grows (src_of src db1) src'" "large keccak (PFull ts) \<longrightarrow> avail keccak src' (PFull ts)"
    have "\<forall>c \<in> set (take 16 ts). deep keccak src' c" using r(5) a(1,2) deep_grows by blast
    moreover have "deep keccak src' (ts ! 16)" using v by (cases "ts ! 16") (auto simp: deep_def)
    ultimately have "\<forall>c \<in> set (take 16 ts @ [ts ! 16]). deep keccak src' c" by simp
    then show "deep keccak src' (PFull ts)" unfolding spl using deep_parent(2) a(3) by blast
  qed
  ultimately show ?thesis
    using that [of "FullNode (xs @ [cs ! 16]) f" "FullNode (ys @ [cs ! 16]) f" db1] r(1,2) lst(1) sx by (simp add: hashChildren_def)
qed

section \<open>The hasher\<close>

lemma set_cached_ok:
  assumes "flag_ok keccak src b f t" "hash = (if b \<or> large keccak t then Some (hash_of keccak t) else None)"
    and "stored \<longrightarrow> deep keccak src t \<and> (b \<or> large keccak t \<longrightarrow> avail keccak src t)"
    and "\<not> stored \<longrightarrow> nfHash f = None"
  shows "flag_ok keccak src b (set_cached hash stored f) t"
  using assms by (auto simp: flag_ok_def set_cached_def)

lemma is_inner_cases:
  assumes "is_inner n"
  obtains k c f where "n = ShortNode k c f" | cs f where "n = FullNode cs f"
  using assms by (cases n) auto

lemma hashChildren_ok:
  assumes "hashes keccak C src k h" "tracks keccak (src_of src db) b n t" "is_inner n" "wfs t" "encs_in keccak C t"
    "size n \<le> k" "opt_ok keccak C db"
  obtains x y db1 where "hashChildren h n db = Some (x, y, db1)" "simplifyNode x = Some (rn keccak True t)"
    "node_cache x = node_cache n" "is_inner y" "flag_of y = flag_of n" "settled keccak C src db db1"
    "ready_node keccak (src_of src db1) b y t" "db \<noteq> None \<longrightarrow> ready_deep keccak (src_of src db1) t"
  using assms(3)
proof (cases rule: is_inner_cases)
  case (1 key c f)
  have "size c < k" using assms(6) 1 by simp
  then show ?thesis using hashChildren_short [OF assms(1) _ assms(4,5) _ assms(7)] assms(2) that unfolding 1 flag_of.simps by blast
next
  case (2 cs f)
  have "\<forall>c \<in> set cs. size c < k" using assms(6) 2 by (auto dest: size_list_estimation' [of _ _ _ size])
  then show ?thesis using hashChildren_full [OF assms(1) _ assms(4,5) _ assms(7)] assms(2) that unfolding 2 flag_of.simps by blast
qed

lemma hasher_hash_walk:
  assumes "n \<noteq> NilNode" "hashChildren (hasher_hash keccak onleaf g l fuel False) n db = Some (x, y, db1)"
    and "hasher_store keccak onleaf x db1 force = Some (z, db2)"
    and "fst (node_cache n) = None \<or> db \<noteq> None \<and> \<not> canUnload n g l \<and> snd (node_cache n)"
  shows "hasher_hash keccak onleaf g l (Suc fuel) force n db =
    Some (z, case y of
               ShortNode k c f \<Rightarrow> ShortNode k c (set_cached (case z of HashNode h \<Rightarrow> Some h | _ \<Rightarrow> None) (db \<noteq> None) f)
             | FullNode cs f \<Rightarrow> FullNode cs (set_cached (case z of HashNode h \<Rightarrow> Some h | _ \<Rightarrow> None) (db \<noteq> None) f)
             | _ \<Rightarrow> y, db2)"
  using assms(4) unfolding hasher_hash.simps assms(2,3) Let_def option.case prod.case
  by (cases "fst (node_cache n)"; cases db) (simp_all add: assms(1))

lemma hasher_hash_cached:
  assumes "n \<noteq> NilNode" "fst (node_cache n) = Some h" "db = None \<or> canUnload n g l \<or> \<not> snd (node_cache n)"
  shows "hasher_hash keccak onleaf g l (Suc fuel) force n db =
    Some (HashNode h, if db \<noteq> None \<and> canUnload n g l then HashNode h else n, db)"
  using assms unfolding hasher_hash.simps Let_def by auto

lemma hasher_hash_ok:
  assumes C: "bounded C" and leafs: "leaf_ok keccak C onleaf"
  shows "tracks keccak (src_of src db) b n t \<Longrightarrow> wfs t \<Longrightarrow> size n < fuel \<Longrightarrow> encs_in keccak C t \<Longrightarrow> opt_ok keccak C db \<Longrightarrow>
    \<exists>r. hasher_hash keccak onleaf g l fuel b n db = Some r \<and> outcome keccak C src b t db r"
proof (induction fuel arbitrary: b n t db)
  case (Suc fuel)
  let ?h = "hasher_hash keccak onleaf g l fuel False"
  have hs: "hashes keccak C src fuel ?h" unfolding hashes_def using Suc.IH by blast
  show ?case
  proof (cases "is_inner n")
    case False
    then obtain h where n: "n = HashNode h"
      using Suc.prems(1,2) by (cases n) (auto simp: track.nilE track.valueE)
    then have "h = hash_of keccak t" "b \<or> large keccak t" "avail keccak (src_of src db) t" "deep keccak (src_of src db) t"
      using Suc.prems(1) by (auto elim: tracks_HashE)
    then show ?thesis using n Suc.prems(1,5)
      by (auto simp: hashChildren_def hasher_store_def outcome_def settled_refl hashed_as_def)
  next
    case True
    have ne: "n \<noteq> NilNode" using True by auto
    have fl: "flag_ok keccak (src_of src db) b (flag_of n) t" and nc: "node_cache n = (nfHash (flag_of n), nfDirty (flag_of n))"
        and cu: "canUnload n g l \<longrightarrow> \<not> nfDirty (flag_of n)"
      using Suc.prems(1) True by (cases n; auto elim: tracks_ShortE tracks_FullE simp: nodeFlag_canUnload_def)+
    obtain x y db1 where c: "hashChildren ?h n db = Some (x, y, db1)" "simplifyNode x = Some (rn keccak True t)"
        "node_cache x = node_cache n" "is_inner y" "flag_of y = flag_of n" "settled keccak C src db db1"
        "ready_node keccak (src_of src db1) b y t" "db \<noteq> None \<longrightarrow> ready_deep keccak (src_of src db1) t"
      using hashChildren_ok [OF hs Suc.prems(1) True Suc.prems(2,4) _ Suc.prems(5)] Suc.prems(3) by (metis less_Suc_eq_le)
    have db1: "opt_ok keccak C db1" "db1 = None \<longleftrightarrow> db = None" using c(6) by (auto simp: settled_def)
    have inC: "enc keccak t \<in> C" using Suc.prems(2,4) by (simp add: encs_in_def)
    have hx: "\<forall>h. fst (node_cache x) = Some h \<longrightarrow> h = hash_of keccak t" using fl nc c(3) by (simp add: flag_ok_def)
    obtain z db2 where s: "hasher_store keccak onleaf x db1 b = Some (z, db2)" "settled keccak C src db1 db2"
        "hashed_as keccak b z t" "db1 \<noteq> None \<longrightarrow> b \<or> large keccak t \<longrightarrow> avail keccak (src_of src db2) t"
      by (rule store_ok [OF C leafs db1(1) Suc.prems(2) inC c(2) hx, of b src])
    let ?ch = "case z of HashNode h \<Rightarrow> Some h | _ \<Rightarrow> None"
    have ch: "?ch = (if b \<or> large keccak t then Some (hash_of keccak t) else None)"
      using s(3) by (cases z) (auto simp: hashed_as_def split: if_splits)
    let ?cn = "reflag (set_cached ?ch (db \<noteq> None) (flag_of n)) y"
    have cn: "(case y of ShortNode k c f \<Rightarrow> ShortNode k c (set_cached ?ch (db \<noteq> None) f)
        | FullNode cs f \<Rightarrow> FullNode cs (set_cached ?ch (db \<noteq> None) f) | _ \<Rightarrow> y) = ?cn"
      using c(4,5) by (cases y) auto
    have g: "grows (src_of src db1) (src_of src db2)" "grows (src_of src db) (src_of src db1)"
      using s(2) c(6) by (simp_all add: settled_def)
    note g2 = grows_trans [OF g(2,1)]
    have dp: "db \<noteq> None \<longrightarrow> deep keccak (src_of src db2) t \<and> (b \<or> large keccak t \<longrightarrow> avail keccak (src_of src db2) t)"
      using c(8) s(4) db1(2) g(1) unfolding ready_deep_def by metis
    have walked: "outcome keccak C src b t db (z, ?cn, db2)" if "nfHash (flag_of n) = None \<or> db \<noteq> None"
    proof -
      have "flag_ok keccak (src_of src db2) b (set_cached ?ch (db \<noteq> None) (flag_of n)) t"
        by (rule set_cached_ok [OF flag_ok_grows [OF fl g2] ch dp]) (use that in blast)
      then have "tracks keccak (src_of src db2) b ?cn t" using c(7) g(1) unfolding ready_node_def by metis
      then show ?thesis using settled_trans [OF c(6) s(2)] s(3) dp by (simp add: outcome_def)
    qed
    show ?thesis
    proof (cases "nfHash (flag_of n) = None \<or> db \<noteq> None \<and> \<not> canUnload n g l \<and> nfDirty (flag_of n)")
      case True
      have "hasher_hash keccak onleaf g l (Suc fuel) b n db = Some (z, ?cn, db2)"
        using hasher_hash_walk [OF ne c(1) s(1)] True nc unfolding cn by simp
      then show ?thesis using walked True by blast
    next
      case False
      then obtain h where hh: "nfHash (flag_of n) = Some h" by auto
      then have h: "h = hash_of keccak t" "b \<or> large keccak t" using fl by (auto simp: flag_ok_def)
      have "outcome keccak C src b t db (HashNode h, if db \<noteq> None \<and> canUnload n g l then HashNode h else n, db)"
        using False h hh fl cu Suc.prems(1,2,5)
        by (auto simp: outcome_def settled_refl hashed_as_def flag_ok_def intro!: tracks.Hash)
      then show ?thesis using hasher_hash_cached [of n h db g l] ne hh nc False by auto
    qed
  qed
qed simp

section \<open>The size of the encodings\<close>

lemma length_rlp_Str: "length (rlp (Str b)) \<le> length b + 9"
  using intsize_bounds [of "of_nat (length b)"] by (simp add: rlp_string_def str_head_def length_puthead headsize_def)

lemma length_rlp_Lst: "length (rlp (Lst its)) \<le> 9 + sum_list (map (\<lambda>it. length (rlp it)) its)"
  using intsize_bounds [of "of_nat (sum_list (map (\<lambda>it. length (rlp it)) its))"]
  by (simp add: Let_def list_head_def length_puthead headsize_def length_concat comp_def)

lemma length_child_item: "wfs c \<or> c = PNil \<Longrightarrow> length (rlp (child_item keccak c)) \<le> 41"
  using length_rlp_Str [of "Hash_Bytes (keccak (enc keccak c))"] length_rlp_Str [of "[]"]
  by (cases c) (auto simp: child_item_def ref_item_def simp del: rlp.simps)

lemma subs_get:
  "p = PNil \<or> is_val p \<or> wfs p \<Longrightarrow> u \<in> subs p \<Longrightarrow> pget u r = Some v \<Longrightarrow> \<exists>q. pget p (q @ r) = Some v"
proof (induction p)
  case (PShort k c)
  have c: "is_val c \<or> wfs c" using PShort.prems(1) by auto
  show ?case
  proof (cases "u = PShort k c")
    case True
    then show ?thesis using PShort.prems(3) by (metis append_Nil)
  next
    case False
    then obtain q where "pget c (q @ r) = Some v" using PShort c by auto
    then have "pget (PShort k c) ((k @ q) @ r) = Some v" by simp
    then show ?thesis by blast
  qed
next
  case (PFull cs)
  have w: "wfs (PFull cs)" using PFull.prems(1) by simp
  show ?case
  proof (cases "u = PFull cs")
    case True
    then show ?thesis using PFull.prems(3) by (metis append_Nil)
  next
    case False
    then obtain c where c: "c \<in> set cs" "u \<in> subs c" using PFull.prems(2) by auto
    then obtain q where q: "pget c (q @ r) = Some v" using PFull.IH full_kinds [OF w] PFull.prems(3) by blast
    obtain i where i: "i < length cs" "c = cs ! i" using c(1) by (auto simp: in_set_conv_nth)
    moreover have "length cs = 17" using w by (simp add: wfs_PFull)
    ultimately have "pget (PFull cs) ((of_nat i # q) @ r) = Some v" using q by (simp add: unat_of_nat)
    then show ?thesis by blast
  qed
qed (use append_Nil in \<open>metis singletonD subs.simps(3,4)\<close>)+

text \<open>Keys and values far below the address space.\<close>

definition small_map :: "(bytes \<Rightarrow> bytes option) \<Rightarrow> bool" where
  "small_map m = (\<forall>k v. m k = Some v \<longrightarrow> length k < 2 ^ 56 \<and> length v < 2 ^ 56)"

lemma spells_sub:
  assumes "spells p m" "small_map m" "u \<in> subs p" "pget u r = Some v"
  shows "length r < 2 ^ 58 \<and> length v < 2 ^ 56"
proof -
  obtain q where q: "pget p (q @ r) = Some v"
    using subs_get [OF _ assms(3,4)] assms(1) by (auto simp: spells_def wf_trie_def)
  then obtain k where k: "q @ r = keybytesToHex k" using assms(1) by (auto simp: spells_def byte_keys_def)
  then have "m k = Some v" using q assms(1) by (simp add: spells_def)
  then have "length k < 2 ^ 56" "length v < 2 ^ 56" using assms(2) by (auto simp: small_map_def)
  moreover have "length (q @ r) = 2 * length k + 1" unfolding k by (simp add: keybytesToHex_def)
  ultimately show ?thesis by auto
qed

lemma length_compact: "hex_key k \<Longrightarrow> length (compact k) \<le> length k + 1"
  by (erule compactToHex_inverse) (auto simp: compact_def)

lemma enc_bounded:
  assumes "spells p m" "small_map m" "u \<in> subs p" "wfs u"
  shows "length (enc keccak u) < 2 ^ 63 - 9"
proof (cases u)
  case (PShort k c)
  have key: "hex_key k" using hex_key_wfs assms(4) PShort by blast
  obtain r v where r: "pget u r = Some v" using wfs_nonempty [OF assms(4)] by blast
  then obtain r' where "r = k @ r'" using PShort by (auto split: if_splits)
  then have k: "length k < 2 ^ 58" using spells_sub [OF assms(1-3) r] by auto
  have "length (rlp (child_item keccak c)) \<le> 2 ^ 56 + 41"
  proof (cases "is_val c")
    case True
    then obtain w where w: "c = PVal w" by (cases c) auto
    then have "pget u k = Some w" using PShort by simp
    then have "length w < 2 ^ 56" using spells_sub [OF assms(1-3)] by blast
    then show ?thesis using length_rlp_Str [of w] w by (simp add: child_item_def del: rlp.simps)
  next
    case False
    then have "wfs c" using assms(4) PShort by auto
    then show ?thesis using length_child_item [of c keccak] by simp
  qed
  moreover have "c \<noteq> PNil" using assms(4) PShort by auto
  ultimately show ?thesis
    using PShort enc_item_short [of c keccak k] length_rlp_Lst [of "[Str (compact k), child_item keccak c]"]
      length_rlp_Str [of "compact k"] length_compact [OF key] k by (simp del: rlp.simps)
next
  case (PFull cs)
  have s: "slots cs" using assms(4) PFull by (simp add: wfs_slots)
  have "length (rlp (child_item keccak c)) \<le> 2 ^ 56 + 41" if "c \<in> set cs" for c
  proof (cases "is_val c")
    case True
    then obtain w where w: "c = PVal w" by (cases c) auto
    obtain i where "i < length cs" "cs ! i = PVal w" using \<open>c \<in> set cs\<close> w by (auto simp: in_set_conv_nth)
    then have "pget u [of_nat i] = Some w" using PFull s by (simp add: slots_def unat_of_nat)
    then have "length w < 2 ^ 56" using spells_sub [OF assms(1-3)] by blast
    then show ?thesis using length_rlp_Str [of w] w by (simp add: child_item_def del: rlp.simps)
  next
    case False
    then show ?thesis using length_child_item [of c keccak] full_kinds assms(4) PFull \<open>c \<in> set cs\<close> by fastforce
  qed
  then have "sum_list (map (\<lambda>c. length (rlp (child_item keccak c))) cs) \<le> length cs * (2 ^ 56 + 41)"
    by (induction cs) fastforce+
  then show ?thesis
    using PFull enc_item_full [of keccak cs] length_rlp_Lst [of "map (child_item keccak) cs"] s
    by (simp add: slots_def comp_def del: rlp.simps)
qed (use assms(4) in simp_all)

section \<open>The root hash\<close>

definition root_of :: "(bytes \<Rightarrow> hash) \<Rightarrow> ptrie \<Rightarrow> hash" where
  "root_of keccak p = (if p = PNil then emptyRoot else keccak (enc keccak p))"

definition blobs :: "(bytes \<Rightarrow> hash) \<Rightarrow> (bytes \<Rightarrow> bytes option) \<Rightarrow> bytes set" where
  "blobs keccak m = {enc keccak u | p u. spells p m \<and> u \<in> subs p \<and> wfs u}"

lemma blobs_bounded: "small_map m \<Longrightarrow> bounded (blobs keccak m)"
  using enc_bounded by (auto simp: blobs_def bounded_def)

lemma encs_in_blobs: "spells p m \<Longrightarrow> encs_in keccak (blobs keccak m) p"
  by (auto simp: encs_in_def blobs_def)

lemma hashRoot_ok:
  assumes C: "bounded C" and leafs: "leaf_ok keccak C onleaf" and db: "opt_ok keccak C db"
    and p: "tracks keccak (src_of src db) True (tRoot t) p" "wf_trie p" "encs_in keccak C p" and fuel: "size (tRoot t) < fuel"
  obtains y db' where "hashRoot keccak onleaf fuel t db = Some (HashNode (Hash_Bytes (root_of keccak p)), y, db')"
    "settled keccak C src db db'" "tracks keccak (src_of src db') True y p"
    "db \<noteq> None \<longrightarrow> p \<noteq> PNil \<longrightarrow> deep keccak (src_of src db') p \<and> avail keccak (src_of src db') p"
proof (cases "p = PNil")
  case True
  then have "tRoot t = NilNode" using p(1) track.not_nil by blast
  then show ?thesis using that [of NilNode db] True settled_refl [OF db]
    by (auto simp: hashRoot_def root_of_def intro: tracks.intros)
next
  case False
  then have w: "wfs p" and n: "tRoot t \<noteq> NilNode" using p(1,2) track.nilE by (auto simp: wf_trie_def)
  obtain r where r: "hasher_hash keccak onleaf (tCachegen t) (tCachelimit t) fuel True (tRoot t) db = Some r"
      "outcome keccak C src True p db r"
    using hasher_hash_ok [OF C leafs p(1) w fuel p(3) db] by blast
  obtain x y db' where e: "r = (x, y, db')" by (cases r)
  show ?thesis
    by (rule that [of y db']) (use r e False n in \<open>auto simp: hashRoot_def root_of_def outcome_def hashed_as_def\<close>)
qed

lemma Trie_Hash_stores:
  assumes "tracks keccak src True (tRoot t) p" "spells p m" "small_map m" "size (tRoot t) < fuel"
  shows "\<exists>t'. Trie_Hash keccak fuel t = Some (root_of keccak p, t') \<and> tracks keccak src True (tRoot t') p"
proof -
  have l: "leaf_ok keccak (blobs keccak m) None" by (simp add: leaf_ok_def)
  have o: "opt_ok keccak (blobs keccak m) None" by (simp add: opt_ok_def)
  have s: "tracks keccak (src_of src None) True (tRoot t) p" using assms(1) by (simp add: src_of_def)
  obtain y db' where "hashRoot keccak None fuel t None = Some (HashNode (Hash_Bytes (root_of keccak p)), y, db')"
      "settled keccak (blobs keccak m) src None db'" "tracks keccak (src_of src db') True y p"
    by (rule hashRoot_ok [OF blobs_bounded [OF assms(3)] l o s _ encs_in_blobs [OF assms(2)] assms(4)])
       (use assms(2) in \<open>auto simp: spells_def\<close>)
  then show ?thesis by (auto simp: Trie_Hash_def settled_def src_of_def)
qed

lemma Trie_Commit_stores:
  assumes p: "tracks keccak (Database_node d) True (tRoot t) p" "spells p m" and fuel: "size (tRoot t) < fuel"
    and C: "no_collision keccak C" "blobs keccak m \<subseteq> C" and d: "db_ok keccak C d" and leafs: "leaf_ok keccak C onleaf"
  obtains t' d' where "Trie_Commit keccak onleaf fuel t d = Some (root_of keccak p, t', d')" "db_ok keccak C d'"
    "grows (Database_node d) (Database_node d')" "tracks keccak (Database_node d') True (tRoot t') p"
    "p \<noteq> PNil \<longrightarrow> deep keccak (Database_node d') p \<and> avail keccak (Database_node d') p"
proof -
  have e: "encs_in keccak C p" using encs_in_blobs [OF p(2)] C(2) by (auto simp: encs_in_def)
  have o: "opt_ok keccak C (Some d)" using d C(1) by (simp add: opt_ok_def)
  have s: "tracks keccak (src_of (Database_node d) (Some d)) True (tRoot t) p" using p(1) by (simp add: src_of_def)
  obtain y db' where "hashRoot keccak onleaf fuel t (Some d) = Some (HashNode (Hash_Bytes (root_of keccak p)), y, db')"
      "settled keccak C (Database_node d) (Some d) db'" "tracks keccak (src_of (Database_node d) db') True y p"
      "p \<noteq> PNil \<longrightarrow> deep keccak (src_of (Database_node d) db') p \<and> avail keccak (src_of (Database_node d) db') p"
    by (rule hashRoot_ok [OF no_collision_bounded [OF C(1)] leafs o s _ e fuel])
       (use p(2) in \<open>auto simp: spells_def\<close>)
  moreover then obtain d' where "db' = Some d'" by (cases db') (auto simp: settled_def)
  ultimately show ?thesis
    using that [of "t\<lparr>tRoot := y, tCachegen := tCachegen t + 1\<rparr>" d']
    by (auto simp: Trie_Commit_def settled_def opt_ok_def src_of_def)
qed

text \<open>A committed trie is found again under its root.\<close>

lemma Trie_New_loads:
  assumes "spells p m" "p \<noteq> PNil \<longrightarrow> deep keccak src p \<and> avail keccak src p"
    and "p \<noteq> PNil \<longrightarrow> root_of keccak p \<noteq> 0 \<and> root_of keccak p \<noteq> emptyRoot"
  shows "\<exists>t. Trie_New (root_of keccak p) src = Some (Inr t) \<and> tracks keccak src True (tRoot t) p"
proof (cases "p = PNil")
  case True
  then show ?thesis by (auto simp: Trie_New_def root_of_def intro: tracks.intros)
next
  case False
  then have w: "wfs p" using assms(1) by (auto simp: spells_def wf_trie_def)
  let ?n = "ref_node keccak 0 (Some (hash_of keccak p)) True p"
  have "tracks keccak src True ?n p" using assms(2) False w by (intro ref_node_tracks) auto
  then show ?thesis using False assms(2,3) by (auto simp: Trie_New_def root_of_def resolveHash_def avail_def)
qed

end
