(* ===== verification/Trie_Proof.thy ===== *)
theory Trie_Proof
  imports Trie_Root
begin

text \<open>
  Merkle proofs (\<^verbatim>\<open>trie/proof.go\<close>). A proof is a map from hashes to encoded nodes; its keys are byte strings, as in
  the database interface. \<open>None\<close> is a panic or fuel that ran out.
\<close>

type_synonym proof_db = "bytes \<Rightarrow> bytes option"

fun proof_get :: "node \<Rightarrow> bytes \<Rightarrow> (bytes \<times> node) option" where
  "proof_get (ShortNode k c f) key =
     (if length key < length k \<or> k \<noteq> take (length k) key then Some ([], NilNode)
      else proof_get c (drop (length k) key))"
| "proof_get (FullNode cs f) key =
     (case key of
        [] \<Rightarrow> None
      | x # r \<Rightarrow> if unat x < length cs then proof_get (cs ! unat x) r else None)"
| "proof_get (HashNode h) key = Some (key, HashNode h)"
| "proof_get NilNode key = Some (key, NilNode)"
| "proof_get (ValueNode v) key = Some ([], ValueNode v)"

datatype proof_error = ProofMissing nat hash | ProofBad nat wrapped_error

primrec VerifyProof_loop :: "proof_db \<Rightarrow> nat \<Rightarrow> nat \<Rightarrow> hash \<Rightarrow> bytes \<Rightarrow> (bytes option \<times> nat \<times> proof_error option) option" where
  "VerifyProof_loop proofDb 0 i wantHash key = None"
| "VerifyProof_loop proofDb (Suc fuel) i wantHash key =
     (case proofDb (Hash_Bytes wantHash) of
        None \<Rightarrow> Some (None, i, Some (ProofMissing i wantHash))
      | Some buf \<Rightarrow>
          (case decodeNode (Suc (length buf)) (Some (Hash_Bytes wantHash)) buf 0 of
             None \<Rightarrow> None
           | Some (Inl err) \<Rightarrow> Some (None, i, Some (ProofBad i err))
           | Some (Inr n) \<Rightarrow>
               (case proof_get n key of
                  None \<Rightarrow> None
                | Some (keyrest, cld) \<Rightarrow>
                    (case cld of
                       HashNode h \<Rightarrow>
                         VerifyProof_loop proofDb fuel (i + 1) (BytesToHash (copy_into (Hash_Bytes wantHash) h)) keyrest
                     | ValueNode v \<Rightarrow> Some (Some v, i + 1, None)
                     | _ \<Rightarrow> Some (None, i, None)))))"

definition VerifyProof :: "nat \<Rightarrow> hash \<Rightarrow> bytes \<Rightarrow> proof_db \<Rightarrow> (bytes option \<times> nat \<times> proof_error option) option" where
  "VerifyProof fuel rootHash key proofDb = VerifyProof_loop proofDb fuel 0 rootHash (keybytesToHex key)"

text \<open>The nodes on the path to the key.\<close>

fun prove_path :: "node_source \<Rightarrow> u16 \<Rightarrow> nat \<Rightarrow> node \<Rightarrow> bytes \<Rightarrow> (MissingNodeError + node list) option" where
  "prove_path src cachegen 0 tn key = None"
| "prove_path src cachegen (Suc fuel) tn key =
     (if key = [] \<or> tn = NilNode then Some (Inr [])
      else
        case tn of
          ShortNode k c f \<Rightarrow>
            if length key < length k \<or> k \<noteq> take (length k) key then Some (Inr [tn])
            else map_option (map_sum id (Cons tn)) (prove_path src cachegen fuel c (drop (length k) key))
        | FullNode cs f \<Rightarrow>
            if unat (key ! 0) \<ge> length cs then None
            else map_option (map_sum id (Cons tn)) (prove_path src cachegen fuel (cs ! unat (key ! 0)) (drop 1 key))
        | HashNode h \<Rightarrow>
            (case resolveHash src cachegen h [] of
               None \<Rightarrow> None
             | Some (Inl err) \<Rightarrow> Some (Inl err)
             | Some (Inr n) \<Rightarrow> prove_path src cachegen fuel n key)
        | _ \<Rightarrow> None)"

text \<open>The encodings of the nodes that become proof elements; the index is \<open>i\<close>, the levels to leave out \<open>fromLevel\<close>.\<close>

primrec prove_puts :: "(bytes \<Rightarrow> hash) \<Rightarrow> nat \<Rightarrow> node list \<Rightarrow> nat \<Rightarrow> nat \<Rightarrow> proof_db \<Rightarrow> proof_db option" where
  "prove_puts keccak fuel [] i fromLevel proofDb = Some proofDb"
| "prove_puts keccak fuel (n # ns) i fromLevel proofDb =
     (case hashChildren (hasher_hash keccak None 0 0 fuel False) n None of
        None \<Rightarrow> None
      | Some (collapsed, _, _) \<Rightarrow>
          (case hasher_store keccak None collapsed None False of
             None \<Rightarrow> None
           | Some (hn, _) \<Rightarrow>
               if is_hash hn \<or> i = 0 then
                 if fromLevel > 0 then prove_puts keccak fuel ns (i + 1) (fromLevel - 1) proofDb
                 else
                   (case EncodeToBytes (node_item collapsed) of
                      None \<Rightarrow> None
                    | Some blob \<Rightarrow>
                        let hash = (case hn of HashNode h \<Rightarrow> h | _ \<Rightarrow> Hash_Bytes (keccak blob))
                        in prove_puts keccak fuel ns (i + 1) 0 (proofDb(hash \<mapsto> blob)))
               else prove_puts keccak fuel ns (i + 1) fromLevel proofDb))"

definition Trie_Prove :: "(bytes \<Rightarrow> hash) \<Rightarrow> node_source \<Rightarrow> nat \<Rightarrow> nat \<Rightarrow> bytes \<Rightarrow> nat \<Rightarrow> Trie \<Rightarrow> proof_db \<Rightarrow>
    (MissingNodeError option \<times> proof_db) option" where
  "Trie_Prove keccak src fuel depth key fromLevel t proofDb =
     (case prove_path src (tCachegen t) fuel (tRoot t) (keybytesToHex key) of
        None \<Rightarrow> None
      | Some (Inl err) \<Rightarrow> Some (Some err, proofDb)
      | Some (Inr nodes) \<Rightarrow> map_option (Pair None) (prove_puts keccak depth nodes 0 fromLevel proofDb))"

section \<open>The path of a key\<close>

fun ppath :: "ptrie \<Rightarrow> bytes \<Rightarrow> ptrie list" where
  "ppath (PShort k c) key =
     PShort k c # (if take (length k) key = k then ppath c (drop (length k) key) else [])"
| "ppath (PFull cs) key =
     PFull cs # (case key of [] \<Rightarrow> [] | x # r \<Rightarrow> if unat x < length cs then ppath (cs ! unat x) r else [])"
| "ppath t key = []"

text \<open>Where the walk through one stored node ends: at an absent key, a value, or a reference on the path.\<close>

definition lands :: "(bytes \<Rightarrow> hash) \<Rightarrow> ptrie \<Rightarrow> bytes \<Rightarrow> nat \<Rightarrow> (bytes \<times> node) option \<Rightarrow> bool" where
  "lands keccak t key len res =
     ((\<exists>r. res = Some (r, NilNode) \<and> pget t key = None) \<or>
      (\<exists>r v. res = Some (r, ValueNode v) \<and> pget t key = Some v) \<or>
      (\<exists>r u. res = Some (r, HashNode (hash_of keccak u)) \<and> u \<in> subs t \<and> wfs u \<and> large keccak u \<and>
         fits u r \<and> pget t key = pget u r \<and> set (ppath u r) \<subseteq> set (ppath t key) \<and> length r < len))"

lemma lands_step:
  assumes "lands keccak c key' len res" "subs c \<subseteq> subs t" "pget t key = pget c key'" "set (ppath c key') \<subseteq> set (ppath t key)" "len \<le> len'"
  shows "lands keccak t key len' res"
  using assms unfolding lands_def by (fastforce intro: subset_trans order.strict_trans2)

lemma prefix_test: "length key < length k \<or> k \<noteq> take (length k) key \<longleftrightarrow> take (length k) key \<noteq> k"
  by (auto simp del: take_self_append dest: arg_cong [of _ _ length])

lemma proof_get_lands:
  "t = PNil \<or> is_val t \<or> wfs t \<Longrightarrow> fits t key \<Longrightarrow>
   lands keccak t key (if w then length key else Suc (length key)) (proof_get (ref_node keccak g h w t) key)"
proof (induction t arbitrary: key w h)
  case PNil
  then show ?case by (simp add: lands_def)
next
  case (PVal v)
  then show ?case by (auto simp: lands_def fits_def wf_trie_def)
next
  case (PShort k c)
  have wf: "wfs (PShort k c)" using PShort.prems(1) by simp
  show ?case
  proof (cases "w \<or> \<not> large keccak (PShort k c)")
    case False
    then show ?thesis using wf PShort.prems(2) unfolding lands_def by auto
  next
    case True
    then have e: "ref_node keccak g h w (PShort k c) = ShortNode k (ref_node keccak g None False c) \<lparr>nfHash = h, nfGen = g, nfDirty = False\<rparr>"
      by auto
    show ?thesis
    proof (cases "take (length k) key = k")
      case False
      then have "proof_get (ref_node keccak g h w (PShort k c)) key = Some ([], NilNode)" "pget (PShort k c) key = None"
        unfolding e using prefix_test [of key k] by (simp_all del: take_self_append)
      then show ?thesis by (simp add: lands_def)
    next
      case m: True
      then obtain r where r: "key = k @ r" by auto
      have k: "k \<noteq> []" "fits c r" using fits_short PShort.prems(2) r by auto
      have "lands keccak c r (Suc (length r)) (proof_get (ref_node keccak g None False c) r)"
        using PShort.IH [of r False None] k(2) wf by auto
      then have "lands keccak (PShort k c) key (length key) (proof_get (ref_node keccak g None False c) r)"
        by (rule lands_step) (use r k(1) in \<open>auto simp: neq_Nil_conv\<close>)
      moreover have "proof_get (ref_node keccak g h w (PShort k c)) key = proof_get (ref_node keccak g None False c) r"
        unfolding e using r by simp
      ultimately show ?thesis by (auto intro: lands_step)
    qed
  qed
next
  case (PFull cs)
  have wf: "wfs (PFull cs)" using PFull.prems(1) by simp
  show ?case
  proof (cases "w \<or> \<not> large keccak (PFull cs)")
    case False
    then show ?thesis using wf PFull.prems(2) unfolding lands_def by auto
  next
    case True
    then have e: "ref_node keccak g h w (PFull cs) = FullNode (map (ref_node keccak g None False) cs) \<lparr>nfHash = h, nfGen = g, nfDirty = False\<rparr>"
      by auto
    obtain x r where x: "key = x # r" "unat x < 17" "length cs = 17" "fits (cs ! unat x) r"
      using PFull.prems(2) fits_full by blast
    have mem: "cs ! unat x \<in> set cs" using x by simp
    have "lands keccak (cs ! unat x) r (Suc (length r)) (proof_get (ref_node keccak g None False (cs ! unat x)) r)"
      using PFull.IH [OF mem full_kinds [OF wf mem] x(4), of False None] by simp
    then have "lands keccak (PFull cs) key (length key) (proof_get (ref_node keccak g None False (cs ! unat x)) r)"
      by (rule lands_step) (use x mem in auto)
    moreover have "proof_get (ref_node keccak g h w (PFull cs)) key = proof_get (ref_node keccak g None False (cs ! unat x)) r"
      unfolding e using x by simp
    ultimately show ?thesis by (auto intro: lands_step)
  qed
qed

section \<open>Verification\<close>

definition proof_ok :: "(bytes \<Rightarrow> hash) \<Rightarrow> bytes set \<Rightarrow> proof_db \<Rightarrow> bool" where
  "proof_ok keccak C db = (\<forall>h buf. db (Hash_Bytes h) = Some buf \<longrightarrow> buf \<in> C \<and> keccak buf = h)"

lemma Hash_Bytes_inject: "Hash_Bytes a = Hash_Bytes b \<longleftrightarrow> a = b"
  using BytesToHash_Hash_Bytes by metis

lemma proof_ok_put: "proof_ok keccak C db \<Longrightarrow> x \<in> C \<Longrightarrow> proof_ok keccak C (db(Hash_Bytes (keccak x) \<mapsto> x))"
  by (auto simp: proof_ok_def Hash_Bytes_inject)

lemma copy_hash: "copy_into (Hash_Bytes a) (Hash_Bytes b) = Hash_Bytes b"
  by (simp add: copy_into_def)

definition covers :: "(bytes \<Rightarrow> hash) \<Rightarrow> proof_db \<Rightarrow> ptrie \<Rightarrow> bytes \<Rightarrow> bool" where
  "covers keccak db t key = (\<forall>u \<in> set (ppath t key). large keccak u \<or> u = t \<longrightarrow> db (hash_of keccak u) \<noteq> None)"

lemma ppath_self: "wfs t \<Longrightarrow> t \<in> set (ppath t key)"
  by (cases t) auto

lemma subs_trans: "u \<in> subs t \<Longrightarrow> w \<in> subs u \<Longrightarrow> w \<in> subs t"
  by (induction t) auto

lemma VerifyProof_loop_ok:
  assumes C: "no_collision keccak C" "encs_in keccak C p" and db: "proof_ok keccak C db"
  shows "u \<in> subs p \<Longrightarrow> wfs u \<Longrightarrow> fits u key \<Longrightarrow> length key < fuel \<Longrightarrow>
    \<exists>v n e. VerifyProof_loop db fuel i (keccak (enc keccak u)) key = Some (v, n, e) \<and>
      (e = None \<longrightarrow> v = pget u key) \<and> (covers keccak db u key \<longrightarrow> e = None)"
proof (induction fuel arbitrary: i u key)
  case (Suc fuel)
  have inC: "enc keccak u \<in> C" using C(2) Suc.prems(1,2) by (simp add: encs_in_def)
  then have len: "length (enc keccak u) < 2 ^ 63 - 9" using C(1) by (auto simp: no_collision_def)
  show ?case
  proof (cases "db (hash_of keccak u)")
    case None
    then show ?thesis using ppath_self [OF Suc.prems(2), of key] by (auto simp: covers_def)
  next
    case (Some buf)
    have buf: "buf = enc keccak u" using C(1) db Some inC unfolding proof_ok_def no_collision_def by blast
    let ?n = "ref_node keccak 0 (Some (hash_of keccak u)) True u"
    have dec: "decodeNode (Suc (length buf)) (Some (hash_of keccak u)) buf 0 = Some (Inr ?n)"
      using decodeNode_enc [OF Suc.prems(2), of keccak "Suc (length buf)" "[]"] len unfolding buf by simp
    have "lands keccak u key (length key) (proof_get ?n key)"
      using proof_get_lands [of u key keccak True] Suc.prems(2,3) by simp
    then consider r where "proof_get ?n key = Some (r, NilNode)" "pget u key = None"
      | r v where "proof_get ?n key = Some (r, ValueNode v)" "pget u key = Some v"
      | r w where "proof_get ?n key = Some (r, HashNode (hash_of keccak w))" "w \<in> subs u" "wfs w" "large keccak w"
          "fits w r" "pget u key = pget w r" "set (ppath w r) \<subseteq> set (ppath u key)" "length r < length key"
      unfolding lands_def by blast
    then show ?thesis
    proof cases
      case 1
      then show ?thesis using Some dec by simp
    next
      case 2
      then show ?thesis using Some dec by simp
    next
      case (3 r w)
      have "w \<in> subs p" using subs_trans [OF Suc.prems(1) 3(2)] .
      moreover have "length r < fuel" using 3(8) Suc.prems(4) by simp
      moreover have "covers keccak db u key \<longrightarrow> covers keccak db w r" using 3(4,7) by (auto simp: covers_def)
      ultimately obtain v n e where "VerifyProof_loop db fuel (i + 1) (keccak (enc keccak w)) r = Some (v, n, e)"
          "e = None \<longrightarrow> v = pget w r" "covers keccak db u key \<longrightarrow> e = None"
        using Suc.IH [OF _ 3(3,5), of "i + 1"] by blast
      then show ?thesis using 3(1,6) Some dec by (auto simp: copy_hash simp del: decodeNode.simps)
    qed
  qed
qed simp

lemma VerifyProof_ok:
  assumes C: "no_collision keccak C" "blobs keccak m \<subseteq> C" and db: "proof_ok keccak C db" and p: "spells p m"
    and fuel: "2 * length key + 1 < fuel"
  shows "\<exists>v n e. VerifyProof fuel (root_of keccak p) key db = Some (v, n, e) \<and> (e = None \<longrightarrow> v = m key) \<and>
      (p \<noteq> PNil \<longrightarrow> covers keccak db p (keybytesToHex key) \<longrightarrow> e = None)"
proof (cases "p = PNil")
  case True
  have "db (Hash_Bytes emptyRoot) = None"
    using C(1) db unfolding proof_ok_def no_collision_def by (metis not_None_eq)
  then show ?thesis using True fuel by (cases fuel) (simp_all add: VerifyProof_def root_of_def)
next
  case False
  then have w: "wfs p" using p by (auto simp: spells_def wf_trie_def)
  have e: "encs_in keccak C p" using encs_in_blobs [OF p] C(2) by (auto simp: encs_in_def)
  have "length (keybytesToHex key) < fuel" using fuel by (simp add: keybytesToHex_def)
  from VerifyProof_loop_ok [OF C(1) e db subs_self w fits_key [OF p] this, of 0]
  show ?thesis using False p by (simp add: VerifyProof_def root_of_def spells_def)
qed

section \<open>Construction\<close>

lemma prove_path_ok:
  "tracks keccak src b n t \<Longrightarrow> fits t key \<Longrightarrow> enough fuel n (length key) \<Longrightarrow>
   \<exists>ns. prove_path src g fuel n key = Some (Inr ns) \<and>
     list_all2 (\<lambda>n u. is_inner n \<and> wfs u \<and> u \<in> subs t \<and> (\<exists>b. tracks keccak src b n u)) ns (ppath t key)"
proof (induction fuel arbitrary: b n t key)
  case (Suc fuel)
  show ?case
  proof (cases "key = [] \<or> n = NilNode")
    case True
    then have "ppath t key = []" using Suc.prems(1,2) track.nilE by (cases t) (auto simp: fits_def wf_trie_def)
    then show ?thesis using True by simp
  next
    case False
    then have wf: "wfs t" using Suc.prems(1,2) track.not_nil by (auto simp: fits_def wf_trie_def)
    show ?thesis
    proof (cases n)
      case (ShortNode k c f)
      then obtain t' where t: "t = PShort k t'" "tracks keccak src False c t'" using Suc.prems(1) track.shortE by blast
      show ?thesis
      proof (cases "take (length k) key = k")
        case m: False
        then show ?thesis using ShortNode t(1) wf Suc.prems(1) False prefix_test [of key k]
          by (auto simp del: take_self_append)
      next
        case True
        then obtain r where r: "key = k @ r" by auto
        have k: "k \<noteq> []" "fits t' r" using fits_short Suc.prems(2) r t(1) by auto
        have "enough fuel c (length r)" using Suc.prems(3) r k(1) ShortNode by (cases k) auto
        then obtain ns where ns: "prove_path src g fuel c r = Some (Inr ns)"
            "list_all2 (\<lambda>n u. is_inner n \<and> wfs u \<and> u \<in> subs t' \<and> (\<exists>b. tracks keccak src b n u)) ns (ppath t' r)"
          using Suc.IH [OF t(2) k(2)] by blast
        have "list_all2 (\<lambda>n u. is_inner n \<and> wfs u \<and> u \<in> subs t \<and> (\<exists>b. tracks keccak src b n u)) ns (ppath t' r)"
          using ns(2) by (rule list_all2_mono) (use t(1) in auto)
        then show ?thesis using ShortNode t(1) wf Suc.prems(1) False r ns(1) by auto
      qed
    next
      case (FullNode cs f)
      then obtain ts where t: "t = PFull ts" "length cs = length ts" "\<forall>i < length cs. tracks keccak src False (cs ! i) (ts ! i)"
        using Suc.prems(1) track.fullE by blast
      obtain x r where x: "key = x # r" "unat x < 17" "length ts = 17" "fits (ts ! unat x) r"
        using Suc.prems(2) t(1) fits_full by blast
      have "enough fuel (cs ! unat x) (length r)" using Suc.prems(3) FullNode x(1) by auto
      then obtain ns where ns: "prove_path src g fuel (cs ! unat x) r = Some (Inr ns)"
          "list_all2 (\<lambda>n u. is_inner n \<and> wfs u \<and> u \<in> subs (ts ! unat x) \<and> (\<exists>b. tracks keccak src b n u)) ns (ppath (ts ! unat x) r)"
        using Suc.IH [of False "cs ! unat x" "ts ! unat x" r] t x by auto
      have "list_all2 (\<lambda>n u. is_inner n \<and> wfs u \<and> u \<in> subs t \<and> (\<exists>b. tracks keccak src b n u)) ns (ppath (ts ! unat x) r)"
        using ns(2) by (rule list_all2_mono) (use t(1) x in \<open>auto intro!: nth_mem\<close>)
      then show ?thesis using FullNode t wf Suc.prems(1) False x ns(1) by auto
    next
      case (HashNode h)
      then obtain n1 where n1: "resolveHash src g h [] = Some (Inr n1)" "is_inner n1" "tracks keccak src b n1 t"
        using Suc.prems(1) track.hashE by blast
      have "enough fuel n1 (length key)" using Suc.prems(3) HashNode is_inner_not_hash [OF n1(2)] by simp
      then show ?thesis using Suc.IH [OF n1(3) Suc.prems(2)] n1(1) HashNode False by auto
    next
      case (ValueNode v)
      then show ?thesis using Suc.prems(1) wf by (auto simp: track.valueE)
    qed (use False in simp)
  qed
qed simp

lemma prove_puts_ok:
  assumes C: "no_collision keccak C"
  shows "list_all2 (\<lambda>n u. is_inner n \<and> wfs u \<and> encs_in keccak C u \<and> size n < fuel \<and> (\<exists>b. tracks keccak src b n u)) ns us \<Longrightarrow>
    proof_ok keccak C db \<Longrightarrow>
    \<exists>db'. prove_puts keccak fuel ns i 0 db = Some db' \<and> proof_ok keccak C db' \<and> (\<forall>k. db k \<noteq> None \<longrightarrow> db' k \<noteq> None) \<and>
      (\<forall>j < length us. large keccak (us ! j) \<or> i + j = 0 \<longrightarrow> db' (hash_of keccak (us ! j)) \<noteq> None)"
proof (induction ns arbitrary: us i db)
  case Nil
  then show ?case by simp
next
  case (Cons n ns)
  then obtain u us' b where us: "us = u # us'" "is_inner n" "wfs u" "encs_in keccak C u" "size n < fuel" "tracks keccak src b n u"
      "list_all2 (\<lambda>n u. is_inner n \<and> wfs u \<and> encs_in keccak C u \<and> size n < fuel \<and> (\<exists>b. tracks keccak src b n u)) ns us'"
    by (cases us) auto
  have l: "leaf_ok keccak C None" by (simp add: leaf_ok_def)
  have o: "opt_ok keccak C None" by (simp add: opt_ok_def)
  have tr: "tracks keccak (src_of src None) b n u" using us(6) by (simp add: src_of_def)
  have hs: "hashes keccak C src fuel (hasher_hash keccak None 0 0 fuel False)"
    unfolding hashes_def using hasher_hash_ok [OF no_collision_bounded [OF C] l] by blast
  obtain x y db1 where c: "hashChildren (hasher_hash keccak None 0 0 fuel False) n None = Some (x, y, db1)"
      "simplifyNode x = Some (rn keccak True u)" "node_cache x = node_cache n" "settled keccak C src None db1"
    using hashChildren_ok [OF hs tr us(2,3,4) less_imp_le [OF us(5)] o] by metis
  have inC: "enc keccak u \<in> C" using us(3,4) by (simp add: encs_in_def)
  have hx: "\<forall>h. fst (node_cache x) = Some h \<longrightarrow> h = hash_of keccak u"
    using us(2,6) c(3) by (cases n) (auto elim!: tracks_ShortE tracks_FullE simp: flag_ok_def)
  obtain z db2 where z: "hasher_store keccak None x None False = Some (z, db2)" "hashed_as keccak False z u"
    by (rule store_ok [OF no_collision_bounded [OF C] l o us(3) inC c(2) hx, of False src])
  have item: "node_item x = enc_item keccak u" using simplify_item [OF c(2)] rnode_item_rn [of u keccak True] us(3) by simp
  have "length (enc keccak u) < 2 ^ 64" using C inC by (force simp: no_collision_def)
  then have blob: "EncodeToBytes (node_item x) = Some (enc keccak u)" unfolding item by (rule EncodeToBytes_rlp)
  have hz: "(case z of HashNode h \<Rightarrow> h | _ \<Rightarrow> hash_of keccak u) = hash_of keccak u" "is_hash z \<longleftrightarrow> large keccak u"
    using z(2) by (cases z; auto simp: hashed_as_def split: if_splits)+
  define db3 where "db3 = (if large keccak u \<or> i = 0 then db(hash_of keccak u \<mapsto> enc keccak u) else db)"
  have e: "prove_puts keccak fuel (n # ns) i 0 db = prove_puts keccak fuel ns (i + 1) 0 db3"
    using c(1) z(1) blob hz by (simp add: Let_def db3_def)
  have "proof_ok keccak C db3"
    using Cons.prems(2) proof_ok_put [OF _ inC] by (simp add: db3_def)
  then obtain db' where db': "prove_puts keccak fuel ns (i + 1) 0 db3 = Some db'" "proof_ok keccak C db'"
      "\<forall>k. db3 k \<noteq> None \<longrightarrow> db' k \<noteq> None"
      "\<forall>j < length us'. large keccak (us' ! j) \<or> i + 1 + j = 0 \<longrightarrow> db' (hash_of keccak (us' ! j)) \<noteq> None"
    using Cons.IH [OF us(7)] by blast
  have mono: "\<forall>k. db k \<noteq> None \<longrightarrow> db' k \<noteq> None" using db'(3) by (auto simp: db3_def split: if_splits)
  have "large keccak (us ! j) \<or> i + j = 0 \<longrightarrow> db' (hash_of keccak (us ! j)) \<noteq> None" if "j < length us" for j
    using that db'(3,4) us(1) by (cases j) (auto simp: db3_def split: if_splits)
  then show ?case using e db'(1,2) mono by auto
qed

lemma ppath_hd: "wfs t \<Longrightarrow> ppath t key ! 0 = t"
  by (cases t) auto

lemma Trie_Prove_ok:
  assumes p: "tracks keccak src True (tRoot t) p" "spells p m" "p \<noteq> PNil" and C: "no_collision keccak C" "blobs keccak m \<subseteq> C"
    and db: "proof_ok keccak C db" and fuel: "key_fuel key \<le> fuel"
  shows "\<exists>N. \<forall>depth \<ge> N. \<exists>db'. Trie_Prove keccak src fuel depth key 0 t db = Some (None, db') \<and> proof_ok keccak C db' \<and>
      covers keccak db' p (keybytesToHex key)"
proof -
  have w: "wfs p" using p(2,3) by (auto simp: spells_def wf_trie_def)
  obtain ns where ns: "prove_path src (tCachegen t) fuel (tRoot t) (keybytesToHex key) = Some (Inr ns)"
      "list_all2 (\<lambda>n u. is_inner n \<and> wfs u \<and> u \<in> subs p \<and> (\<exists>b. tracks keccak src b n u)) ns (ppath p (keybytesToHex key))"
    using prove_path_ok [OF p(1) fits_key [OF p(2)] enough_key [OF fuel]] by blast
  have e: "encs_in keccak C u" if "u \<in> subs p" for u
    using encs_in_blobs [OF p(2)] C(2) subs_trans [OF that] by (auto simp: encs_in_def)
  show ?thesis
  proof (rule exI [of _ "Suc (sum_list (map size ns))"], intro allI impI)
    fix depth
    assume d: "Suc (sum_list (map size ns)) \<le> depth"
    have s: "size n < depth" if "n \<in> set ns" for n
      using member_le_sum_list [of "size n" "map size ns"] that d by auto
    have "list_all2 (\<lambda>n u. is_inner n \<and> wfs u \<and> encs_in keccak C u \<and> size n < depth \<and> (\<exists>b. tracks keccak src b n u))
        ns (ppath p (keybytesToHex key))"
      using ns(2) using s e by (auto simp: list_all2_conv_all_nth)
    then obtain db' where db': "prove_puts keccak depth ns 0 0 db = Some db'" "proof_ok keccak C db'"
        "\<forall>j < length (ppath p (keybytesToHex key)). large keccak (ppath p (keybytesToHex key) ! j) \<or> 0 + j = 0 \<longrightarrow>
          db' (hash_of keccak (ppath p (keybytesToHex key) ! j)) \<noteq> None"
      using prove_puts_ok [OF C(1) _ db, where fuel = depth and src = src and ns = ns and us = "ppath p (keybytesToHex key)" and i = 0] by blast
    have "db' (hash_of keccak u) \<noteq> None" if u: "u \<in> set (ppath p (keybytesToHex key))" "large keccak u \<or> u = p" for u
    proof (cases "u = p")
      case True
      then show ?thesis using db'(3) ppath_hd [OF w, of "keybytesToHex key"] u(1) by (metis add_0 length_pos_if_in_set)
    next
      case False
      then show ?thesis using db'(3) u by (metis in_set_conv_nth)
    qed
    then show "\<exists>db'. Trie_Prove keccak src fuel depth key 0 t db = Some (None, db') \<and> proof_ok keccak C db' \<and>
      covers keccak db' p (keybytesToHex key)"
      using db'(1,2) ns(1) by (auto simp: Trie_Prove_def covers_def)
  qed
qed

end
