(* ===== verification/Trie_Props.thy ===== *)
theory Trie_Props
  imports Trie_Proof
begin

text \<open>
  What a client of the trie relies on: the operations implement a map, the root hash depends on the map only and determines
  it, a committed trie can be opened again, and proofs are sound and complete. The empty trie and a trie with one key serve
  as the examples.
\<close>

section \<open>Examples\<close>

definition new_trie :: Trie where
  "new_trie = \<lparr>tRoot = NilNode, tOriginalRoot = 0, tCachegen = 0, tCachelimit = 0\<rparr>"

lemma New_new_trie: "Trie_New 0 src = Some (Inr new_trie)"
  by (simp add: Trie_New_def new_trie_def)

lemma new_trie_stores: "stores (tracks keccak src) new_trie (\<lambda>_. None)"
  using track.stores_empty [of 0 src keccak] by (simp add: New_new_trie)

definition one_trie :: Trie where
  "one_trie = new_trie\<lparr>tRoot := ShortNode (keybytesToHex [1]) (ValueNode [2]) (newFlag 0)\<rparr>"

abbreviation one_ptrie :: ptrie where
  "one_ptrie \<equiv> PShort (keybytesToHex [1]) (PVal [2])"

lemma one_trie_tracks: "tracks keccak src True (tRoot one_trie) one_ptrie"
  by (auto simp: one_trie_def intro: tracks.intros)

lemma single_spells: "v \<noteq> [] \<Longrightarrow> spells (PShort (keybytesToHex k) (PVal v)) [k \<mapsto> v]"
  using spells_insert [OF spells_empty, of v k] by (cases "keybytesToHex k") (auto simp: keybytesToHex_def)

lemma one_ptrie_spells: "spells one_ptrie [[1] \<mapsto> [2]]"
  by (rule single_spells) simp

lemma one_trie_stores: "stores (tracks keccak src) one_trie [[1] \<mapsto> [2]]"
  using one_trie_tracks one_ptrie_spells by (auto simp: stores_def)

lemma single_blobs:
  assumes "v \<noteq> []"
  shows "blobs keccak [k \<mapsto> v] = {enc keccak (PShort (keybytesToHex k) (PVal v))}"
proof -
  have s: "spells (PShort (keybytesToHex k) (PVal v)) [k \<mapsto> v]" using single_spells [OF assms] .
  have u: "spells p [k \<mapsto> v] \<longleftrightarrow> p = PShort (keybytesToHex k) (PVal v)" for p
    using spells_unique [OF _ s] s by blast
  have "wfs (PShort (keybytesToHex k) (PVal v))" using s unfolding spells_def wf_trie_def by blast
  then show ?thesis unfolding blobs_def u by auto
qed

abbreviation demo_hash :: "bytes \<Rightarrow> hash" where
  "demo_hash \<equiv> (\<lambda>_. 1)"

lemma one_small: "small_map [[1] \<mapsto> [2]]"
  by (simp add: small_map_def)

lemma single_no_collision:
  assumes "v \<noteq> []" "small_map [k \<mapsto> v]"
  shows "no_collision demo_hash (blobs demo_hash [k \<mapsto> v])"
proof -
  have "length (enc demo_hash (PShort (keybytesToHex k) (PVal v))) < 2 ^ 63 - 9"
    using blobs_bounded [OF assms(2), of demo_hash] unfolding single_blobs [OF assms(1)] bounded_def by simp
  then show ?thesis unfolding single_blobs [OF assms(1)] no_collision_def by (simp add: emptyRoot_def)
qed

lemma one_no_collision: "no_collision demo_hash (blobs demo_hash [[1] \<mapsto> [2]])"
  by (rule single_no_collision [OF _ one_small]) simp

section \<open>The operations implement a map\<close>

text \<open>C26. On a trie that stores a map, in memory, as hash nodes of the database or mixed, and with the caching flags in any
  consistent state: \<^verbatim>\<open>TryGet\<close> returns the value of the map, \<^verbatim>\<open>TryUpdate\<close> stores the value under the key, or removes the key
  when the value is empty, and \<^verbatim>\<open>TryDelete\<close> removes the key. None of them panics, reports a missing node or needs more than
  \<open>4 * length key + 4\<close> nested calls.\<close>

theorem Trie_ops_refine:
  assumes "stores (tracks keccak src) t m" "4 * length key + 4 \<le> fuel"
  shows "(\<exists>t'. Trie_TryGet src fuel key t = Some ((m key, None), t') \<and> stores (tracks keccak src) t' m) \<and>
    (\<exists>t'. Trie_TryUpdate src fuel key v t = Some (None, t') \<and>
       stores (tracks keccak src) t' (m(key := if v = [] then None else Some v))) \<and>
    (\<exists>t'. Trie_TryDelete src fuel key t = Some (None, t') \<and> stores (tracks keccak src) t' (m(key := None)))"
  using track.TryGet_stores [OF assms] track.TryUpdate_stores [OF assms] track.TryDelete_stores [OF assms] by blast

theorem Trie_ops_refine_witness:
  "\<exists>t'. Trie_TryUpdate (\<lambda>_ _. Some None) 8 [1] [3] one_trie = Some (None, t') \<and>
     stores (tracks demo_hash (\<lambda>_ _. Some None)) t' ([[1] \<mapsto> [2]]([1] := if [3] = ([] :: bytes) then None else Some [3]))"
  using Trie_ops_refine [OF one_trie_stores, where keccak = demo_hash and src = "\<lambda>_ _. Some None" and key = "[1]" and fuel = 8 and v = "[3]"]
  by simp

section \<open>The root hash\<close>

text \<open>A proof database that holds every encoding shows that equal roots store equal maps.\<close>

lemma ppath_wfs: "wf_trie t \<or> is_val t \<Longrightarrow> u \<in> set (ppath t key) \<Longrightarrow> wfs u \<and> u \<in> subs t"
proof (induction t key rule: ppath.induct)
  case (1 k c key)
  then have w: "wfs (PShort k c)" by (simp add: wf_trie_def)
  then have "wf_trie c \<or> is_val c" by (auto simp: wf_trie_def)
  then show ?case using 1 w by (auto split: if_splits)
next
  case (2 cs key)
  then have w: "wfs (PFull cs)" by (simp add: wf_trie_def)
  have "wf_trie c \<or> is_val c" if "c \<in> set cs" for c using full_kinds [OF w that] by (auto simp: wf_trie_def)
  then show ?case using 2 w by (auto split: if_splits list.splits simp del: wfs.simps)
qed auto

lemma root_not_empty:
  assumes "no_collision keccak C" "spells p m" "blobs keccak m \<subseteq> C" "p \<noteq> PNil"
  shows "root_of keccak p \<noteq> emptyRoot"
proof -
  have "wfs p" using assms(2,4) unfolding spells_def wf_trie_def by blast
  then have "enc keccak p \<in> C" using encs_in_blobs [OF assms(2), of keccak] assms(3) by (auto simp: encs_in_def)
  then show ?thesis using assms(1,4) by (auto simp: root_of_def no_collision_def)
qed

lemma root_not_zero:
  assumes "no_collision keccak C" "spells p m" "blobs keccak m \<subseteq> C" "p \<noteq> PNil"
  shows "root_of keccak p \<noteq> 0"
proof -
  have "wfs p" using assms(2,4) unfolding spells_def wf_trie_def by blast
  then have "enc keccak p \<in> C" using encs_in_blobs [OF assms(2), of keccak] assms(3) by (auto simp: encs_in_def)
  then show ?thesis using assms(1,4) by (auto simp: root_of_def no_collision_def)
qed

lemma root_of_inject:
  assumes C: "no_collision keccak C" and p: "spells p m" "spells p' m'" and b: "blobs keccak m \<subseteq> C" "blobs keccak m' \<subseteq> C"
    and r: "root_of keccak p = root_of keccak p'"
  shows "m = m'"
proof
  fix key
  define db where "db = (\<lambda>k. if \<exists>x \<in> C. k = Hash_Bytes (keccak x) then Some (SOME x. x \<in> C \<and> k = Hash_Bytes (keccak x)) else None)"
  have "db (Hash_Bytes (keccak x)) = Some x" if "x \<in> C" for x
  proof -
    have "(SOME y. y \<in> C \<and> Hash_Bytes (keccak x) = Hash_Bytes (keccak y)) = x"
      using C that by (intro some_equality) (auto simp: no_collision_def Hash_Bytes_inject)
    then show ?thesis using that by (auto simp: db_def)
  qed
  then have full: "db (Hash_Bytes (keccak x)) = Some x" if "x \<in> C" for x using that .
  have ok: "proof_ok keccak C db" unfolding proof_ok_def
  proof (intro allI impI)
    fix h buf
    assume a: "db (Hash_Bytes h) = Some buf"
    then obtain x where "x \<in> C" "Hash_Bytes h = Hash_Bytes (keccak x)" by (auto simp: db_def split: if_splits)
    then show "buf \<in> C \<and> keccak buf = h" using a full [of x] by (simp add: Hash_Bytes_inject)
  qed
  have cover: "covers keccak db q k" if q: "spells q n" "blobs keccak n \<subseteq> C" for q n k
  proof -
    have "enc keccak u \<in> C" if "u \<in> set (ppath q k)" for u
      using ppath_wfs [OF _ that] q encs_in_blobs [OF q(1), of keccak] by (auto simp: spells_def encs_in_def)
    then show ?thesis using full by (auto simp: covers_def)
  qed
  obtain v n e v' n' e' where
      v: "VerifyProof (2 * length key + 2) (root_of keccak p) key db = Some (v, n, e)" "e = None \<longrightarrow> v = m key" "p \<noteq> PNil \<longrightarrow> e = None"
    and v': "VerifyProof (2 * length key + 2) (root_of keccak p') key db = Some (v', n', e')" "e' = None \<longrightarrow> v' = m' key" "p' \<noteq> PNil \<longrightarrow> e' = None"
    using VerifyProof_ok [OF C b(1) ok p(1), of key] VerifyProof_ok [OF C b(2) ok p(2), of key] cover [OF p(1) b(1)] cover [OF p(2) b(2)]
    by (metis lessI add_2_eq_Suc' Suc_eq_plus1)
  have "p = PNil \<longleftrightarrow> p' = PNil" using r root_not_empty [OF C p(1) b(1)] root_not_empty [OF C p(2) b(2)] by (metis root_of_def)
  then show "m key = m' key"
  proof (cases "p = PNil")
    case True
    then show ?thesis using p \<open>p = PNil \<longleftrightarrow> p' = PNil\<close> spells_empty by (metis spells_def)
  qed (use v v' r in auto)
qed

lemma empty_blobs: "blobs keccak (\<lambda>_. None) = {}"
proof -
  have "spells p (\<lambda>_. None) \<longleftrightarrow> p = PNil" for p using spells_unique [OF _ spells_empty] spells_empty by blast
  then show ?thesis unfolding blobs_def by simp
qed

text \<open>C27. The root hash is a function of the map a trie stores: two tries that store the same map, whatever the order
  of the writes and deletions that made them and however much of them is loaded, have the same hash. Nothing is assumed
  about the hash function.\<close>

theorem Trie_Hash_canonical:
  assumes "stores (tracks keccak src) t m" "stores (tracks keccak src') t' m" "small_map m"
    and "size (tRoot t) < fuel" "size (tRoot t') < fuel"
  shows "\<exists>h t1 t1'. Trie_Hash keccak fuel t = Some (h, t1) \<and> Trie_Hash keccak fuel t' = Some (h, t1') \<and>
    stores (tracks keccak src) t1 m \<and> stores (tracks keccak src') t1' m"
proof -
  obtain p where p: "tracks keccak src True (tRoot t) p" "spells p m" using assms(1) by (auto simp: stores_def)
  obtain p' where p': "tracks keccak src' True (tRoot t') p'" "spells p' m" using assms(2) by (auto simp: stores_def)
  have e: "p' = p" using spells_unique [OF p'(2) p(2)] .
  obtain t1 where "Trie_Hash keccak fuel t = Some (root_of keccak p, t1)" "tracks keccak src True (tRoot t1) p"
    using Trie_Hash_stores [OF p assms(3,4)] by blast
  moreover obtain t1' where "Trie_Hash keccak fuel t' = Some (root_of keccak p, t1')" "tracks keccak src' True (tRoot t1') p"
    using Trie_Hash_stores [OF p' assms(3,5)] e by blast
  ultimately show ?thesis using p(2) by (auto simp: stores_def)
qed

theorem Trie_Hash_canonical_witness:
  "\<exists>h t1 t1'. Trie_Hash demo_hash 100 one_trie = Some (h, t1) \<and>
     Trie_Hash demo_hash 100 (one_trie\<lparr>tCachegen := 7\<rparr>) = Some (h, t1') \<and>
     stores (tracks demo_hash (\<lambda>_ _. Some None)) t1 [[1] \<mapsto> [2]] \<and>
     stores (tracks demo_hash (\<lambda>_ _. Some None)) t1' [[1] \<mapsto> [2]]"
  by (rule Trie_Hash_canonical [OF one_trie_stores _ one_small])
     (use one_trie_stores [of demo_hash "\<lambda>_ _. Some None"] in \<open>simp_all add: stores_def one_trie_def new_trie_def newFlag_def keybytesToHex_def\<close>)

text \<open>C28. Among encodings without hash collisions the root hash also determines the map: the hashes of two tries are
  equal exactly when they store the same map.\<close>

theorem Trie_Hash_binding:
  assumes "stores (tracks keccak src) t m" "stores (tracks keccak src') t' m'"
    and "no_collision keccak C" "blobs keccak m \<subseteq> C" "blobs keccak m' \<subseteq> C" "small_map m" "small_map m'"
    and "size (tRoot t) < fuel" "size (tRoot t') < fuel"
  shows "\<exists>h t1 h' t1'. Trie_Hash keccak fuel t = Some (h, t1) \<and> Trie_Hash keccak fuel t' = Some (h', t1') \<and> (h = h' \<longleftrightarrow> m = m')"
proof -
  obtain p where p: "tracks keccak src True (tRoot t) p" "spells p m" using assms(1) by (auto simp: stores_def)
  obtain p' where p': "tracks keccak src' True (tRoot t') p'" "spells p' m'" using assms(2) by (auto simp: stores_def)
  have "m = m'" if "root_of keccak p = root_of keccak p'"
    using root_of_inject [OF assms(3) p(2) p'(2) assms(4,5) that] .
  moreover have "root_of keccak p = root_of keccak p'" if "m = m'" using spells_unique p(2) p'(2) that by metis
  ultimately show ?thesis
    using Trie_Hash_stores [OF p assms(6,8)] Trie_Hash_stores [OF p' assms(7,9)] by blast
qed

theorem Trie_Hash_binding_witness:
  "\<exists>h t1 h' t1'. Trie_Hash demo_hash 100 one_trie = Some (h, t1) \<and> Trie_Hash demo_hash 100 new_trie = Some (h', t1') \<and>
     (h = h' \<longleftrightarrow> [[1 :: u8] \<mapsto> [2 :: u8]] = (\<lambda>_. None))"
  by (rule Trie_Hash_binding [OF one_trie_stores new_trie_stores one_no_collision subset_refl _ one_small])
     (simp_all add: empty_blobs small_map_def one_trie_def new_trie_def newFlag_def keybytesToHex_def)

section \<open>Committing and opening\<close>

lemma one_db_ok: "db_ok keccak C (NewDatabase (\<lambda>_. None))"
  by (simp add: db_ok_def NewDatabase_def entry_def)

text \<open>C29. Committing a trie to the node database returns its root hash, and opening that root on the database after the
  commit gives a trie with the same map; the committed trie itself still stores the map. The leaf callback may be any
  function that keeps the contents of the nodes.\<close>

theorem Trie_Commit_New:
  assumes "stores (tracks keccak (Database_node d)) t m" "size (tRoot t) < fuel" "db_ok keccak C d" "leaf_ok keccak C onleaf"
    and "no_collision keccak C" "blobs keccak m \<subseteq> C" "small_map m"
  shows "\<exists>root t' d' t2. Trie_Commit keccak onleaf fuel t d = Some (root, t', d') \<and> db_ok keccak C d' \<and>
    map_option fst (Trie_Hash keccak fuel t) = Some root \<and>
    stores (tracks keccak (Database_node d')) t' m \<and>
    Trie_New root (Database_node d') = Some (Inr t2) \<and> stores (tracks keccak (Database_node d')) t2 m"
proof -
  obtain p where p: "tracks keccak (Database_node d) True (tRoot t) p" "spells p m" using assms(1) by (auto simp: stores_def)
  obtain t' d' where c: "Trie_Commit keccak onleaf fuel t d = Some (root_of keccak p, t', d')" "db_ok keccak C d'"
      "tracks keccak (Database_node d') True (tRoot t') p"
      "p \<noteq> PNil \<longrightarrow> deep keccak (Database_node d') p \<and> avail keccak (Database_node d') p"
    by (rule Trie_Commit_stores [OF p assms(2,5,6,3,4)])
  obtain t2 where "Trie_New (root_of keccak p) (Database_node d') = Some (Inr t2)" "tracks keccak (Database_node d') True (tRoot t2) p"
    using Trie_New_loads [OF p(2) c(4)] root_not_zero [OF assms(5) p(2) assms(6)] root_not_empty [OF assms(5) p(2) assms(6)] by blast
  moreover obtain t1 where "Trie_Hash keccak fuel t = Some (root_of keccak p, t1)"
    using Trie_Hash_stores [OF p assms(7,2)] by blast
  ultimately show ?thesis using c p(2) by (auto simp: stores_def)
qed

theorem Trie_Commit_New_witness:
  "\<exists>root t' d' t2. Trie_Commit demo_hash None 100 one_trie (NewDatabase (\<lambda>_. None)) = Some (root, t', d') \<and>
    db_ok demo_hash (blobs demo_hash [[1] \<mapsto> [2]]) d' \<and> map_option fst (Trie_Hash demo_hash 100 one_trie) = Some root \<and>
    stores (tracks demo_hash (Database_node d')) t' [[1] \<mapsto> [2]] \<and>
    Trie_New root (Database_node d') = Some (Inr t2) \<and> stores (tracks demo_hash (Database_node d')) t2 [[1] \<mapsto> [2]]"
  by (rule Trie_Commit_New [OF one_trie_stores _ one_db_ok _ one_no_collision subset_refl one_small])
     (simp_all add: leaf_ok_def one_trie_def new_trie_def newFlag_def keybytesToHex_def)

section \<open>Merkle proofs\<close>

text \<open>C31. Soundness: against the root hash of a trie, and with a proof database whose entries are stored under their hashes
  and do not collide with the encodings of the trie, \<^verbatim>\<open>VerifyProof\<close> returns the value the trie has for the key, or nil when
  it has none, or an error; it never panics on such a database, and one round more than the key has nibbles is enough.\<close>

theorem VerifyProof_sound:
  assumes "stores (tracks keccak src) t m" "size (tRoot t) < depth" "small_map m"
    and "no_collision keccak C" "blobs keccak m \<subseteq> C" "proof_ok keccak C db" "2 * length key + 1 < fuel"
  shows "\<exists>root t' v n e. Trie_Hash keccak depth t = Some (root, t') \<and>
    VerifyProof fuel root key db = Some (v, n, e) \<and> (e = None \<longrightarrow> v = m key)"
proof -
  obtain p where p: "tracks keccak src True (tRoot t) p" "spells p m" using assms(1) by (auto simp: stores_def)
  show ?thesis using Trie_Hash_stores [OF p assms(3,2)] VerifyProof_ok [OF assms(4-6) p(2) assms(7)] by blast
qed

theorem VerifyProof_sound_witness:
  "\<exists>root t' v n e. Trie_Hash demo_hash 100 one_trie = Some (root, t') \<and>
    VerifyProof 4 root [1] [Hash_Bytes 1 \<mapsto> enc demo_hash one_ptrie] = Some (v, n, e) \<and> (e = None \<longrightarrow> v = [[1] \<mapsto> [2]] [1 :: u8])"
  by (rule VerifyProof_sound [OF one_trie_stores _ one_small one_no_collision subset_refl])
     (simp_all add: proof_ok_def single_blobs Hash_Bytes_inject one_trie_def new_trie_def newFlag_def keybytesToHex_def)

text \<open>C32. Completeness: for a non-empty trie and any key, present or absent, \<^verbatim>\<open>Prove\<close> from level 0 succeeds, and
  \<^verbatim>\<open>VerifyProof\<close> accepts what it wrote against the root hash and returns exactly what the trie has for the key.\<close>

theorem Prove_VerifyProof:
  assumes "stores (tracks keccak src) t m" "m \<noteq> (\<lambda>_. None)" "size (tRoot t) < depth" "small_map m"
    and "no_collision keccak C" "blobs keccak m \<subseteq> C" "4 * length key + 4 \<le> fuel"
  shows "\<exists>root t'. Trie_Hash keccak depth t = Some (root, t') \<and>
    (\<exists>N. \<forall>k \<ge> N. \<exists>db n. Trie_Prove keccak src fuel k key 0 t (\<lambda>_. None) = Some (None, db) \<and>
       VerifyProof fuel root key db = Some (m key, n, None))"
proof -
  obtain p where p: "tracks keccak src True (tRoot t) p" "spells p m" using assms(1) by (auto simp: stores_def)
  have ne: "p \<noteq> PNil" using p(2) assms(2) by (auto simp: spells_def)
  have pe: "proof_ok keccak C (\<lambda>_. None)" by (simp add: proof_ok_def)
  obtain N where N: "\<forall>k \<ge> N. \<exists>db. Trie_Prove keccak src fuel k key 0 t (\<lambda>_. None) = Some (None, db) \<and> proof_ok keccak C db \<and>
      covers keccak db p (keybytesToHex key)"
    using Trie_Prove_ok [OF p ne assms(5,6) pe assms(7)] by blast
  have f: "2 * length key + 1 < fuel" using assms(7) by simp
  have "\<exists>db n. Trie_Prove keccak src fuel k key 0 t (\<lambda>_. None) = Some (None, db) \<and>
      VerifyProof fuel (root_of keccak p) key db = Some (m key, n, None)" if "k \<ge> N" for k
    using N that ne VerifyProof_ok [OF assms(5,6) _ p(2) f] by blast
  then show ?thesis using Trie_Hash_stores [OF p assms(4,3)] by blast
qed

theorem Prove_VerifyProof_witness:
  "\<exists>root t'. Trie_Hash demo_hash 100 one_trie = Some (root, t') \<and>
    (\<exists>N. \<forall>k \<ge> N. \<exists>db n. Trie_Prove demo_hash (\<lambda>_ _. Some None) 8 k [1] 0 one_trie (\<lambda>_. None) = Some (None, db) \<and>
       VerifyProof 8 root [1] db = Some ([[1] \<mapsto> [2]] [1 :: u8], n, None))"
  by (rule Prove_VerifyProof [OF one_trie_stores _ _ one_small one_no_collision subset_refl])
     (simp_all add: fun_eq_iff one_trie_def new_trie_def newFlag_def keybytesToHex_def)

section \<open>Keys and their encodings\<close>

text \<open>C33. The two encodings of trie keys lose nothing: the nibbles of a byte key with the terminator give the key back, and a
  sequence of nibbles with or without terminator survives the compact encoding, which takes one byte for every two
  nibbles and one for the flags.\<close>

theorem compact_key_round_trip:
  assumes "hex_key k"
  shows "hexToKeybytes (keybytesToHex key) = Some key \<and> hex_key (keybytesToHex key) \<and>
    (\<exists>c. hexToCompact k = Some c \<and> compactToHex c = Some k \<and> length c = (length k - of_bool (hasTerm k)) div 2 + 1)"
  using compactToHex_inverse [OF assms] hexToKeybytes_inverse keybytesToHex_key by metis

theorem compact_key_round_trip_witness:
  "hexToKeybytes (keybytesToHex [0xAB]) = Some [0xAB] \<and> hex_key (keybytesToHex [0xAB]) \<and>
    (\<exists>c. hexToCompact [1, 2, 3, 16] = Some c \<and> compactToHex c = Some [1, 2, 3, 16] \<and>
       length c = (length [1, 2, 3, 16 :: u8] - of_bool (hasTerm [1, 2, 3, 16])) div 2 + 1)"
  by (rule compact_key_round_trip) (simp add: hex_key_def hasTerm_def)


end
