(* ===== verification/Trie_Secure.thy ===== *)
theory Trie_Secure
  imports Trie_Props
begin

text \<open>
  The secure trie (\<^verbatim>\<open>trie/secure_trie.go\<close>): a trie whose keys are hashed, with a cache of the keys it has hashed. A
  pointer to a secure trie is a number, \<open>0\<close> for nil. The cache map of a copy is the map of the original only until the copy's first
  use replaces it, so copies are values here. \<open>None\<close> is a panic or fuel that ran out.
\<close>

record SecureTrie =
  sTrie :: Trie
  sSelf :: nat
  sSecKeyCache :: "(bytes \<times> bytes) list"
  sSecKeyCacheOwner :: nat

definition NewSecure :: "nat \<Rightarrow> hash \<Rightarrow> node_source \<Rightarrow> u16 \<Rightarrow> (MissingNodeError + SecureTrie) option" where
  "NewSecure self root src cachelimit =
     (case Trie_New root src of
        None \<Rightarrow> None
      | Some (Inl err) \<Rightarrow> Some (Inl err)
      | Some (Inr t) \<Rightarrow>
          Some (Inr \<lparr>sTrie = SetCacheLimit cachelimit t, sSelf = self, sSecKeyCache = [], sSecKeyCacheOwner = 0\<rparr>))"

definition hashKey :: "(bytes \<Rightarrow> hash) \<Rightarrow> bytes \<Rightarrow> bytes" where
  "hashKey keccak key = Hash_Bytes (keccak key)"

definition getSecKeyCache :: "SecureTrie \<Rightarrow> SecureTrie" where
  "getSecKeyCache t =
     (if sSelf t \<noteq> sSecKeyCacheOwner t then t\<lparr>sSecKeyCacheOwner := sSelf t, sSecKeyCache := []\<rparr> else t)"

definition SecureTrie_TryGet :: "(bytes \<Rightarrow> hash) \<Rightarrow> node_source \<Rightarrow> nat \<Rightarrow> bytes \<Rightarrow> SecureTrie \<Rightarrow>
    ((bytes option \<times> MissingNodeError option) \<times> SecureTrie) option" where
  "SecureTrie_TryGet keccak src fuel key t =
     map_option (\<lambda>(res, t'). (res, t\<lparr>sTrie := t'\<rparr>)) (Trie_TryGet src fuel (hashKey keccak key) (sTrie t))"

definition SecureTrie_Get :: "(bytes \<Rightarrow> hash) \<Rightarrow> node_source \<Rightarrow> nat \<Rightarrow> bytes \<Rightarrow> SecureTrie \<Rightarrow>
    (bytes option \<times> SecureTrie) option" where
  "SecureTrie_Get keccak src fuel key t = map_option (\<lambda>((res, _), t'). (res, t')) (SecureTrie_TryGet keccak src fuel key t)"

definition SecureTrie_TryUpdate :: "(bytes \<Rightarrow> hash) \<Rightarrow> node_source \<Rightarrow> nat \<Rightarrow> bytes \<Rightarrow> bytes \<Rightarrow> SecureTrie \<Rightarrow>
    (MissingNodeError option \<times> SecureTrie) option" where
  "SecureTrie_TryUpdate keccak src fuel key value t =
     (let hk = hashKey keccak key
      in case Trie_TryUpdate src fuel hk value (sTrie t) of
           None \<Rightarrow> None
         | Some (Some err, t') \<Rightarrow> Some (Some err, t\<lparr>sTrie := t'\<rparr>)
         | Some (None, t') \<Rightarrow>
             let t1 = getSecKeyCache (t\<lparr>sTrie := t'\<rparr>)
             in Some (None, t1\<lparr>sSecKeyCache := AList.update hk key (sSecKeyCache t1)\<rparr>))"

definition SecureTrie_Update :: "(bytes \<Rightarrow> hash) \<Rightarrow> node_source \<Rightarrow> nat \<Rightarrow> bytes \<Rightarrow> bytes \<Rightarrow> SecureTrie \<Rightarrow> SecureTrie option" where
  "SecureTrie_Update keccak src fuel key value t = map_option snd (SecureTrie_TryUpdate keccak src fuel key value t)"

definition SecureTrie_TryDelete :: "(bytes \<Rightarrow> hash) \<Rightarrow> node_source \<Rightarrow> nat \<Rightarrow> bytes \<Rightarrow> SecureTrie \<Rightarrow>
    (MissingNodeError option \<times> SecureTrie) option" where
  "SecureTrie_TryDelete keccak src fuel key t =
     (let hk = hashKey keccak key;
          t1 = getSecKeyCache t;
          t2 = t1\<lparr>sSecKeyCache := AList.delete hk (sSecKeyCache t1)\<rparr>
      in map_option (\<lambda>(err, t'). (err, t2\<lparr>sTrie := t'\<rparr>)) (Trie_TryDelete src fuel hk (sTrie t2)))"

definition SecureTrie_Delete :: "(bytes \<Rightarrow> hash) \<Rightarrow> node_source \<Rightarrow> nat \<Rightarrow> bytes \<Rightarrow> SecureTrie \<Rightarrow> SecureTrie option" where
  "SecureTrie_Delete keccak src fuel key t = map_option snd (SecureTrie_TryDelete keccak src fuel key t)"

definition SecureTrie_GetKey :: "Database \<Rightarrow> bytes \<Rightarrow> SecureTrie \<Rightarrow> bytes option \<times> SecureTrie" where
  "SecureTrie_GetKey db shaKey t =
     (let t1 = getSecKeyCache t
      in (case map_of (sSecKeyCache t1) shaKey of
            Some key \<Rightarrow> Some key
          | None \<Rightarrow> Database_preimage db (BytesToHash shaKey), t1))"

definition SecureTrie_Commit :: "(bytes \<Rightarrow> hash) \<Rightarrow> leaf_callback option \<Rightarrow> nat \<Rightarrow> SecureTrie \<Rightarrow> Database \<Rightarrow>
    (hash \<times> SecureTrie \<times> Database) option" where
  "SecureTrie_Commit keccak onleaf fuel t db =
     (let t1 = getSecKeyCache t;
          db1 = fold (\<lambda>(hk, key). Database_insertPreimage (BytesToHash hk) key) (sSecKeyCache t1) db
      in map_option (\<lambda>(root, t', db'). (root, t1\<lparr>sTrie := t', sSecKeyCache := []\<rparr>, db'))
           (Trie_Commit keccak onleaf fuel (sTrie t1) db1))"

definition SecureTrie_Hash :: "(bytes \<Rightarrow> hash) \<Rightarrow> nat \<Rightarrow> SecureTrie \<Rightarrow> (hash \<times> SecureTrie) option" where
  "SecureTrie_Hash keccak fuel t = map_option (\<lambda>(h, t'). (h, t\<lparr>sTrie := t'\<rparr>)) (Trie_Hash keccak fuel (sTrie t))"

definition SecureTrie_Copy :: "nat \<Rightarrow> SecureTrie \<Rightarrow> SecureTrie" where
  "SecureTrie_Copy self t = t\<lparr>sSelf := self\<rparr>"

definition SecureTrie_Prove :: "(bytes \<Rightarrow> hash) \<Rightarrow> node_source \<Rightarrow> nat \<Rightarrow> nat \<Rightarrow> bytes \<Rightarrow> nat \<Rightarrow> SecureTrie \<Rightarrow> proof_db \<Rightarrow>
    (MissingNodeError option \<times> proof_db) option" where
  "SecureTrie_Prove keccak src fuel depth key fromLevel t proofDb = Trie_Prove keccak src fuel depth key fromLevel (sTrie t) proofDb"

section \<open>A store under unhashed keys\<close>

text \<open>The map a trie over hashed keys stores, for keys of a set on which the hash has no collision.\<close>

definition hashed :: "(bytes \<Rightarrow> hash) \<Rightarrow> bytes set \<Rightarrow> (bytes \<Rightarrow> bytes option) \<Rightarrow> bytes \<Rightarrow> bytes option" where
  "hashed keccak K m hk = (if \<exists>k \<in> K. hk = hashKey keccak k then m (inv_into K (hashKey keccak) hk) else None)"

definition secure_stores :: "(bytes \<Rightarrow> hash) \<Rightarrow> node_source \<Rightarrow> bytes set \<Rightarrow> SecureTrie \<Rightarrow> (bytes \<Rightarrow> bytes option) \<Rightarrow> bool" where
  "secure_stores keccak src K t m = (inj_on keccak K \<and> stores (tracks keccak src) (sTrie t) (hashed keccak K m))"

lemma hashKey_inj: "inj_on keccak K \<Longrightarrow> inj_on (hashKey keccak) K"
  by (auto simp: inj_on_def hashKey_def Hash_Bytes_inject)

lemma hashed_key: "inj_on keccak K \<Longrightarrow> k \<in> K \<Longrightarrow> hashed keccak K m (hashKey keccak k) = m k"
  using inv_into_f_f [OF hashKey_inj] by (auto simp: hashed_def)

lemma hashed_upd:
  assumes "inj_on keccak K" "k \<in> K"
  shows "(hashed keccak K m)(hashKey keccak k := v) = hashed keccak K (m(k := v))"
proof
  fix hk
  show "((hashed keccak K m)(hashKey keccak k := v)) hk = hashed keccak K (m(k := v)) hk"
  proof (cases "\<exists>k' \<in> K. hk = hashKey keccak k'")
    case True
    then obtain k' where k': "k' \<in> K" "hk = hashKey keccak k'" by blast
    then have "hashKey keccak k' = hashKey keccak k \<longleftrightarrow> k' = k" using assms inj_onD [OF hashKey_inj] by metis
    then show ?thesis using k' assms by (simp add: hashed_key)
  next
    case False
    then show ?thesis using assms(2) by (auto simp: hashed_def)
  qed
qed

lemma length_hashKey [simp]: "length (hashKey keccak k) = 32"
  by (simp add: hashKey_def Hash_Bytes_def)

lemma hashed_empty: "hashed keccak K (\<lambda>_. None) = (\<lambda>_. None)"
  by (auto simp: hashed_def)

lemma getSecKeyCache_trie [simp]: "sTrie (getSecKeyCache t) = sTrie t"
  by (simp add: getSecKeyCache_def)

lemma SecureTrie_TryGet_stores:
  assumes "secure_stores keccak src K t m" "k \<in> K"
  shows "\<exists>t'. SecureTrie_TryGet keccak src 132 k t = Some ((m k, None), t') \<and> secure_stores keccak src K t' m"
  using track.TryGet_stores [of keccak src "sTrie t" "hashed keccak K m" "hashKey keccak k" 132] assms
  by (auto simp: secure_stores_def SecureTrie_TryGet_def hashed_key)

lemma SecureTrie_TryUpdate_stores:
  assumes "secure_stores keccak src K t m" "k \<in> K"
  shows "\<exists>t'. SecureTrie_TryUpdate keccak src 132 k v t = Some (None, t') \<and> secure_stores keccak src K t' (m(k := written v))"
  using track.TryUpdate_stores [of keccak src "sTrie t" "hashed keccak K m" "hashKey keccak k" 132 v] assms
  by (auto simp: secure_stores_def SecureTrie_TryUpdate_def hashed_upd Let_def)

lemma SecureTrie_TryDelete_stores:
  assumes "secure_stores keccak src K t m" "k \<in> K"
  shows "\<exists>t'. SecureTrie_TryDelete keccak src 132 k t = Some (None, t') \<and> secure_stores keccak src K t' (m(k := None))"
  using track.TryDelete_stores [of keccak src "sTrie t" "hashed keccak K m" "hashKey keccak k" 132] assms
  by (auto simp: secure_stores_def SecureTrie_TryDelete_def hashed_upd Let_def)

interpretation secure: kv_store "secure_stores keccak src K" "SecureTrie_Get keccak src 132"
    "SecureTrie_Update keccak src 132" written "\<lambda>k. k \<in> K" for keccak src K
proof
  show "\<exists>s'. SecureTrie_Get keccak src 132 k s = Some (m k, s') \<and> secure_stores keccak src K s' m"
    if "secure_stores keccak src K s m" "k \<in> K" for s m k
    using SecureTrie_TryGet_stores [OF that] by (auto simp: SecureTrie_Get_def)
  show "\<exists>s'. SecureTrie_Update keccak src 132 k v s = Some s' \<and> secure_stores keccak src K s' (m(k := written v))"
    if "secure_stores keccak src K s m" "k \<in> K" for s m k v
    using SecureTrie_TryUpdate_stores [OF that, of v] by (auto simp: SecureTrie_Update_def)
qed

lemma NewSecure_empty:
  assumes "inj_on keccak K"
  shows "\<exists>t. NewSecure self 0 src cl = Some (Inr t) \<and> secure_stores keccak src K t (\<lambda>_. None)"
  using new_trie_stores [of keccak src] assms
  by (simp add: NewSecure_def New_new_trie secure_stores_def hashed_empty stores_def SetCacheLimit_def)

section \<open>Preimages\<close>

lemma insertPreimage_content: "same_content d (Database_insertPreimage h k d)"
  by (simp add: same_content_def Database_insertPreimage_def entry_def)

lemma insertPreimages_content:
  "same_content d (fold (\<lambda>(hk, key). Database_insertPreimage (BytesToHash hk) key) ps d)"
proof (induction ps arbitrary: d)
  case (Cons p ps)
  obtain hk key where p: "p = (hk, key)" by (cases p)
  show ?case unfolding p fold_simps prod.case o_apply
    by (rule same_content_trans [OF insertPreimage_content Cons.IH])
qed (simp add: same_content_refl)

lemma insertPreimages_ends:
  "dOldest (fold (\<lambda>(hk, key). Database_insertPreimage (BytesToHash hk) key) ps d) = dOldest d \<and>
   dNewest (fold (\<lambda>(hk, key). Database_insertPreimage (BytesToHash hk) key) ps d) = dNewest d"
  by (induction ps arbitrary: d) (auto simp: Database_insertPreimage_def)

lemma db_ok_same:
  assumes "db_ok keccak C d" "same_content d d'" "dOldest d' = dOldest d" "dNewest d' = dNewest d"
  shows "db_ok keccak C d'"
proof -
  have e: "\<exists>e0. entry d h = Some e0 \<and> cnNode e0 = cnNode e" if "entry d' h = Some e" for h e
    using assms(2) that unfolding same_content_def by (metis map_option_eq_Some)
  show ?thesis unfolding db_ok_def
  proof (intro conjI allI impI)
    show "entry_ok keccak C h (cnNode e)" if "entry d' h = Some e" "h \<noteq> 0" for h e
      using e [OF that(1)] that(2) assms(1) unfolding db_ok_def by metis
    show "blob \<in> C" "keccak blob = h" if "dDisk d' (Hash_Bytes h) = Some blob" for h blob
      using that assms(1,2) unfolding db_ok_def same_content_def by auto
    show "entry d' (dNewest d') \<noteq> None" if "dOldest d' \<noteq> 0"
      using that assms same_content_entry [OF assms(2)] by (simp add: db_ok_def)
  qed
qed

lemma insertPreimages_ok:
  assumes "db_ok keccak C d"
  shows "db_ok keccak C (fold (\<lambda>(hk, key). Database_insertPreimage (BytesToHash hk) key) ps d)"
  using insertPreimages_ends [of ps d] insertPreimages_content [of d ps] by (intro db_ok_same [OF assms]) auto

abbreviation applied :: "(bytes \<times> bytes) list \<Rightarrow> (bytes \<Rightarrow> bytes option) \<Rightarrow> bytes \<Rightarrow> bytes option" where
  "applied ws m \<equiv> fold (\<lambda>(k, v) m. m(k := written v)) ws m"

lemma SecureTrie_Commit_stores:
  assumes "secure_stores keccak (Database_node d) K t m" "size (tRoot (sTrie t)) < fuel" "db_ok keccak C d"
    and "no_collision keccak C" "blobs keccak (hashed keccak K m) \<subseteq> C"
  obtains root t' d' t2 where "SecureTrie_Commit keccak None fuel t d = Some (root, t', d')"
    "NewSecure self root (Database_node d') cl = Some (Inr t2)" "secure_stores keccak (Database_node d') K t2 m"
    "db_ok keccak C d'"
proof -
  let ?d1 = "fold (\<lambda>(hk, key). Database_insertPreimage (BytesToHash hk) key) (sSecKeyCache (getSecKeyCache t)) d"
  have n: "Database_node ?d1 = Database_node d" by (rule same_content_node [OF insertPreimages_content])
  obtain p where p: "tracks keccak (Database_node ?d1) True (tRoot (sTrie t)) p" "spells p (hashed keccak K m)"
    using assms(1) by (auto simp: secure_stores_def stores_def n)
  have l: "leaf_ok keccak C None" by (simp add: leaf_ok_def)
  obtain t' d' where c: "Trie_Commit keccak None fuel (sTrie t) ?d1 = Some (root_of keccak p, t', d')" "db_ok keccak C d'"
      "p \<noteq> PNil \<longrightarrow> deep keccak (Database_node d') p \<and> avail keccak (Database_node d') p"
    by (rule Trie_Commit_stores [OF p assms(2,4,5) insertPreimages_ok [OF assms(3)] l])
  obtain t2 where "Trie_New (root_of keccak p) (Database_node d') = Some (Inr t2)" "tracks keccak (Database_node d') True (tRoot t2) p"
    using Trie_New_loads [OF p(2) c(3)] root_not_zero [OF assms(4) p(2) assms(5)] root_not_empty [OF assms(4) p(2) assms(5)] by blast
  then have "NewSecure self (root_of keccak p) (Database_node d') cl =
      Some (Inr \<lparr>sTrie = SetCacheLimit cl t2, sSelf = self, sSecKeyCache = [], sSecKeyCacheOwner = 0\<rparr>)"
    "secure_stores keccak (Database_node d') K \<lparr>sTrie = SetCacheLimit cl t2, sSelf = self, sSecKeyCache = [], sSecKeyCacheOwner = 0\<rparr> m"
    using p(2) assms(1) by (auto simp: NewSecure_def secure_stores_def stores_def SetCacheLimit_def)
  moreover have "\<exists>t''. SecureTrie_Commit keccak None fuel t d = Some (root_of keccak p, t'', d')"
    using c(1) by (simp add: SecureTrie_Commit_def Let_def)
  ultimately show ?thesis using that c(2) by blast
qed

text \<open>C30. A secure trie made from scratch, written any number of times, committed and opened again at its root returns for every
  key the last value written, nothing when that value was empty or the key was never written; keys may be any byte
  strings among which the hash has no collision.\<close>

theorem SecureTrie_commit_reload:
  assumes "inj_on keccak K" "\<forall>w \<in> set ws. fst w \<in> K" "k \<in> K" "db_ok keccak C d"
    and "no_collision keccak C" "blobs keccak (hashed keccak K (applied ws (\<lambda>_. None))) \<subseteq> C"
  shows "\<exists>t0 t. NewSecure 1 0 (Database_node d) cl = Some (Inr t0) \<and>
    puts (SecureTrie_Update keccak (Database_node d) 132) ws t0 = Some t \<and>
    (\<forall>fuel > size (tRoot (sTrie t)). \<exists>root t' d' t2 t3. SecureTrie_Commit keccak None fuel t d = Some (root, t', d') \<and>
       NewSecure 2 root (Database_node d') cl = Some (Inr t2) \<and>
       SecureTrie_Get keccak (Database_node d') 132 k t2 = Some (applied ws (\<lambda>_. None) k, t3))"
proof -
  obtain t0 where t0: "NewSecure 1 0 (Database_node d) cl = Some (Inr t0)" "secure_stores keccak (Database_node d) K t0 (\<lambda>_. None)"
    using NewSecure_empty [OF assms(1)] by blast
  obtain t where t: "puts (SecureTrie_Update keccak (Database_node d) 132) ws t0 = Some t"
      "secure_stores keccak (Database_node d) K t (applied ws (\<lambda>_. None))"
    using secure.puts_hold [OF t0(2) assms(2)] by blast
  have "\<exists>root t' d' t2 t3. SecureTrie_Commit keccak None fuel t d = Some (root, t', d') \<and>
       NewSecure 2 root (Database_node d') cl = Some (Inr t2) \<and>
       SecureTrie_Get keccak (Database_node d') 132 k t2 = Some (applied ws (\<lambda>_. None) k, t3)"
    if f: "size (tRoot (sTrie t)) < fuel" for fuel
  proof -
    obtain root t' d' t2 where c: "SecureTrie_Commit keccak None fuel t d = Some (root, t', d')"
        "NewSecure 2 root (Database_node d') cl = Some (Inr t2)"
        "secure_stores keccak (Database_node d') K t2 (applied ws (\<lambda>_. None))"
      by (rule SecureTrie_Commit_stores [OF t(2) f assms(4-6)])
    then show ?thesis using secure.look_law [OF c(3) assms(3)] by blast
  qed
  then show ?thesis using t0(1) t(1) by blast
qed

theorem SecureTrie_commit_reload_witness:
  "\<exists>t0 t. NewSecure 1 0 (Database_node (NewDatabase (\<lambda>_. None))) 0 = Some (Inr t0) \<and>
    puts (SecureTrie_Update demo_hash (Database_node (NewDatabase (\<lambda>_. None))) 132) [([1], [2])] t0 = Some t \<and>
    (\<forall>fuel > size (tRoot (sTrie t)). \<exists>root t' d' t2 t3.
       SecureTrie_Commit demo_hash None fuel t (NewDatabase (\<lambda>_. None)) = Some (root, t', d') \<and>
       NewSecure 2 root (Database_node d') 0 = Some (Inr t2) \<and>
       SecureTrie_Get demo_hash (Database_node d') 132 [1] t2 = Some (applied [([1], [2])] (\<lambda>_. None) [1], t3))"
proof (rule SecureTrie_commit_reload [OF _ _ _ one_db_ok])
  have k: "hashed demo_hash {[1]} (applied [([1], [2])] (\<lambda>_. None)) = [Hash_Bytes 1 \<mapsto> [2]]"
    using hashed_upd [of demo_hash "{[1]}" "[1]" "\<lambda>_. None" "Some [2]"] by (simp add: hashed_empty hashKey_def)
  show "blobs demo_hash (hashed demo_hash {[1]} (applied [([1], [2])] (\<lambda>_. None))) \<subseteq> blobs demo_hash [Hash_Bytes 1 \<mapsto> [2]]"
    unfolding k ..
  show "no_collision demo_hash (blobs demo_hash [Hash_Bytes 1 \<mapsto> [2]])"
    by (rule single_no_collision) (simp_all add: small_map_def Hash_Bytes_def)
qed simp_all

end
