(* ===== verification/Chain_Block.thy ===== *)
theory Chain_Block
  imports Trie_Ops Tx_Types
begin

text \<open>
  Blocks (\<^verbatim>\<open>core/types/block.go\<close>): header and body, the two hashes, the comparisons that order blocks, the gas limit a
  miner proposes, and the difficulty (\<^verbatim>\<open>core/diffculty/difficulty.go\<close>). The hash function is a parameter. The cached hashes of a
  block are those of its header.
\<close>

section \<open>Data\<close>

record BlockHeader =
  bhParentHash :: hash
  bhRound :: u64
  bhSig :: bytes
  bhCoinbase :: address
  bhDifficulty :: int
  bhHeight :: u64
  bhAmount :: u64
  bhGasLimit :: u64
  bhGasUsed :: u64
  bhStateHash :: hash
  bhTxHash :: hash
  bhReceiptHash :: hash
  bhParentFullHash :: hash
  bhConfirms :: "hash list"
  bhFullSig :: bytes
  bhMinedTime :: u64
  bhHopCount :: u64

record BlockBody =
  bbTransactions :: "Transaction list"
  bbTxPackageHashes :: "hash list"

datatype BlockReceivePathEnum = BlockNull | BlockFastSync | BlockMined

datatype BlockStateCheckedEnum = NoBlockState | HasBlockStateButNotChecked | BlockStateChecked

record Block =
  bHeader :: BlockHeader
  bBody :: BlockBody
  bAccHash :: hash
  bStateChecked :: BlockStateCheckedEnum
  bReceivedPath :: BlockReceivePathEnum

section \<open>Hashes\<close>

text \<open>\<^verbatim>\<open>common.RlpHash\<close>: when the encoder fails nothing is written to the hasher.\<close>

definition RlpHash :: "(bytes \<Rightarrow> hash) \<Rightarrow> rlp_item option \<Rightarrow> hash" where
  "RlpHash keccak x = keccak (case x of None \<Rightarrow> [] | Some it \<Rightarrow> (case Encode it of None \<Rightarrow> [] | Some b \<Rightarrow> b))"

definition hash_item :: "hash \<Rightarrow> rlp_item" where
  "hash_item h = Str (Hash_Bytes h)"

definition uint_item :: "u64 \<Rightarrow> rlp_item" where
  "uint_item i = Str (uint_bytes i)"

definition BlockHeader_SimpleHash :: "(bytes \<Rightarrow> hash) \<Rightarrow> BlockHeader \<Rightarrow> hash" where
  "BlockHeader_SimpleHash keccak bh =
     RlpHash keccak (Some (Lst [hash_item (bhParentHash bh), uint_item (bhRound bh), Str (bhSig bh)]))"

definition BlockHeader_FullHash :: "(bytes \<Rightarrow> hash) \<Rightarrow> BlockHeader \<Rightarrow> hash" where
  "BlockHeader_FullHash keccak bh =
     RlpHash keccak
       (if bhDifficulty bh < 0 then None
        else Some (Lst [hash_item (bhParentHash bh), uint_item (bhRound bh), Str (bhSig bh), Str (be_bytes 20 (bhCoinbase bh)),
               Str (nat_bytes (nat (bhDifficulty bh))), uint_item (bhHeight bh), uint_item (bhAmount bh),
               uint_item (bhGasLimit bh), uint_item (bhGasUsed bh), hash_item (bhStateHash bh), hash_item (bhTxHash bh),
               hash_item (bhReceiptHash bh), hash_item (bhParentFullHash bh), Lst (map hash_item (bhConfirms bh))]))"

definition Block_SimpleHash :: "(bytes \<Rightarrow> hash) \<Rightarrow> Block \<Rightarrow> hash" where
  "Block_SimpleHash keccak b = BlockHeader_SimpleHash keccak (bHeader b)"

definition Block_FullHash :: "(bytes \<Rightarrow> hash) \<Rightarrow> Block \<Rightarrow> hash" where
  "Block_FullHash keccak b = BlockHeader_FullHash keccak (bHeader b)"

definition SignHashByte :: "(bytes \<Rightarrow> hash) \<Rightarrow> Block \<Rightarrow> bytes" where
  "SignHashByte keccak b =
     Hash_Bytes (RlpHash keccak (Some (Lst [hash_item (bhParentHash (bHeader b)), uint_item (bhRound (bHeader b))])))"

section \<open>Order\<close>

definition hex_digit :: "u8 \<Rightarrow> char" where
  "hex_digit d = char_of (unat d + (if d < 10 then 48 else 87))"

definition hexutil_Encode :: "bytes \<Rightarrow> string" where
  "hexutil_Encode b = ''0x'' @ concat (map (\<lambda>x. [hex_digit (x div 16), hex_digit (x mod 16)]) b)"

definition Hash_Hex :: "hash \<Rightarrow> string" where
  "Hash_Hex h = hexutil_Encode (Hash_Bytes h)"

text \<open>Go compares strings byte by byte.\<close>

fun go_string_less :: "string \<Rightarrow> string \<Rightarrow> bool" where
  "go_string_less xs [] = False"
| "go_string_less [] (y # ys) = True"
| "go_string_less (x # xs) (y # ys) =
     (if (of_char x :: nat) < of_char y then True
      else if (of_char y :: nat) < of_char x then False
      else go_string_less xs ys)"

definition CompareByRoundAndSimpleHash :: "(bytes \<Rightarrow> hash) \<Rightarrow> Block \<Rightarrow> Block \<Rightarrow> int" where
  "CompareByRoundAndSimpleHash keccak b b2 =
     (let h1 = bHeader b; h2 = bHeader b2
      in if bhRound h1 > bhRound h2 then 1
         else if bhRound h1 < bhRound h2 then -1
         else
           let s1 = Hash_Hex (BlockHeader_SimpleHash keccak h1); s2 = Hash_Hex (BlockHeader_SimpleHash keccak h2)
           in if go_string_less s2 s1 then 1 else if go_string_less s1 s2 then -1 else 0)"

definition CompareByHeightAndRoundAndSimpleHash :: "(bytes \<Rightarrow> hash) \<Rightarrow> Block \<Rightarrow> Block \<Rightarrow> int" where
  "CompareByHeightAndRoundAndSimpleHash keccak b b2 =
     (if bhHeight (bHeader b) > bhHeight (bHeader b2) then 1
      else if bhHeight (bHeader b) < bhHeight (bHeader b2) then -1
      else CompareByRoundAndSimpleHash keccak b b2)"

definition IsReOrg :: "(bytes \<Rightarrow> hash) \<Rightarrow> Block \<Rightarrow> Block \<Rightarrow> bool" where
  "IsReOrg keccak new oldHead =
     (if bhHeight (bHeader new) < bhHeight (bHeader oldHead) then False
      else if bhHeight (bHeader new) = bhHeight (bHeader oldHead) then
        if bhRound (bHeader new) < bhRound (bHeader oldHead) then True
        else if bhRound (bHeader new) = bhRound (bHeader oldHead) then
          go_string_less (Hash_Hex (Block_SimpleHash keccak new)) (Hash_Hex (Block_SimpleHash keccak oldHead))
        else False
      else True)"

section \<open>Gas limit and difficulty\<close>

definition GasLimitBoundDivisor :: u64 where "GasLimitBoundDivisor = 1024"
definition MinGasLimit :: u64 where "MinGasLimit = 10000000000"
definition MaxGasLimit :: u64 where "MaxGasLimit = 40000000000"

definition CalcGasLimit :: "Block \<Rightarrow> u64" where
  "CalcGasLimit parent =
     (let used = bhGasUsed (bHeader parent); gl = bhGasLimit (bHeader parent);
          contrib = (used + used div 2) div GasLimitBoundDivisor;
          decay = gl div GasLimitBoundDivisor - 1;
          limit = gl - decay + contrib
      in if limit < MinGasLimit then MinGasLimit else limit)"

definition RoundsPerSecond :: u64 where "RoundsPerSecond = 10"
definition minimumDifficulty :: int where "minimumDifficulty = 1000 * 1000 * 1000"
definition difficultyBoundDivisor :: int where "difficultyBoundDivisor = 2048"

definition CalcDifficulty :: "u64 \<Rightarrow> u64 \<Rightarrow> int \<Rightarrow> int" where
  "CalcDifficulty round parentRound parentDifficulty =
     (if parentDifficulty < 0 then minimumDifficulty
      else if round \<le> parentRound then parentDifficulty
      else
        let bigRound = uint (round div RoundsPerSecond);
            bigParentRound = uint (parentRound div RoundsPerSecond);
            x = 2 - (bigRound - bigParentRound) div 4;
            x = (if x < -99 then -99 else x);
            y = parentDifficulty div difficultyBoundDivisor;
            x = parentDifficulty + y * x
        in if x < minimumDifficulty then minimumDifficulty else x)"

section \<open>Lists of blocks\<close>

definition Blocks_Has :: "(bytes \<Rightarrow> hash) \<Rightarrow> Block list \<Rightarrow> hash \<Rightarrow> bool" where
  "Blocks_Has keccak blocks hash = list_ex (\<lambda>b. Block_FullHash keccak b = hash) blocks"

primrec Blocks_Remove :: "(bytes \<Rightarrow> hash) \<Rightarrow> Block list \<Rightarrow> hash \<Rightarrow> Block list" where
  "Blocks_Remove keccak [] hash = []"
| "Blocks_Remove keccak (b # bs) hash = (if Block_FullHash keccak b = hash then bs else b # Blocks_Remove keccak bs hash)"

section \<open>Hex strings order as the numbers they spell\<close>

lemma be_nat_be_bytes: "be_nat (be_bytes n w) = unat w mod 256 ^ n"
proof (induction n arbitrary: w)
  case (Suc n)
  have "be_nat (be_bytes (Suc n) w) = (unat (drop_bit 8 w) mod 256 ^ n) * 256 + unat (ucast w :: u8)"
    unfolding be_bytes_Suc be_nat_snoc Suc ..
  also have "unat (drop_bit 8 w) = unat w div 256" unfolding unat_drop_bit_eq by (simp add: drop_bit_eq_div)
  also have "unat (ucast w :: u8) = unat w mod 256" by (simp add: unsigned_ucast_eq take_bit_eq_mod)
  also have "(unat w div 256 mod 256 ^ n) * 256 + unat w mod 256 = unat w mod 256 ^ Suc n"
    by (simp add: mod_mult2_eq)
  finally show ?case .
qed (simp add: be_bytes_def)

lemma Hash_Bytes_be: "Hash_Bytes h = be_bytes 32 h"
  by (simp add: Hash_Bytes_def be_bytes_def)

lemma length_hash [simp]: "length (Hash_Bytes h) = 32"
  by (simp add: Hash_Bytes_def)

lemma be_nat_Hash_Bytes: "be_nat (Hash_Bytes h) = unat h"
proof -
  have "unat h < 256 ^ 32" using unsigned_less [of h, where ?'a = nat] by simp
  then show ?thesis by (simp add: Hash_Bytes_be be_nat_be_bytes)
qed

lemma hex_digit_order: "a < 16 \<Longrightarrow> b < 16 \<Longrightarrow> (of_char (hex_digit a) :: nat) < of_char (hex_digit b) \<longleftrightarrow> a < b"
proof -
  assume "a < 16" "b < 16"
  then have "unat a < 16" "unat b < 16" by (simp_all add: word_less_nat_alt)
  then show ?thesis by (auto simp: hex_digit_def word_less_nat_alt)
qed

lemma digits_order: "r < 16 \<Longrightarrow> r' < (16 :: nat) \<Longrightarrow> 16 * q + r < 16 * q' + r' \<longleftrightarrow> q < q' \<or> q = q' \<and> r < r'"
  by arith

lemma digits_less: "(a :: nat) < b \<longleftrightarrow> a div 16 < b div 16 \<or> a div 16 = b div 16 \<and> a mod 16 < b mod 16"
  using digits_order [of "a mod 16" "b mod 16" "a div 16" "b div 16"] by simp

lemma digits_eq: "(a :: nat) = b \<longleftrightarrow> a div 16 = b div 16 \<and> a mod 16 = b mod 16"
  by (metis mult_div_mod_eq)

lemma hex_byte_order:
  "go_string_less ([hex_digit (x div 16), hex_digit (x mod 16)] @ s) ([hex_digit (y div 16), hex_digit (y mod 16)] @ t) \<longleftrightarrow>
   x < y \<or> x = y \<and> go_string_less s t"
proof -
  have b: "unat x < 256" "unat y < 256" using unat_byte by blast+
  have m: "x mod 16 < 16" "y mod 16 < 16" "x div 16 < 16" "y div 16 < 16"
    using b by (simp_all add: word_less_nat_alt unat_mod unat_div)
  have e: "x < y \<longleftrightarrow> x div 16 < y div 16 \<or> x div 16 = y div 16 \<and> x mod 16 < y mod 16"
    "x = y \<longleftrightarrow> x div 16 = y div 16 \<and> x mod 16 = y mod 16"
    using digits_less [of "unat x" "unat y"] digits_eq [of "unat x" "unat y"]
    by (simp_all add: word_less_nat_alt word_unat_eq_iff unat_mod unat_div)
  show ?thesis unfolding e using m by (auto simp: hex_digit_order dest: order.asym)
qed

lemma hex_bytes_order:
  "length xs = length ys \<Longrightarrow>
   go_string_less (concat (map (\<lambda>x. [hex_digit (x div 16), hex_digit (x mod 16)]) xs))
     (concat (map (\<lambda>x. [hex_digit (x div 16), hex_digit (x mod 16)]) ys)) \<longleftrightarrow> be_nat xs < be_nat ys"
proof (induction xs ys rule: list_induct2)
  case (Cons x xs y ys)
  have b: "be_nat xs < 256 ^ length ys" "be_nat ys < 256 ^ length ys" using be_nat_bound Cons.hyps by metis+
  have "unat x * 256 ^ length ys + be_nat xs < unat y * 256 ^ length ys + be_nat ys \<longleftrightarrow>
      unat x < unat y \<or> unat x = unat y \<and> be_nat xs < be_nat ys"
  proof (cases "unat x = unat y")
    case False
    then consider "unat x + 1 \<le> unat y" | "unat y + 1 \<le> unat x" by linarith
    then show ?thesis
    proof cases
      case 1
      then have "unat x * 256 ^ length ys + 256 ^ length ys \<le> unat y * 256 ^ length ys"
        using mult_le_mono1 [of "unat x + 1" "unat y" "256 ^ length ys"] unfolding add_mult_distrib by linarith
      then show ?thesis using 1 b by linarith
    next
      case 2
      then have "unat y * 256 ^ length ys + 256 ^ length ys \<le> unat x * 256 ^ length ys"
        using mult_le_mono1 [of "unat y + 1" "unat x" "256 ^ length ys"] unfolding add_mult_distrib by linarith
      then show ?thesis using 2 b by linarith
    qed
  qed simp
  then show ?case
    unfolding list.map concat.simps hex_byte_order Cons.IH be_nat.simps Cons.hyps word_less_nat_alt word_unat_eq_iff by blast
qed simp

lemma Hash_Hex_less [simp]: "go_string_less (Hash_Hex a) (Hash_Hex b) \<longleftrightarrow> a < b"
  using hex_bytes_order [of "Hash_Bytes a" "Hash_Bytes b"] unfolding be_nat_Hash_Bytes
  by (simp add: Hash_Hex_def hexutil_Encode_def word_less_nat_alt)

section \<open>The order of blocks\<close>

text \<open>Round and simple hash, and height, round and simple hash, as one number each.\<close>

definition round_rank :: "(bytes \<Rightarrow> hash) \<Rightarrow> Block \<Rightarrow> nat" where
  "round_rank keccak b = unat (bhRound (bHeader b)) * 2 ^ 256 + unat (Block_SimpleHash keccak b)"

definition block_rank :: "(bytes \<Rightarrow> hash) \<Rightarrow> Block \<Rightarrow> nat" where
  "block_rank keccak b = unat (bhHeight (bHeader b)) * 2 ^ 320 + round_rank keccak b"

lemma pair_order:
  fixes a b q q' B :: nat
  assumes "a < B" "b < B"
  shows "q * B + a < q' * B + b \<longleftrightarrow> q < q' \<or> q = q' \<and> a < b"
proof (cases q q' rule: linorder_cases)
  case less
  then have "(q + 1) * B \<le> q' * B" by (intro mult_le_mono1) simp
  then show ?thesis using less assms by (simp add: add_mult_distrib)
next
  case greater
  then have "(q' + 1) * B \<le> q * B" by (intro mult_le_mono1) simp
  then show ?thesis using greater assms by (simp add: add_mult_distrib)
qed simp

lemma unat_hash_bound: "unat (h :: hash) < 2 ^ 256"
  using unsigned_less [of h, where ?'a = nat] by simp

lemma round_rank_bound: "round_rank keccak b < 2 ^ 320"
proof -
  have "unat (bhRound (bHeader b)) + 1 \<le> 2 ^ 64" using unat_u64_bound [of "bhRound (bHeader b)"] by simp
  then have "(unat (bhRound (bHeader b)) + 1) * 2 ^ 256 \<le> 2 ^ 64 * 2 ^ 256" by (rule mult_le_mono1)
  also have "(2 :: nat) ^ 64 * 2 ^ 256 = 2 ^ 320" unfolding power_add [symmetric] by simp
  finally show ?thesis unfolding round_rank_def add_mult_distrib
    using unat_hash_bound [of "Block_SimpleHash keccak b"] by linarith
qed

lemma round_rank_less: "round_rank keccak a < round_rank keccak b \<longleftrightarrow>
    bhRound (bHeader a) < bhRound (bHeader b) \<or>
    bhRound (bHeader a) = bhRound (bHeader b) \<and> Block_SimpleHash keccak a < Block_SimpleHash keccak b"
  unfolding round_rank_def pair_order [OF unat_hash_bound unat_hash_bound] word_less_nat_alt word_unat_eq_iff ..

lemma block_rank_less: "block_rank keccak a < block_rank keccak b \<longleftrightarrow>
    bhHeight (bHeader a) < bhHeight (bHeader b) \<or>
    bhHeight (bHeader a) = bhHeight (bHeader b) \<and> round_rank keccak a < round_rank keccak b"
  unfolding block_rank_def pair_order [OF round_rank_bound round_rank_bound] word_less_nat_alt word_unat_eq_iff ..

lemma compare_round_cases: "CompareByRoundAndSimpleHash keccak a b =
    (if round_rank keccak b < round_rank keccak a then 1 else if round_rank keccak a < round_rank keccak b then -1 else 0)"
  unfolding CompareByRoundAndSimpleHash_def Let_def Hash_Hex_less round_rank_less Block_SimpleHash_def by auto

lemma compare_round: "CompareByRoundAndSimpleHash keccak a b = sgn (int (round_rank keccak a) - int (round_rank keccak b))"
  unfolding compare_round_cases by (auto simp: sgn_if)

lemma compare_height:
  "CompareByHeightAndRoundAndSimpleHash keccak a b = sgn (int (block_rank keccak a) - int (block_rank keccak b))"
proof -
  consider "bhHeight (bHeader a) < bhHeight (bHeader b)" | "bhHeight (bHeader b) < bhHeight (bHeader a)"
    | "bhHeight (bHeader a) = bhHeight (bHeader b)" by (metis linorder_neqE)
  then show ?thesis
  proof cases
    case 1
    then have "block_rank keccak a < block_rank keccak b" by (simp add: block_rank_less)
    then show ?thesis using 1 by (simp add: CompareByHeightAndRoundAndSimpleHash_def)
  next
    case 2
    then have "block_rank keccak b < block_rank keccak a" by (simp add: block_rank_less)
    then show ?thesis using 2 by (simp add: CompareByHeightAndRoundAndSimpleHash_def)
  next
    case 3
    then show ?thesis by (simp add: CompareByHeightAndRoundAndSimpleHash_def compare_round block_rank_def)
  qed
qed

lemma IsReOrg_rank:
  "IsReOrg keccak a b \<longleftrightarrow> bhHeight (bHeader b) < bhHeight (bHeader a) \<or>
     bhHeight (bHeader a) = bhHeight (bHeader b) \<and> round_rank keccak a < round_rank keccak b"
  unfolding IsReOrg_def Hash_Hex_less round_rank_less by (auto simp: not_less)

section \<open>Adjustment of the gas limit\<close>

lemmas gas_consts = GasLimitBoundDivisor_def MinGasLimit_def MaxGasLimit_def

lemma gas_words [simp]: "unat GasLimitBoundDivisor = 1024" "unat MinGasLimit = 10000000000" "unat MaxGasLimit = 40000000000"
  by (simp_all add: gas_consts)

text \<open>The proposed limit in natural numbers; nothing wraps for a parent within the limits.\<close>

definition gas_step :: "nat \<Rightarrow> nat \<Rightarrow> nat" where
  "gas_step gl used = max 10000000000 (gl - (gl div 1024 - 1) + (used + used div 2) div 1024)"

lemma CalcGasLimit_nat:
  assumes "MinGasLimit \<le> bhGasLimit (bHeader p)" "bhGasLimit (bHeader p) \<le> MaxGasLimit" "bhGasUsed (bHeader p) \<le> bhGasLimit (bHeader p)"
  shows "unat (CalcGasLimit p) = gas_step (unat (bhGasLimit (bHeader p))) (unat (bhGasUsed (bHeader p)))"
proof -
  let ?gl = "bhGasLimit (bHeader p)" and ?u = "bhGasUsed (bHeader p)"
  have b: "10000000000 \<le> unat ?gl" "unat ?gl \<le> 40000000000" "unat ?u \<le> unat ?gl"
    using assms by (simp_all add: word_le_nat_alt)
  have q: "unat (?gl div GasLimitBoundDivisor) = unat ?gl div 1024" by (simp add: unat_div)
  have "9765625 \<le> unat ?gl div 1024" using div_le_mono [OF b(1), of 1024] by simp
  then have d: "unat (?gl div GasLimitBoundDivisor - 1) = unat ?gl div 1024 - 1"
    using q by (subst unat_sub) (simp_all add: word_le_nat_alt)
  have h: "unat (?u div 2) = unat ?u div 2" by (simp add: unat_div)
  define u where "u = unat ?u"
  define q where "q = unat ?gl div 1024"
  have q1: "9765625 \<le> q" "q \<le> unat ?gl" using div_le_mono [OF b(1), of 1024] by (simp_all add: q_def)
  have u2: "u div 2 \<le> u" "u \<le> 40000000000" using b by (simp_all add: u_def)
  have "unat ?u + unat (?u div 2) < 2 ^ LENGTH(64)" using u2 unfolding h u_def by simp
  then have "unat (?u + ?u div 2) = u + u div 2" using unat_add_no_wrap h unfolding u_def by metis
  then have c: "unat ((?u + ?u div 2) div GasLimitBoundDivisor) = (u + u div 2) div 1024" by (simp add: unat_div)
  have cb: "(u + u div 2) div 1024 \<le> 80000000000" using u2 by (intro order.trans [OF div_le_dividend]) simp
  have "?gl div GasLimitBoundDivisor - 1 \<le> ?gl" unfolding word_le_nat_alt d using q1 by (simp add: q_def)
  then have g: "unat (?gl - (?gl div GasLimitBoundDivisor - 1)) = unat ?gl - (q - 1)" using d by (simp add: unat_sub q_def)
  have "unat (?gl - (?gl div GasLimitBoundDivisor - 1)) + unat ((?u + ?u div 2) div GasLimitBoundDivisor) < 2 ^ LENGTH(64)"
    unfolding g c using b(2) cb by simp
  from unat_add_no_wrap [OF this]
  have "unat (?gl - (?gl div GasLimitBoundDivisor - 1) + (?u + ?u div 2) div GasLimitBoundDivisor) =
      unat ?gl - (q - 1) + (u + u div 2) div 1024" unfolding g c .
  then show ?thesis unfolding CalcGasLimit_def Let_def gas_step_def q_def u_def
    by (simp add: word_less_nat_alt max_def)
qed

lemma gas_step_bounds:
  assumes "10000000000 \<le> gl" "used \<le> gl"
  shows "10000000000 \<le> gas_step gl used" "\<bar>int gl - int (gas_step gl used)\<bar> < int (gl div 1024)"
proof -
  show "10000000000 \<le> gas_step gl used" by (simp add: gas_step_def)
  define q where "q = gl div 1024"
  define c where "c = (used + used div 2) div 1024"
  have q: "9765625 \<le> q" "q \<le> gl" using div_le_mono [OF assms(1), of 1024] by (simp_all add: q_def)
  have g: "gl < 1024 * (q + 1)" unfolding q_def using dividend_less_times_div [of 1024 gl] by simp
  define d where "d = used div 2"
  define k where "k = q - 1"
  have d: "2 * d \<le> used" by (simp add: d_def)
  have k: "q = k + 1" using q(1) by (simp add: k_def)
  have "used + d < 2048 * k" using g d k q(1) assms(2) by simp
  then have "used + used div 2 < (2 * k) * 1024" by (simp add: d_def)
  then have "c < 2 * k" unfolding c_def by (rule less_mult_imp_div_less)
  then have c: "int c < 2 * int k" by simp
  define n where "n = gl - (q - 1) + c"
  have n: "int n = int gl - int k + int c" using q k by (simp add: n_def of_nat_diff)
  have e: "gas_step gl used = (if 10000000000 \<le> n then n else 10000000000)"
    unfolding gas_step_def max_def q_def [symmetric] c_def [symmetric] n_def by simp
  show "\<bar>int gl - int (gas_step gl used)\<bar> < int (gl div 1024)"
  proof (cases "10000000000 \<le> n")
    case True
    then show ?thesis using n c k unfolding e q_def [symmetric] by simp
  next
    case False
    then have "int n < 10000000000" by simp
    then show ?thesis using False n k assms(1) unfolding e q_def [symmetric] by simp
  qed
qed

section \<open>Adjustment of the difficulty\<close>

text \<open>The factor of the adjustment, from 2 for less than four seconds down to -99.\<close>

definition round_factor :: "u64 \<Rightarrow> u64 \<Rightarrow> int" where
  "round_factor round parentRound = max (-99) (2 - (uint round div 10 - uint parentRound div 10) div 4)"

lemma round_factor_bounds:
  assumes "parentRound < round"
  shows "-99 \<le> round_factor round parentRound" "round_factor round parentRound \<le> 2"
proof -
  have "uint parentRound div 10 \<le> uint round div 10" using assms by (simp add: word_less_def zdiv_mono1)
  then have "0 \<le> (uint round div 10 - uint parentRound div 10) div 4" by (intro pos_imp_zdiv_nonneg_iff [THEN iffD2]) auto
  then show "round_factor round parentRound \<le> 2" unfolding round_factor_def by (simp add: max_def)
qed (simp add: round_factor_def)

lemma round_factor_antimono: "r1 \<le> r2 \<Longrightarrow> round_factor r2 parentRound \<le> round_factor r1 parentRound"
  unfolding round_factor_def by (intro max.mono diff_mono zdiv_mono1) (simp_all add: word_le_def)

lemma CalcDifficulty_rounds:
  assumes "parentRound < round" "0 \<le> pd"
  shows "CalcDifficulty round parentRound pd = max minimumDifficulty (pd + pd div 2048 * round_factor round parentRound)"
  using assms leD [OF less_imp_le [OF assms(1)]] not_le [THEN iffD2, OF assms(1)]
  by (simp add: CalcDifficulty_def round_factor_def Let_def RoundsPerSecond_def difficultyBoundDivisor_def uint_div max_def not_less)

lemma CalcDifficulty_bounds:
  assumes "parentRound < round" "0 \<le> pd"
  shows "minimumDifficulty \<le> CalcDifficulty round parentRound pd"
    "CalcDifficulty round parentRound pd \<le> max minimumDifficulty (pd + pd div 2048 * 2)"
    "pd - pd div 2048 * 99 \<le> CalcDifficulty round parentRound pd"
proof -
  define y where "y = pd div 2048"
  define f where "f = round_factor round parentRound"
  have y: "0 \<le> y" using assms(2) by (simp add: y_def)
  have f: "-99 \<le> f" "f \<le> 2" using round_factor_bounds [OF assms(1)] by (simp_all add: f_def)
  have m: "y * f \<le> y * 2" "y * (-99) \<le> y * f" using y f by (simp_all only: mult_left_mono)
  note e = CalcDifficulty_rounds [OF assms, folded y_def f_def]
  show "minimumDifficulty \<le> CalcDifficulty round parentRound pd" unfolding e by simp
  show "CalcDifficulty round parentRound pd \<le> max minimumDifficulty (pd + pd div 2048 * 2)"
    unfolding e y_def [symmetric] using m by simp
  show "pd - pd div 2048 * 99 \<le> CalcDifficulty round parentRound pd"
    unfolding e y_def [symmetric] using m by simp
qed

lemma CalcDifficulty_antimono:
  assumes "parentRound < r1" "r1 \<le> r2" "0 \<le> pd"
  shows "CalcDifficulty r2 parentRound pd \<le> CalcDifficulty r1 parentRound pd"
proof -
  have r2: "parentRound < r2" using assms(1,2) by (rule less_le_trans)
  have "0 \<le> pd div 2048" using assms(3) by simp
  then have "pd div 2048 * round_factor r2 parentRound \<le> pd div 2048 * round_factor r1 parentRound"
    by (rule mult_left_mono [OF round_factor_antimono [OF assms(2)]])
  then show ?thesis unfolding CalcDifficulty_rounds [OF assms(1,3)] CalcDifficulty_rounds [OF r2 assms(3)] by simp
qed

end
