(* ===== verification/Chain_Graph.thy ===== *)
theory Chain_Graph
  imports Chain_Block
begin

text \<open>
  Walks in the graph of blocks (\<^verbatim>\<open>chain/greedy.go\<close>, \<^verbatim>\<open>chain/block_handler.go\<close>, \<^verbatim>\<open>chain/blockchain.go\<close>). The argument \<open>src\<close> is
  \<^verbatim>\<open>GetBlock\<close>, the cache in front of the block database; \<open>childs\<close> is \<^verbatim>\<open>GetBlockChilds\<close>. \<open>None\<close> as a result is a panic, a nil block
  that is dereferenced, or fuel that ran out.
\<close>

type_synonym block_source = "hash \<Rightarrow> Block option"

datatype chain_error =
    ErrPackTxSignError | ErrMoreThanOneGenesis | ErrConfirmUnknownBlock | ErrConfirmBlockNotMeetGreedy
  | ErrConfirmBlockNotMeetRound | ErrNotConfirmParentBlock | ErrBlockNotFound | ErrCannotFindParentBlock
  | ErrCannotFindGrandparentBlock | ErrBlockHeightError | ErrBlockRoundTooLow | ErrBlockConsensusError
  | ErrBlockNotMeetCheckPoint | ErrBlockTxHashError | ErrBlockTxPackageMissing | ErrBlockSigError | ErrBlockFullSigError
  | ErrInvalidGasLimit | ErrInvalidGasUsed | ErrConfirmedBlockHasSameSimpleHash | ErrBlockStateNotFound
  | ErrUnmarshalPubKey | ErrPackageHeightTooLow | ErrPackageHeightTooHigh | ErrBlockReceiptError | ErrBlockStateError
  | ErrTransactionNotMatchPacker | ErrIsBroadcastTx | ErrPackerInfoNotFound | ErrPackerNumberIsZero
  | ErrTxPackageRelatedBlockNotFound | ErrPackageSig sig_error | ErrTransactionSig sig_error

definition parent_of :: "block_source \<Rightarrow> Block \<Rightarrow> Block option" where
  "parent_of src b = src (bhParentFullHash (bHeader b))"

section \<open>Hop count\<close>

text \<open>The first two loops: as many steps to the parent as the heights differ. A missing block is dereferenced by the next
  step or by the comparison after the loop.\<close>

primrec climb :: "block_source \<Rightarrow> nat \<Rightarrow> Block \<Rightarrow> Block option" where
  "climb src 0 b = Some b"
| "climb src (Suc n) b = (case parent_of src b of None \<Rightarrow> None | Some p \<Rightarrow> climb src n p)"

primrec hop_meet :: "(bytes \<Rightarrow> hash) \<Rightarrow> block_source \<Rightarrow> nat \<Rightarrow> Block \<Rightarrow> Block \<Rightarrow> u64 \<Rightarrow> (chain_error + u64) option" where
  "hop_meet keccak src 0 b1 b2 hopCount =
     (if Block_FullHash keccak b1 = Block_FullHash keccak b2 then Some (Inr hopCount) else Some (Inl ErrMoreThanOneGenesis))"
| "hop_meet keccak src (Suc height) b1 b2 hopCount =
     (if Block_FullHash keccak b1 = Block_FullHash keccak b2 then Some (Inr hopCount)
      else
        case (parent_of src b1, parent_of src b2) of
          (Some p1, Some p2) \<Rightarrow> hop_meet keccak src height p1 p2 (hopCount + 2)
        | _ \<Rightarrow> None)"

definition GetHopCount :: "(bytes \<Rightarrow> hash) \<Rightarrow> block_source \<Rightarrow> Block \<Rightarrow> Block \<Rightarrow> (chain_error + u64) option" where
  "GetHopCount keccak src block1 block2 =
     (let height1 = unat (bhHeight (bHeader block1)); height2 = unat (bhHeight (bHeader block2))
      in case climb src (height1 - height2) block1 of
           None \<Rightarrow> None
         | Some b1 \<Rightarrow>
             (case climb src (height2 - height1) block2 of
                None \<Rightarrow> None
              | Some b2 \<Rightarrow>
                  hop_meet keccak src (min height1 height2) b1 b2 (of_nat (height1 - height2) + of_nat (height2 - height1))))"

section \<open>The greedy rule\<close>

text \<open>A missing block on the way down is dereferenced by the error message itself.\<close>

primrec greedy_main :: "(bytes \<Rightarrow> hash) \<Rightarrow> block_source \<Rightarrow> nat \<Rightarrow> Block \<Rightarrow> Block \<Rightarrow> Block option" where
  "greedy_main keccak src 0 block mainBlock = None"
| "greedy_main keccak src (Suc fuel) block mainBlock =
     (if CompareByRoundAndSimpleHash keccak mainBlock block > 0 then
        (case parent_of src mainBlock of None \<Rightarrow> None | Some p \<Rightarrow> greedy_main keccak src fuel block p)
      else Some mainBlock)"

definition CheckGreedy :: "(bytes \<Rightarrow> hash) \<Rightarrow> block_source \<Rightarrow> nat \<Rightarrow> Block \<Rightarrow> Block \<Rightarrow> u64 \<Rightarrow> (chain_error + bool) option" where
  "CheckGreedy keccak src fuel block mainBlock0 greedy =
     (case greedy_main keccak src fuel block mainBlock0 of
        None \<Rightarrow> None
      | Some mainBlock \<Rightarrow>
          let heightDiff = Abs_int64 (bhHeight (bHeader block) - bhHeight (bHeader mainBlock))
          in if sint heightDiff > sint greedy then Some (Inr False)
             else
               case GetHopCount keccak src block mainBlock of
                 None \<Rightarrow> None
               | Some (Inl err) \<Rightarrow> Some (Inl err)
               | Some (Inr hopCount) \<Rightarrow> Some (Inr (\<not> hopCount > greedy + 1)))"

section \<open>Blocks around the head\<close>

text \<open>One round of the breadth-first search: the blocks found, the blocks seen and the hashes visited.\<close>

primrec greedy_childs :: "block_source \<Rightarrow> hash list \<Rightarrow> hash list \<times> Block list \<Rightarrow> (hash list \<times> Block list) option" where
  "greedy_childs src [] st = Some st"
| "greedy_childs src (c # cs) st =
     (if c \<in> set (fst st) then greedy_childs src cs st
      else
        case src c of
          None \<Rightarrow> None
        | Some b \<Rightarrow> greedy_childs src cs (c # fst st, snd st @ [b]))"

primrec greedy_round :: "(bytes \<Rightarrow> hash) \<Rightarrow> block_source \<Rightarrow> (hash \<Rightarrow> hash list) \<Rightarrow> Block list \<Rightarrow> hash list \<times> Block list \<Rightarrow>
    (hash list \<times> Block list) option" where
  "greedy_round keccak src childs [] st = Some st"
| "greedy_round keccak src childs (b # bs) st =
     (let st1 = (case parent_of src b of
                   None \<Rightarrow> st
                 | Some p \<Rightarrow> if Block_FullHash keccak p \<in> set (fst st) then st
                             else (Block_FullHash keccak p # fst st, snd st @ [p]))
      in case greedy_childs src (childs (Block_FullHash keccak b)) st1 of
           None \<Rightarrow> None
         | Some st2 \<Rightarrow> greedy_round keccak src childs bs st2)"

primrec greedy_rounds :: "(bytes \<Rightarrow> hash) \<Rightarrow> block_source \<Rightarrow> (hash \<Rightarrow> hash list) \<Rightarrow> nat \<Rightarrow> Block list \<Rightarrow> hash list \<Rightarrow> Block list \<Rightarrow>
    Block list option" where
  "greedy_rounds keccak src childs 0 cur visited blocks = Some blocks"
| "greedy_rounds keccak src childs (Suc n) cur visited blocks =
     (case greedy_round keccak src childs cur (visited, []) of
        None \<Rightarrow> None
      | Some (visited', next) \<Rightarrow> greedy_rounds keccak src childs n next visited' (blocks @ next))"

definition GetGreedyBlocks :: "(bytes \<Rightarrow> hash) \<Rightarrow> block_source \<Rightarrow> (hash \<Rightarrow> hash list) \<Rightarrow> Block \<Rightarrow> u8 \<Rightarrow> Block list option" where
  "GetGreedyBlocks keccak src childs current greedy =
     greedy_rounds keccak src childs (unat greedy) [current] [Block_FullHash keccak current] [current]"

section \<open>Other walks\<close>

primrec before_cache :: "(bytes \<Rightarrow> hash) \<Rightarrow> block_source \<Rightarrow> Block \<Rightarrow> nat \<Rightarrow> Block \<Rightarrow> Block option" where
  "before_cache keccak src genesis 0 temp = Some temp"
| "before_cache keccak src genesis (Suc n) temp =
     (case parent_of src temp of
        None \<Rightarrow> None
      | Some pre \<Rightarrow>
          if Block_FullHash keccak pre = Block_FullHash keccak genesis then Some pre
          else before_cache keccak src genesis n pre)"

text \<open>\<^verbatim>\<open>GetBlockBeforeCacheHeight\<close>: \<open>None\<close> is the result \<^verbatim>\<open>nil, false\<close>.\<close>

definition GetBlockBeforeCacheHeight :: "(bytes \<Rightarrow> hash) \<Rightarrow> block_source \<Rightarrow> Block \<Rightarrow> Block \<Rightarrow> u8 \<Rightarrow> Block option" where
  "GetBlockBeforeCacheHeight keccak src genesis block cacheHeight = before_cache keccak src genesis (unat cacheHeight) block"

primrec prefix_meet :: "(bytes \<Rightarrow> hash) \<Rightarrow> block_source \<Rightarrow> u64 \<Rightarrow> nat \<Rightarrow> u64 \<Rightarrow> Block \<Rightarrow> Block \<Rightarrow> Block option option" where
  "prefix_meet keccak src limit 0 height b1 b2 = None"
| "prefix_meet keccak src limit (Suc fuel) height b1 b2 =
     (if Block_FullHash keccak b1 = Block_FullHash keccak b2 then Some (Some b1)
      else if height = limit then Some None
      else
        case (parent_of src b1, parent_of src b2) of
          (Some p1, Some p2) \<Rightarrow> prefix_meet keccak src limit fuel (height - 1) p1 p2
        | _ \<Rightarrow> None)"

definition findCommonPrefixWithHeightLimit :: "(bytes \<Rightarrow> hash) \<Rightarrow> block_source \<Rightarrow> Block \<Rightarrow> Block \<Rightarrow> u64 \<Rightarrow> Block option option" where
  "findCommonPrefixWithHeightLimit keccak src block1 block2 limit =
     (let height1 = bhHeight (bHeader block1); height2 = bhHeight (bHeader block2)
      in if limit > height1 \<or> limit > height2 then Some None
         else
           case climb src (unat height1 - unat height2) block1 of
             None \<Rightarrow> None
           | Some b1 \<Rightarrow>
               (case climb src (unat height2 - unat height1) block2 of
                  None \<Rightarrow> None
                | Some b2 \<Rightarrow>
                    prefix_meet keccak src limit (Suc (unat (min height1 height2) - unat limit)) (min height1 height2) b1 b2))"

primrec GetAncestorBlocksFromBlock :: "block_source \<Rightarrow> nat \<Rightarrow> hash \<Rightarrow> Block list" where
  "GetAncestorBlocksFromBlock src 0 hash = []"
| "GetAncestorBlocksFromBlock src (Suc depth) hash =
     (case src hash of
        None \<Rightarrow> []
      | Some b \<Rightarrow> b # GetAncestorBlocksFromBlock src depth (bhParentFullHash (bHeader b)))"

section \<open>Stores of blocks\<close>

text \<open>Every block is stored under its hash, and the parent of a block above height 0 is stored, one lower.\<close>

definition store_ok :: "(bytes \<Rightarrow> hash) \<Rightarrow> block_source \<Rightarrow> bool" where
  "store_ok keccak src =
     (\<forall>h b. src h = Some b \<longrightarrow> Block_FullHash keccak b = h \<and>
        (bhHeight (bHeader b) \<noteq> 0 \<longrightarrow>
           (\<exists>p. parent_of src b = Some p \<and> unat (bhHeight (bHeader b)) = Suc (unat (bhHeight (bHeader p))))))"

definition stored :: "(bytes \<Rightarrow> hash) \<Rightarrow> block_source \<Rightarrow> Block \<Rightarrow> bool" where
  "stored keccak src b = (src (Block_FullHash keccak b) = Some b)"

abbreviation height :: "Block \<Rightarrow> nat" where
  "height b \<equiv> unat (bhHeight (bHeader b))"

lemma store_ok_parent:
  assumes "store_ok keccak src" "stored keccak src b" "height b = Suc n"
  obtains p where "parent_of src b = Some p" "stored keccak src p" "height p = n"
proof -
  have "bhHeight (bHeader b) \<noteq> 0" using assms(3) by auto
  then obtain p where p: "parent_of src b = Some p" "height b = Suc (height p)"
    using assms(1,2) unfolding store_ok_def stored_def by blast
  moreover have "Block_FullHash keccak p = bhParentFullHash (bHeader b)"
    using assms(1) p(1) unfolding store_ok_def parent_of_def by blast
  then have "stored keccak src p" using p(1) by (simp add: stored_def parent_of_def)
  ultimately show ?thesis using that assms(3) by simp
qed

lemma stored_inject:
  assumes "stored keccak src a" "stored keccak src b"
  shows "Block_FullHash keccak a = Block_FullHash keccak b \<longleftrightarrow> a = b"
proof
  assume e: "Block_FullHash keccak a = Block_FullHash keccak b"
  have "Some a = Some b" using assms unfolding stored_def e by (rule trans [OF sym])
  then show "a = b" by (rule option.inject [THEN iffD1])
qed (rule arg_cong)

lemma climb_stored:
  assumes "store_ok keccak src"
  shows "stored keccak src b \<Longrightarrow> n \<le> height b \<Longrightarrow> \<exists>a. climb src n b = Some a \<and> stored keccak src a \<and> height a = height b - n"
proof (induction n arbitrary: b)
  case (Suc n)
  then obtain m where m: "height b = Suc m" by (cases "height b") auto
  obtain p where p: "parent_of src b = Some p" "stored keccak src p" "height p = m"
    by (rule store_ok_parent [OF assms Suc.prems(1) m])
  have "n \<le> height p" using Suc.prems(2) m p(3) by simp
  then obtain a where "climb src n p = Some a" "stored keccak src a" "height a = height p - n" using Suc.IH [OF p(2)] by blast
  then show ?case using p m by simp
qed simp

lemma climb_add: "climb src (m + n) b = (case climb src m b of None \<Rightarrow> None | Some a \<Rightarrow> climb src n a)"
  by (induction m arbitrary: b) (auto split: option.splits)

text \<open>The ancestor of a block at a height, the block itself included.\<close>

definition ancestor_at :: "block_source \<Rightarrow> Block \<Rightarrow> nat \<Rightarrow> Block option" where
  "ancestor_at src b k = (if k \<le> height b then climb src (height b - k) b else None)"

text \<open>The height of the highest common ancestor.\<close>

definition forks_at :: "block_source \<Rightarrow> Block \<Rightarrow> Block \<Rightarrow> nat \<Rightarrow> bool" where
  "forks_at src a b k =
     (k \<le> height a \<and> k \<le> height b \<and> ancestor_at src a k = ancestor_at src b k \<and>
      (\<forall>j. k < j \<longrightarrow> j \<le> height a \<longrightarrow> j \<le> height b \<longrightarrow> ancestor_at src a j \<noteq> ancestor_at src b j))"

lemma ancestor_stored:
  assumes "store_ok keccak src" "stored keccak src b" "k \<le> height b"
  obtains a where "ancestor_at src b k = Some a" "stored keccak src a" "height a = k"
proof -
  have "height b - k \<le> height b" by simp
  from climb_stored [OF assms(1,2) this] obtain a where "climb src (height b - k) b = Some a" "stored keccak src a"
      "height a = height b - (height b - k)" by blast
  then show ?thesis using that [of a] assms(3) by (simp add: ancestor_at_def)
qed

lemma ancestor_parent:
  assumes "parent_of src b = Some p" "height b = Suc (height p)" "k \<le> height p"
  shows "ancestor_at src b k = ancestor_at src p k"
proof -
  have "height b - k = Suc (height p - k)" using assms(2,3) by simp
  then show ?thesis using assms by (simp add: ancestor_at_def)
qed

lemma ancestor_climb:
  assumes ok: "store_ok keccak src" "stored keccak src b" and n: "n \<le> height b" "climb src n b = Some a" and k: "k \<le> height b - n"
  shows "ancestor_at src a k = ancestor_at src b k"
proof -
  have a: "height a = height b - n" using climb_stored [OF ok n(1)] n(2) by auto
  have e: "height b - k = n + (height b - n - k)" using n(1) k by simp
  have "climb src (height b - k) b = climb src (height b - n - k) a" unfolding e climb_add n(2) by simp
  moreover have "k \<le> height b" using k by simp
  ultimately show ?thesis using a k by (simp add: ancestor_at_def)
qed

lemma hop_meet_ok:
  assumes ok: "store_ok keccak src"
  shows "stored keccak src a \<Longrightarrow> stored keccak src b \<Longrightarrow> height a = n \<Longrightarrow> height b = n \<Longrightarrow>
    (\<exists>k. forks_at src a b k \<and> hop_meet keccak src n a b c = Some (Inr (c + 2 * of_nat (n - k)))) \<or>
    (\<forall>k. \<not> forks_at src a b k) \<and> hop_meet keccak src n a b c = Some (Inl ErrMoreThanOneGenesis)"
proof (induction n arbitrary: a b c)
  case 0
  have e: "Block_FullHash keccak a = Block_FullHash keccak b \<longleftrightarrow> a = b" using stored_inject 0(1,2) .
  have f: "forks_at src a b k \<longleftrightarrow> k = 0 \<and> a = b" for k using 0(3,4) by (auto simp: forks_at_def ancestor_at_def)
  show ?case unfolding f hop_meet.simps e by simp
next
  case (Suc n)
  have e: "Block_FullHash keccak a = Block_FullHash keccak b \<longleftrightarrow> a = b" using stored_inject Suc.prems(1,2) .
  show ?case
  proof (cases "a = b")
    case True
    then have "forks_at src a b (Suc n)" using Suc.prems by (simp add: forks_at_def)
    then show ?thesis using True by auto
  next
    case False
    obtain p where p: "parent_of src a = Some p" "stored keccak src p" "height p = n"
      by (rule store_ok_parent [OF ok Suc.prems(1,3)])
    obtain q where q: "parent_of src b = Some q" "stored keccak src q" "height q = n"
      by (rule store_ok_parent [OF ok Suc.prems(2,4)])
    have at: "ancestor_at src a k = ancestor_at src p k" "ancestor_at src b k = ancestor_at src q k" if "k \<le> n" for k
      using ancestor_parent p q Suc.prems(3,4) that by simp_all
    have top: "ancestor_at src a (Suc n) \<noteq> ancestor_at src b (Suc n)" using False Suc.prems(3,4) by (simp add: ancestor_at_def)
    have f: "forks_at src a b k \<longleftrightarrow> forks_at src p q k" for k
    proof
      assume l: "forks_at src a b k"
      then have "k \<noteq> Suc n" using top by (auto simp: forks_at_def)
      then have "k \<le> n" using l Suc.prems(3) by (auto simp: forks_at_def)
      then show "forks_at src p q k" using l at p(3) q(3) Suc.prems(3,4) unfolding forks_at_def by (metis le_SucI)
    next
      assume r: "forks_at src p q k"
      then have k: "k \<le> n" using p(3) by (simp add: forks_at_def)
      have "ancestor_at src a j \<noteq> ancestor_at src b j" if "k < j" "j \<le> Suc n" for j
        using that r at top p(3) q(3) unfolding forks_at_def by (metis le_Suc_eq)
      then show "forks_at src a b k" using r k at p(3) q(3) Suc.prems(3,4) unfolding forks_at_def by simp
    qed
    have h: "hop_meet keccak src (Suc n) a b c = hop_meet keccak src n p q (c + 2)" using False e p(1) q(1) by simp
    show ?thesis using Suc.IH [OF p(2) q(2) p(3) q(3), of "c + 2"]
    proof (elim disjE exE conjE)
      fix k
      assume k: "forks_at src p q k" "hop_meet keccak src n p q (c + 2) = Some (Inr (c + 2 + 2 * of_nat (n - k)))"
      have "k \<le> n" using k(1) p(3) by (simp add: forks_at_def)
      then have "c + 2 + 2 * of_nat (n - k) = c + 2 * of_nat (Suc n - k)" by (simp add: Suc_diff_le algebra_simps)
      then show ?thesis unfolding h f using k by auto
    next
      assume "\<forall>k. \<not> forks_at src p q k" "hop_meet keccak src n p q (c + 2) = Some (Inl ErrMoreThanOneGenesis)"
      then show ?thesis unfolding h f by simp
    qed
  qed
qed

lemma forks_climb:
  assumes ok: "store_ok keccak src" and a: "stored keccak src a" "n \<le> height a" "climb src (height a - n) a = Some a'"
    and b: "stored keccak src b" "n \<le> height b" "climb src (height b - n) b = Some b'" and n: "n = height a \<or> n = height b"
  shows "forks_at src a' b' k \<longleftrightarrow> forks_at src a b k"
proof -
  have ha: "height a' = n" using climb_stored [OF ok a(1), of "height a - n"] a(2,3) by auto
  have hb: "height b' = n" using climb_stored [OF ok b(1), of "height b - n"] b(2,3) by auto
  have at: "ancestor_at src a' j = ancestor_at src a j" "ancestor_at src b' j = ancestor_at src b j" if "j \<le> n" for j
    using ancestor_climb [OF ok a(1) _ a(3), of j] ancestor_climb [OF ok b(1) _ b(3), of j] that a(2) b(2) by simp_all
  have iff: "j \<le> height a \<and> j \<le> height b \<longleftrightarrow> j \<le> n" for j using n a(2) b(2) by auto
  have "forks_at src a b k \<longleftrightarrow> k \<le> n \<and> ancestor_at src a k = ancestor_at src b k \<and>
      (\<forall>j. k < j \<longrightarrow> j \<le> n \<longrightarrow> ancestor_at src a j \<noteq> ancestor_at src b j)"
    unfolding forks_at_def using iff by blast
  also have "\<dots> \<longleftrightarrow> forks_at src a' b' k" unfolding forks_at_def ha hb using at by auto
  finally show ?thesis by simp
qed

lemma GetHopCount_ok:
  assumes ok: "store_ok keccak src" and a: "stored keccak src a" and b: "stored keccak src b"
  shows "(\<exists>k. forks_at src a b k \<and> GetHopCount keccak src a b = Some (Inr (of_nat (height a - k) + of_nat (height b - k)))) \<or>
    (\<forall>k. \<not> forks_at src a b k) \<and> GetHopCount keccak src a b = Some (Inl ErrMoreThanOneGenesis)"
proof -
  define n where "n = min (height a) (height b)"
  have na: "height a - height b = height a - n" "n \<le> height a" and nb: "height b - height a = height b - n" "n \<le> height b"
    by (auto simp: n_def min_def)
  obtain a' where a': "climb src (height a - n) a = Some a'" "stored keccak src a'" "height a' = n"
    using climb_stored [OF ok a, of "height a - n"] na(2) by auto
  obtain b' where b': "climb src (height b - n) b = Some b'" "stored keccak src b'" "height b' = n"
    using climb_stored [OF ok b, of "height b - n"] nb(2) by auto
  have f: "forks_at src a' b' k \<longleftrightarrow> forks_at src a b k" for k
    by (rule forks_climb [OF ok a na(2) a'(1) b nb(2) b'(1)]) (auto simp: n_def min_def)
  have g: "GetHopCount keccak src a b = hop_meet keccak src n a' b' (of_nat (height a - n) + of_nat (height b - n))"
    unfolding GetHopCount_def Let_def na(1) nb(1) n_def [symmetric] using a'(1) b'(1) by simp
  show ?thesis using hop_meet_ok [OF ok a'(2) b'(2) a'(3) b'(3), of "of_nat (height a - n) + of_nat (height b - n)"]
  proof (elim disjE exE conjE)
    fix k
    assume k: "forks_at src a' b' k" "hop_meet keccak src n a' b' (of_nat (height a - n) + of_nat (height b - n)) =
        Some (Inr (of_nat (height a - n) + of_nat (height b - n) + 2 * of_nat (n - k)))"
    have kn: "k \<le> n" using k(1) a'(3) by (simp add: forks_at_def)
    have d: "height a - k = (height a - n) + (n - k)" "height b - k = (height b - n) + (n - k)" using kn na(2) nb(2) by simp_all
    have "of_nat (height a - n) + of_nat (height b - n) + 2 * of_nat (n - k) = (of_nat (height a - k) + of_nat (height b - k) :: u64)"
      unfolding d by (simp add: algebra_simps)
    then show ?thesis using k unfolding g f by auto
  next
    assume "\<forall>k. \<not> forks_at src a' b' k" "hop_meet keccak src n a' b' (of_nat (height a - n) + of_nat (height b - n)) = Some (Inl ErrMoreThanOneGenesis)"
    then show ?thesis unfolding g f by simp
  qed
qed

lemma forks_unique: "forks_at src a b k \<Longrightarrow> forks_at src a b j \<Longrightarrow> j = k"
  unfolding forks_at_def by (meson linorder_neqE_nat)

section \<open>The main block of the greedy rule\<close>

text \<open>The walk stops at the highest ancestor of the main block that is not after the block, and dereferences nil when the
  chain ends before.\<close>

lemma greedy_main_ok:
  assumes ok: "store_ok keccak src"
  shows "stored keccak src m \<Longrightarrow> height m < fuel \<Longrightarrow> (\<exists>k \<le> height m. \<exists>a. ancestor_at src m k = Some a \<and> round_rank keccak a \<le> round_rank keccak b) \<Longrightarrow>
    \<exists>k a. k \<le> height m \<and> ancestor_at src m k = Some a \<and> round_rank keccak a \<le> round_rank keccak b \<and>
      (\<forall>j c. k < j \<longrightarrow> j \<le> height m \<longrightarrow> ancestor_at src m j = Some c \<longrightarrow> round_rank keccak b < round_rank keccak c) \<and>
      greedy_main keccak src fuel b m = Some a \<and> stored keccak src a \<and> height a = k"
proof (induction fuel arbitrary: m)
  case (Suc fuel)
  show ?case
  proof (cases "round_rank keccak b < round_rank keccak m")
    case False
    then have "greedy_main keccak src (Suc fuel) b m = Some m" by (simp add: compare_round sgn_if)
    moreover have "ancestor_at src m (height m) = Some m" by (simp add: ancestor_at_def)
    ultimately show ?thesis using False Suc.prems(1) by (intro exI [of _ "height m"] exI [of _ m]) auto
  next
    case True
    obtain k a where k: "k \<le> height m" "ancestor_at src m k = Some a" "round_rank keccak a \<le> round_rank keccak b" using Suc.prems(3) by blast
    have "k \<noteq> height m" using k True by (auto simp: ancestor_at_def)
    then obtain n where n: "height m = Suc n" "k \<le> n" using k(1) by (cases "height m") auto
    obtain p where p: "parent_of src m = Some p" "stored keccak src p" "height p = n"
      by (rule store_ok_parent [OF ok Suc.prems(1) n(1)])
    have at: "ancestor_at src m j = ancestor_at src p j" if "j \<le> n" for j
      using ancestor_parent [OF p(1)] n(1) p(3) that by simp
    have "\<exists>k \<le> height p. \<exists>a. ancestor_at src p k = Some a \<and> round_rank keccak a \<le> round_rank keccak b"
      using k n(2) at p(3) by metis
    from Suc.IH [OF p(2) _ this] obtain k' a' where r: "k' \<le> height p" "ancestor_at src p k' = Some a'" "round_rank keccak a' \<le> round_rank keccak b"
        "\<forall>j c. k' < j \<longrightarrow> j \<le> height p \<longrightarrow> ancestor_at src p j = Some c \<longrightarrow> round_rank keccak b < round_rank keccak c"
        "greedy_main keccak src fuel b p = Some a'" "stored keccak src a'" "height a' = k'"
      using Suc.prems(2) n(1) p(3) by auto
    have "round_rank keccak b < round_rank keccak c" if "k' < j" "j \<le> height m" "ancestor_at src m j = Some c" for j c
    proof (cases "j = Suc n")
      case True
      then show ?thesis using that(3) n(1) \<open>round_rank keccak b < round_rank keccak m\<close> by (simp add: ancestor_at_def)
    next
      case False
      then show ?thesis using that n(1) p(3) at r(4) by (metis le_Suc_eq)
    qed
    moreover have "greedy_main keccak src (Suc fuel) b m = Some a'" using True p(1) r(5) by (simp add: compare_round sgn_if)
    ultimately show ?thesis using r at p(3) n(1) by (intro exI [of _ k'] exI [of _ a']) auto
  qed
qed simp

end
