(* ===== verification/Chain_Derive.thy ===== *)
theory Chain_Derive
  imports Trie_Props Chain_Block
begin

text \<open>
  The root hash of a list (\<^verbatim>\<open>core/types/derive_sha.go\<close>): a trie that maps the RLP of each index to the RLP of the element. The
  trie has no database, so loading a node would dereference nil. The fuel of the hash is the size of the trie, the fuel of an
  update fits keys of nine bytes. \<open>None\<close> is a panic.
\<close>

definition index_key :: "nat \<Rightarrow> bytes" where
  "index_key i = (case Encode (uint_item (of_nat i)) of Some b \<Rightarrow> b | None \<Rightarrow> [])"

primrec derive_loop :: "nat \<Rightarrow> bytes list \<Rightarrow> Trie \<Rightarrow> Trie option" where
  "derive_loop i [] t = Some t"
| "derive_loop i (x # xs) t =
     (case Trie_Update (\<lambda>_ _. None) 40 (index_key i) x t of
        None \<Rightarrow> None
      | Some t' \<Rightarrow> derive_loop (i + 1) xs t')"

definition DeriveSha :: "(bytes \<Rightarrow> hash) \<Rightarrow> bytes list \<Rightarrow> hash option" where
  "DeriveSha keccak xs =
     (case derive_loop 0 xs \<lparr>tRoot = NilNode, tOriginalRoot = 0, tCachegen = 0, tCachelimit = 0\<rparr> of
        None \<Rightarrow> None
      | Some t \<Rightarrow> map_option fst (Trie_Hash keccak (Suc (size (tRoot t))) t))"

text \<open>The RLP form of a transaction; a negative number makes the encoder fail, and \<^verbatim>\<open>GetRlp\<close> drops the error.\<close>

definition big_item :: "int \<Rightarrow> rlp_item option" where
  "big_item i = (if i < 0 then None else Some (Str (nat_bytes (nat i))))"

definition Transaction_item :: "Transaction \<Rightarrow> rlp_item option" where
  "Transaction_item tx =
     (case (big_item (txPrice tx), big_item (txAmount tx), big_item (txV tx), big_item (txR tx), big_item (txS tx)) of
        (Some price, Some amount, Some v, Some r, Some s) \<Rightarrow>
          Some (Lst [uint_item (txAccountNonce tx), price, uint_item (txGasLimit tx),
                 (case txRecipient tx of None \<Rightarrow> Str [] | Some a \<Rightarrow> Str (be_bytes 20 a)), amount, Str (txPayload tx),
                 uint_item (of_bool (txBroadcast tx)), v, r, s])
      | _ \<Rightarrow> None)"

definition Transactions_GetRlp :: "Transaction \<Rightarrow> bytes" where
  "Transactions_GetRlp tx =
     (case Transaction_item tx of None \<Rightarrow> [] | Some it \<Rightarrow> (case EncodeToBytes it of None \<Rightarrow> [] | Some b \<Rightarrow> b))"

definition TxHash_of :: "(bytes \<Rightarrow> hash) \<Rightarrow> Transaction list \<Rightarrow> hash option" where
  "TxHash_of keccak txs = DeriveSha keccak (map Transactions_GetRlp txs)"

section \<open>Keys\<close>

lemma length_uint_bytes: "length (uint_bytes i) \<le> 8"
  using intsize_bounds [of i] by (simp add: uint_bytes_def length_putint)

lemma length_small_string: "length b \<le> 8 \<Longrightarrow> length (rlp (Str b)) \<le> 9"
  by (auto simp: rlp_string_def str_head_def puthead_def word_less_nat_alt unat_of_nat)

lemma index_key_rlp: "index_key i = rlp (Str (uint_bytes (of_nat i)))"
  using Encode_rlp [of "uint_item (of_nat i)"] length_small_string [OF length_uint_bytes, of "of_nat i"]
  by (simp add: index_key_def uint_item_def del: rlp.simps)

lemma length_index_key: "length (index_key i) \<le> 9"
  unfolding index_key_rlp by (rule length_small_string [OF length_uint_bytes])

lemma be_nat_uint_bytes: "be_nat (uint_bytes i) = unat i"
  by (simp add: uint_bytes_def be_nat_putint)

lemma index_key_inject:
  assumes "i < 2 ^ 64" "j < 2 ^ 64" "index_key i = index_key j"
  shows "i = j"
proof -
  have s: "SplitString (index_key k) = Some (Inr (uint_bytes (of_nat k), []))" for k
    using SplitString_item [of "uint_bytes (of_nat k)" "[]"] length_index_key [of k] unfolding index_key_rlp by simp
  have "uint_bytes (of_nat i) = uint_bytes (of_nat j)" using s [of i] s [of j] assms(3) by simp
  then have "unat (of_nat i :: u64) = unat (of_nat j :: u64)" using be_nat_uint_bytes by metis
  then show ?thesis using assms(1,2) by (simp add: unat_of_nat)
qed

section \<open>The map a list is stored as\<close>

text \<open>Element \<open>j\<close> under the key of index \<open>i + j\<close>, on top of \<open>m\<close>.\<close>

primrec list_map :: "nat \<Rightarrow> bytes list \<Rightarrow> (bytes \<Rightarrow> bytes option) \<Rightarrow> bytes \<Rightarrow> bytes option" where
  "list_map i [] m = m"
| "list_map i (x # xs) m = list_map (i + 1) xs (m(index_key i := written x))"

lemma list_map_other: "\<forall>j < length xs. k \<noteq> index_key (i + j) \<Longrightarrow> list_map i xs m k = m k"
proof (induction xs arbitrary: i m)
  case (Cons x xs)
  have "\<forall>j < length xs. k \<noteq> index_key (i + 1 + j)"
  proof (intro allI impI)
    fix j
    assume "j < length xs"
    then have "Suc j < length (x # xs)" by simp
    then show "k \<noteq> index_key (i + 1 + j)" using Cons.prems by (metis add.commute add.left_commute plus_1_eq_Suc)
  qed
  moreover have "k \<noteq> index_key i" using Cons.prems by (metis add.right_neutral length_greater_0_conv list.discI)
  ultimately show ?case using Cons.IH by simp
qed simp

lemma list_map_at:
  "i + length xs \<le> 2 ^ 64 \<Longrightarrow> j < length xs \<Longrightarrow> list_map i xs m (index_key (i + j)) = written (xs ! j)"
proof (induction xs arbitrary: i j m)
  case (Cons x xs)
  show ?case
  proof (cases j)
    case 0
    have "index_key i \<noteq> index_key (i + 1 + k)" if "k < length xs" for k
      using index_key_inject [of i "i + 1 + k"] Cons.prems(1) that by fastforce
    then show ?thesis using 0 list_map_other [of xs "index_key i" "i + 1"] by simp
  next
    case (Suc k)
    then show ?thesis using Cons.IH [of "i + 1" k] Cons.prems by simp
  qed
qed simp

lemma list_map_values: "list_map i xs m k = Some v \<Longrightarrow> v \<in> set xs \<or> m k = Some v"
proof (induction xs arbitrary: i m)
  case (Cons x xs)
  then have "v \<in> set xs \<or> (m(index_key i := written x)) k = Some v" unfolding list_map.simps by blast
  then show ?case by (auto split: if_splits)
qed simp

lemma derive_loop_stores:
  "stores (tracks keccak (\<lambda>_ _. None)) t m \<Longrightarrow>
   \<exists>t'. derive_loop i xs t = Some t' \<and> stores (tracks keccak (\<lambda>_ _. None)) t' (list_map i xs m)"
proof (induction xs arbitrary: i t m)
  case (Cons x xs)
  have "key_fuel (index_key i) \<le> 40" using length_index_key [of i] by simp
  then obtain t1 where t1: "Trie_Update (\<lambda>_ _. None) 40 (index_key i) x t = Some t1"
      "stores (tracks keccak (\<lambda>_ _. None)) t1 (m(index_key i := written x))"
    using track.Update_stores [OF Cons.prems] by blast
  obtain t2 where "derive_loop (i + 1) xs t1 = Some t2"
      "stores (tracks keccak (\<lambda>_ _. None)) t2 (list_map (i + 1) xs (m(index_key i := written x)))"
    using Cons.IH [OF t1(2), of "i + 1"] by blast
  then show ?case unfolding list_map.simps derive_loop.simps t1(1) option.case by blast
qed simp

definition small_list :: "bytes list \<Rightarrow> bool" where
  "small_list xs = (length xs < 2 ^ 64 \<and> (\<forall>x \<in> set xs. x \<noteq> [] \<and> length x < 2 ^ 56))"

abbreviation stored_list :: "bytes list \<Rightarrow> bytes \<Rightarrow> bytes option" where
  "stored_list xs \<equiv> list_map 0 xs (\<lambda>_. None)"

lemma small_list_map:
  assumes "small_list xs"
  shows "small_map (stored_list xs)"
  unfolding small_map_def
proof (intro allI impI)
  fix k v
  assume v: "stored_list xs k = Some v"
  then have "\<exists>j < length xs. k = index_key (0 + j)" using list_map_other [of xs k 0 "\<lambda>_. None"] by fastforce
  then have "length k \<le> 9" using length_index_key by auto
  moreover have "v \<in> set xs" using list_map_values [OF v] by simp
  ultimately show "length k < 2 ^ 56 \<and> length v < 2 ^ 56" using assms by (simp add: small_list_def)
qed

lemma stored_list_inject:
  assumes "small_list xs" "small_list ys" "stored_list xs = stored_list ys"
  shows "xs = ys"
proof (rule nth_equalityI)
  have at: "stored_list zs (index_key j) = (if j < length zs then Some (zs ! j) else None)" if "small_list zs" "j < 2 ^ 64" for zs j
  proof (cases "j < length zs")
    case True
    then show ?thesis using list_map_at [of 0 zs j] that nth_mem [OF True] by (auto simp: small_list_def)
  next
    case False
    have "index_key j \<noteq> index_key (0 + k)" if "k < length zs" for k
      using index_key_inject [of j k] False that \<open>small_list zs\<close> \<open>j < 2 ^ 64\<close> by (auto simp: small_list_def)
    then show ?thesis using False list_map_other [of zs "index_key j" 0] by auto
  qed
  show l: "length xs = length ys"
  proof (rule ccontr)
    assume n: "length xs \<noteq> length ys"
    define j where "j = min (length xs) (length ys)"
    have "j < 2 ^ 64" using assms(1) unfolding j_def small_list_def by (auto intro: le_less_trans [OF min.cobounded1])
    then show False using at [OF assms(1), of j] at [OF assms(2), of j] assms(3) n by (auto simp: j_def min_def split: if_splits)
  qed
  show "xs ! j = ys ! j" if "j < length xs" for j
    using at [OF assms(1), of j] at [OF assms(2), of j] assms l that by (auto simp: small_list_def)
qed

lemma DeriveSha_root:
  assumes "small_list xs"
  obtains p where "spells p (stored_list xs)" "DeriveSha keccak xs = Some (root_of keccak p)"
proof -
  obtain t where t: "derive_loop 0 xs new_trie = Some t" "stores (tracks keccak (\<lambda>_ _. None)) t (stored_list xs)"
    using derive_loop_stores [OF new_trie_stores] by blast
  then obtain p where p: "tracks keccak (\<lambda>_ _. None) True (tRoot t) p" "spells p (stored_list xs)" by (auto simp: stores_def)
  then show ?thesis
    using that Trie_Hash_stores [OF p small_list_map [OF assms], of "Suc (size (tRoot t))"] t(1)
    by (auto simp: DeriveSha_def new_trie_def)
qed

text \<open>C37. The root hash of a list, as used for the transactions and the receipts of a block, is always computed and determines
  the list: among encodings without hash collisions two lists of non-empty elements have the same hash exactly when they are
  equal.\<close>

theorem DeriveSha_binding:
  assumes "small_list xs" "small_list ys" "no_collision keccak C"
    and "blobs keccak (stored_list xs) \<subseteq> C" "blobs keccak (stored_list ys) \<subseteq> C"
  shows "\<exists>h h'. DeriveSha keccak xs = Some h \<and> DeriveSha keccak ys = Some h' \<and> (h = h' \<longleftrightarrow> xs = ys)"
proof -
  obtain p where p: "spells p (stored_list xs)" "DeriveSha keccak xs = Some (root_of keccak p)"
    by (rule DeriveSha_root [OF assms(1)])
  obtain q where q: "spells q (stored_list ys)" "DeriveSha keccak ys = Some (root_of keccak q)"
    by (rule DeriveSha_root [OF assms(2)])
  have "xs = ys" if "root_of keccak p = root_of keccak q"
    using root_of_inject [OF assms(3) p(1) q(1) assms(4,5) that] stored_list_inject [OF assms(1,2)] by blast
  moreover have "root_of keccak p = root_of keccak q" if "xs = ys" using p(2) q(2) that by simp
  ultimately show ?thesis using p(2) q(2) by blast
qed

theorem DeriveSha_binding_witness:
  "\<exists>h h'. DeriveSha demo_hash [[2]] = Some h \<and> DeriveSha demo_hash [] = Some h' \<and> (h = h' \<longleftrightarrow> [[2]] = ([] :: bytes list))"
proof (rule DeriveSha_binding)
  have k: "stored_list [[2]] = [index_key 0 \<mapsto> [2]]" by simp
  show "no_collision demo_hash (blobs demo_hash [index_key 0 \<mapsto> [2]])"
    using length_index_key [of 0] by (intro single_no_collision) (auto simp: small_map_def)
  show "blobs demo_hash (stored_list [[2]]) \<subseteq> blobs demo_hash [index_key 0 \<mapsto> [2]]" unfolding k ..
qed (simp_all add: small_list_def empty_blobs)

end
