(* ===== verification/Chain_Verify.thy ===== *)
theory Chain_Verify
  imports Chain_Graph Chain_Derive Tx_Exec State_Revert
begin

text \<open>
  Acceptance of blocks (\<^verbatim>\<open>chain/block_verify.go\<close>, \<^verbatim>\<open>chain/future.go\<close>, the package rules of \<^verbatim>\<open>chain/pkg_handler.go\<close> and the state
  lookups of \<^verbatim>\<open>chain/state_handler.go\<close>). \<open>None\<close> as a result is a panic or fuel that ran out.
\<close>

section \<open>The chain\<close>

text \<open>
  The state of \<^verbatim>\<open>BlockChain\<close>: the genesis and the head block, what the database holds (the hash of the head, the blocks, their
  children, the index by round, the state flags, blooms, receipts and packages), the state database, and the blocks and packages
  that wait for a missing one. \<open>bcBlocks\<close> and \<open>bcPackages\<close> are the database together with the cache in front of it. The BLS key
  functions, the checkpoint rule and the transaction signer are parameters in \<open>verify_env\<close>.
\<close>

record BlockRoundHash =
  rhRound :: u64
  rhSimpleHash :: hash
  rhFullHash :: hash

record BlockChain =
  bcGenesis :: Block
  bcCurrentBlock :: Block
  bcHeadHash :: hash
  bcBlocks :: block_source
  bcChilds :: "hash \<Rightarrow> hash list"
  bcRoundHashes :: "u64 \<Rightarrow> BlockRoundHash list"
  bcStateCheck :: "hash \<Rightarrow> BlockStateCheckedEnum"
  bcBlooms :: "hash \<rightharpoonup> Bloom"
  bcReceipts :: "hash \<rightharpoonup> Receipt list"
  bcStateCache :: "State_DB.Database"
  bcPackages :: "hash \<Rightarrow> TxPackage option"
  bcFutureBlocks :: "(hash \<times> Block list) list"
  bcFutureDepth :: "(hash \<times> int) list"
  bcFutureTxPackageBlocks :: "(hash \<times> Block list) list"
  bcFutureBlockTxPackages :: "(hash \<times> TxPackage list) list"

record verify_env =
  veKeccak :: "bytes \<Rightarrow> hash"
  veCrypto :: Crypto
  veSigner :: Signer
  veGreedy :: u8
  veBlockSigFake :: bool
  veUnmarshalPubKey :: "bytes \<Rightarrow> bool"
  veVerify :: "bytes \<Rightarrow> bytes \<Rightarrow> bytes \<Rightarrow> bool"
  veCheckPointRule :: "Block \<Rightarrow> bool"

section \<open>Waiting blocks\<close>

definition future_add :: "(bytes \<Rightarrow> hash) \<Rightarrow> hash \<Rightarrow> Block \<Rightarrow> (hash \<times> Block list) list \<Rightarrow> (hash \<times> Block list) list" where
  "future_add keccak h block m =
     (let blocks = (case map_of m h of None \<Rightarrow> [] | Some bs \<Rightarrow> bs)
      in AList.update h (if Blocks_Has keccak blocks (Block_FullHash keccak block) then blocks else blocks @ [block]) m)"

definition depth_of :: "(hash \<times> int) list \<Rightarrow> hash \<Rightarrow> int" where
  "depth_of m h = (case map_of m h of None \<Rightarrow> 0 | Some d \<Rightarrow> d)"

definition addFutureBlock :: "(bytes \<Rightarrow> hash) \<Rightarrow> hash \<Rightarrow> Block \<Rightarrow> BlockChain \<Rightarrow> int \<times> BlockChain" where
  "addFutureBlock keccak dependHash block bc =
     (let depth1 = depth_of (bcFutureDepth bc) dependHash;
          depth2 = depth_of (bcFutureDepth bc) (Block_FullHash keccak block);
          depth = max depth1 (depth2 + 1)
      in (depth, bc\<lparr>bcFutureBlocks := future_add keccak dependHash block (bcFutureBlocks bc),
                   bcFutureDepth := AList.update dependHash depth (bcFutureDepth bc)\<rparr>))"

definition removeFutureBlock :: "(bytes \<Rightarrow> hash) \<Rightarrow> hash \<Rightarrow> BlockChain \<Rightarrow> BlockChain" where
  "removeFutureBlock keccak hash bc =
     (let m = map (\<lambda>(h, bs). (h, Blocks_Remove keccak bs hash)) (bcFutureBlocks bc);
          gone = map fst (filter (\<lambda>(h, bs). bs = []) m)
      in bc\<lparr>bcFutureBlocks := filter (\<lambda>(h, bs). bs \<noteq> []) m,
            bcFutureDepth := filter (\<lambda>(h, d). h \<notin> set gone) (bcFutureDepth bc)\<rparr>)"

definition futureBlocksSize :: "BlockChain \<Rightarrow> nat" where
  "futureBlocksSize bc = sum_list (map (length \<circ> snd) (bcFutureBlocks bc))"

definition getFutureBlocks :: "BlockChain \<Rightarrow> hash \<Rightarrow> Block list" where
  "getFutureBlocks bc h = (case map_of (bcFutureBlocks bc) h of None \<Rightarrow> [] | Some bs \<Rightarrow> bs)"

definition removeFutureBlocks :: "hash \<Rightarrow> BlockChain \<Rightarrow> BlockChain" where
  "removeFutureBlocks h bc =
     bc\<lparr>bcFutureBlocks := AList.delete h (bcFutureBlocks bc), bcFutureDepth := AList.delete h (bcFutureDepth bc)\<rparr>"

definition addFutureTxPackageBlock :: "(bytes \<Rightarrow> hash) \<Rightarrow> hash \<Rightarrow> Block \<Rightarrow> BlockChain \<Rightarrow> BlockChain" where
  "addFutureTxPackageBlock keccak pkgHash block bc =
     bc\<lparr>bcFutureTxPackageBlocks := future_add keccak pkgHash block (bcFutureTxPackageBlocks bc)\<rparr>"

definition removeFutureTxPackageBlock :: "(bytes \<Rightarrow> hash) \<Rightarrow> hash \<Rightarrow> BlockChain \<Rightarrow> BlockChain" where
  "removeFutureTxPackageBlock keccak hash bc =
     bc\<lparr>bcFutureTxPackageBlocks := map (\<lambda>(h, bs). (h, Blocks_Remove keccak bs hash)) (bcFutureTxPackageBlocks bc)\<rparr>"

definition getFutureTxPackageBlocks :: "BlockChain \<Rightarrow> hash \<Rightarrow> Block list" where
  "getFutureTxPackageBlocks bc h = (case map_of (bcFutureTxPackageBlocks bc) h of None \<Rightarrow> [] | Some bs \<Rightarrow> bs)"

definition removeFutureTxPackageBlocks :: "hash \<Rightarrow> BlockChain \<Rightarrow> BlockChain" where
  "removeFutureTxPackageBlocks h bc = bc\<lparr>bcFutureTxPackageBlocks := AList.delete h (bcFutureTxPackageBlocks bc)\<rparr>"

section \<open>Depended and confirmed blocks\<close>

definition VerifyBlockDepend :: "(bytes \<Rightarrow> hash) \<Rightarrow> BlockChain \<Rightarrow> Block \<Rightarrow> hash \<times> chain_error option" where
  "VerifyBlockDepend keccak bc block =
     (if Block_FullHash keccak block = Block_FullHash keccak (bcGenesis bc) then (0, None)
      else if parent_of (bcBlocks bc) block = None then (bhParentFullHash (bHeader block), Some ErrCannotFindParentBlock)
      else
        case find (\<lambda>h. bcBlocks bc h = None) (bhConfirms (bHeader block)) of
          Some h \<Rightarrow> (h, Some ErrConfirmUnknownBlock)
        | None \<Rightarrow> (0, None))"

primrec confirm_loop :: "(bytes \<Rightarrow> hash) \<Rightarrow> block_source \<Rightarrow> nat \<Rightarrow> u64 \<Rightarrow> Block \<Rightarrow> Block \<Rightarrow> Block option \<Rightarrow> hash list \<Rightarrow>
    hash list \<Rightarrow> Block list \<Rightarrow> (chain_error + Block list) option" where
  "confirm_loop keccak src fuel greedy block parent grand [] seen acc = Some (Inr acc)"
| "confirm_loop keccak src fuel greedy block parent grand (h # hs) seen acc =
     (case src h of
        None \<Rightarrow> None
      | Some c \<Rightarrow>
          if Block_SimpleHash keccak c \<in> set seen then Some (Inl ErrConfirmedBlockHasSameSimpleHash)
          else if CompareByRoundAndSimpleHash keccak c parent \<ge> 0 then Some (Inl ErrConfirmBlockNotMeetRound)
          else if (case grand of None \<Rightarrow> False | Some g \<Rightarrow> CompareByRoundAndSimpleHash keccak c g \<le> 0)
            then Some (Inl ErrConfirmBlockNotMeetRound)
          else
            case CheckGreedy keccak src fuel c block greedy of
              None \<Rightarrow> None
            | Some (Inl err) \<Rightarrow> Some (Inl err)
            | Some (Inr False) \<Rightarrow> Some (Inl ErrConfirmBlockNotMeetGreedy)
            | Some (Inr True) \<Rightarrow>
                confirm_loop keccak src fuel greedy block parent grand hs (Block_SimpleHash keccak c # seen) (acc @ [c]))"

definition verifyConfirmBlocks :: "(bytes \<Rightarrow> hash) \<Rightarrow> block_source \<Rightarrow> nat \<Rightarrow> u8 \<Rightarrow> Block \<Rightarrow> (chain_error + Block list) option" where
  "verifyConfirmBlocks keccak src fuel greedy block =
     (case parent_of src block of
        None \<Rightarrow> None
      | Some parent \<Rightarrow>
          if bhHeight (bHeader block) > 1 then
            (case parent_of src parent of
               None \<Rightarrow> Some (Inl ErrCannotFindGrandparentBlock)
             | Some g \<Rightarrow> confirm_loop keccak src fuel (ucast greedy) block parent (Some g) (bhConfirms (bHeader block)) [] [])
          else confirm_loop keccak src fuel (ucast greedy) block parent None (bhConfirms (bHeader block)) [] [])"

section \<open>State lookups\<close>

definition ConfirmHeightDistance :: u64 where "ConfirmHeightDistance = 6"
definition StakeRegisterHeightDistance :: u64 where "StakeRegisterHeightDistance = 6"
definition PackerKeyConfirmDistance :: u64 where "PackerKeyConfirmDistance = 6"

definition StateAt :: "BlockChain \<Rightarrow> hash \<Rightarrow> StateDB option" where
  "StateAt bc stateHash = StateDB_New stateHash (bcStateCache bc)"

definition GetStateBeforeCacheHeight :: "verify_env \<Rightarrow> BlockChain \<Rightarrow> Block \<Rightarrow> u8 \<Rightarrow> (StateDB \<times> Block) option" where
  "GetStateBeforeCacheHeight env bc block cacheHeight0 =
     (let cacheHeight = (if ucast cacheHeight0 > bhHeight (bHeader block) then ucast (bhHeight (bHeader block)) else cacheHeight0)
      in case GetBlockBeforeCacheHeight (veKeccak env) (bcBlocks bc) (bcGenesis bc) block cacheHeight of
           None \<Rightarrow> None
         | Some b \<Rightarrow> map_option (\<lambda>s. (s, b)) (StateAt bc (bhStateHash (bHeader b))))"

text \<open>The contract and the table (\<^verbatim>\<open>minerkey\<close>) of the miners' public keys.\<close>

definition MinerKeyContractAddr :: address where "MinerKeyContractAddr = 1"

definition MinerKeyContractTable :: bytes where
  "MinerKeyContractTable = [109, 105, 110, 101, 114, 107, 101, 121]"

text \<open>A stored value shorter than 22 bytes is sliced out of range.\<close>

definition GetPreBalanceAndPubkey :: "verify_env \<Rightarrow> BlockChain \<Rightarrow> Block \<Rightarrow> address \<Rightarrow> (chain_error + u64 \<times> bytes) option" where
  "GetPreBalanceAndPubkey env bc block addr =
     (case GetStateBeforeCacheHeight env bc block (ucast StakeRegisterHeightDistance) of
        None \<Rightarrow> Some (Inl ErrBlockStateNotFound)
      | Some (s, _) \<Rightarrow>
          let balance = big_Uint64 (StateDB_GetBalance s addr);
              storageKey = GetStorageKey (name_table MinerKeyContractTable) (be_bytes 20 addr)
          in case StateDB_GetState s MinerKeyContractAddr storageKey of
               None \<Rightarrow> Some (Inr (balance, []))
             | Some v \<Rightarrow> if length v < 22 then None else Some (Inr (balance, drop 22 v)))"

section \<open>Packages\<close>

definition MinPackageHeightDelay :: u64 where "MinPackageHeightDelay = 2"
definition MaxPackageHeightDelay :: u64 where "MaxPackageHeightDelay = 4"

definition MinBlockHeightAllowedToCarryThePkg :: "u64 \<Rightarrow> u64" where
  "MinBlockHeightAllowedToCarryThePkg txPkgHeight = txPkgHeight + MinPackageHeightDelay"

definition MaxBlockHeightAllowedToCarryThePkg :: "u64 \<Rightarrow> u64" where
  "MaxBlockHeightAllowedToCarryThePkg txPkgHeight = txPkgHeight + MaxPackageHeightDelay"

definition MinPkgHeightAllowedToPutIntoTheBlock :: "u64 \<Rightarrow> u64" where
  "MinPkgHeightAllowedToPutIntoTheBlock blockHeight =
     (if blockHeight \<ge> MaxPackageHeightDelay then blockHeight - MaxPackageHeightDelay else 0)"

definition MaxPkgHeightAllowedToPutIntoTheBlock :: "u64 \<Rightarrow> u64" where
  "MaxPkgHeightAllowedToPutIntoTheBlock blockHeight =
     (if blockHeight \<ge> MinPackageHeightDelay then blockHeight - MinPackageHeightDelay else 0)"

definition MinAvailablePackageHeight :: "u8 \<Rightarrow> Block \<Rightarrow> u64" where
  "MinAvailablePackageHeight greedy current =
     MinPkgHeightAllowedToPutIntoTheBlock
       (if bhHeight (bHeader current) < ucast greedy then 1 else bhHeight (bHeader current) - ucast greedy + 1)"

definition ValidatePackage :: "verify_env \<Rightarrow> BlockChain \<Rightarrow> TxPackage \<Rightarrow> u64 \<Rightarrow> chain_error option" where
  "ValidatePackage env bc pkg h =
     (case bcBlocks bc (pkBlockFullHash pkg) of
        None \<Rightarrow> Some ErrBlockNotFound
      | Some related \<Rightarrow>
          let pkgHeight = bhHeight (bHeader related) + ucast (veGreedy env) + PackerKeyConfirmDistance
          in if pkgHeight < MinPkgHeightAllowedToPutIntoTheBlock h then Some ErrPackageHeightTooLow
             else if pkgHeight > MaxPkgHeightAllowedToPutIntoTheBlock h then Some ErrPackageHeightTooHigh
             else None)"

section \<open>Verification\<close>

record verify_result =
  vrConfirms :: "Block list"
  vrDepend :: hash
  vrDepth :: int
  vrPackage :: hash
  vrErr :: "chain_error option"

definition verify_err :: "chain_error \<Rightarrow> verify_result" where
  "verify_err err = \<lparr>vrConfirms = [], vrDepend = 0, vrDepth = 0, vrPackage = 0, vrErr = Some err\<rparr>"

text \<open>The gas rules: bounds, use within the limit, and the distance to the limit of the parent.\<close>

definition gas_rules :: "Block \<Rightarrow> Block \<Rightarrow> chain_error option" where
  "gas_rules parent block =
     (let gl = bhGasLimit (bHeader block); pgl = bhGasLimit (bHeader parent)
      in if gl > MaxGasLimit then Some ErrInvalidGasLimit
         else if bhGasUsed (bHeader block) > gl then Some ErrInvalidGasUsed
         else
           let diff0 = pgl - gl;
               diff = (if sint diff0 < 0 then - diff0 else diff0);
               limit = pgl div GasLimitBoundDivisor
           in if diff \<ge> limit \<or> gl < MinGasLimit then Some ErrInvalidGasLimit else None)"

text \<open>Difficulty and target; the division by a zero difficulty would panic.\<close>

definition consensus_rule :: "(bytes \<Rightarrow> hash) \<Rightarrow> Block \<Rightarrow> Block \<Rightarrow> u64 \<Rightarrow> bool option" where
  "consensus_rule keccak parent block balance =
     (let expected = CalcDifficulty (bhRound (bHeader block)) (bhRound (bHeader parent)) (bhDifficulty (bHeader parent))
      in if expected \<noteq> bhDifficulty (bHeader block) then Some False
         else if bhDifficulty (bHeader block) = 0 then None
         else Some (uint (Block_SimpleHash keccak block) \<le> uint balance * 2 ^ 256 div bhDifficulty (bHeader block)))"

definition sig_rule :: "verify_env \<Rightarrow> bytes \<Rightarrow> Block \<Rightarrow> chain_error option" where
  "sig_rule env pubkey block =
     (if veBlockSigFake env then None
      else if \<not> veUnmarshalPubKey env pubkey then Some ErrUnmarshalPubKey
      else if \<not> veVerify env pubkey (SignHashByte (veKeccak env) block) (bhSig (bHeader block)) then Some ErrBlockSigError
      else if \<not> veVerify env pubkey (Hash_Bytes (Block_FullHash (veKeccak env) block)) (bhFullSig (bHeader block))
        then Some ErrBlockFullSigError
      else None)"

primrec package_loop :: "verify_env \<Rightarrow> Block \<Rightarrow> Block list \<Rightarrow> hash list \<Rightarrow> BlockChain \<Rightarrow> verify_result \<times> BlockChain" where
  "package_loop env block confirms [] bc =
     (\<lparr>vrConfirms = confirms, vrDepend = 0, vrDepth = 0, vrPackage = 0, vrErr = None\<rparr>, bc)"
| "package_loop env block confirms (h # hs) bc =
     (case bcPackages bc h of
        None \<Rightarrow> ((verify_err ErrBlockTxPackageMissing)\<lparr>vrPackage := h\<rparr>, addFutureTxPackageBlock (veKeccak env) h block bc)
      | Some pkg \<Rightarrow>
          (case ValidatePackage env bc pkg (bhHeight (bHeader block)) of
             Some err \<Rightarrow> (verify_err err, bc)
           | None \<Rightarrow> package_loop env block confirms hs bc))"

definition verify_content :: "verify_env \<Rightarrow> Block \<Rightarrow> Block list \<Rightarrow> BlockChain \<Rightarrow> (verify_result \<times> BlockChain) option" where
  "verify_content env block confirms bc =
     (if list_ex (\<lambda>tx. isl (Signer_Sender (veCrypto env) (veSigner env) tx)) (bbTransactions (bBody block))
      then Some (verify_err ErrPackTxSignError, bc)
      else
        case TxHash_of (veKeccak env) (bbTransactions (bBody block)) of
          None \<Rightarrow> None
        | Some txHash \<Rightarrow>
            if bhTxHash (bHeader block) \<noteq> txHash then Some (verify_err ErrBlockTxHashError, bc)
            else Some (package_loop env block confirms (bbTxPackageHashes (bBody block)) bc))"

definition verify_header :: "verify_env \<Rightarrow> Block \<Rightarrow> bool \<Rightarrow> Block list \<Rightarrow> Block \<Rightarrow> BlockChain \<Rightarrow>
    (verify_result \<times> BlockChain) option" where
  "verify_header env block checkGreedy confirms parent bc =
     (if Block_SimpleHash (veKeccak env) parent \<noteq> bhParentHash (bHeader block) then Some (verify_err ErrNotConfirmParentBlock, bc)
      else case gas_rules parent block of
        Some err \<Rightarrow> Some (verify_err err, bc)
      | None \<Rightarrow>
          if bhHeight (bHeader block) \<noteq> bhHeight (bHeader parent) + 1 then Some (verify_err ErrBlockHeightError, bc)
          else if bhRound (bHeader block) \<le> bhRound (bHeader parent) then Some (verify_err ErrBlockRoundTooLow, bc)
          else
            case GetPreBalanceAndPubkey env bc parent (bhCoinbase (bHeader block)) of
              None \<Rightarrow> None
            | Some (Inl err) \<Rightarrow> Some (verify_err err, bc)
            | Some (Inr (balance, pubkey)) \<Rightarrow>
                (case consensus_rule (veKeccak env) parent block balance of
                   None \<Rightarrow> None
                 | Some False \<Rightarrow> Some (verify_err ErrBlockConsensusError, bc)
                 | Some True \<Rightarrow>
                     (case sig_rule env pubkey block of
                        Some err \<Rightarrow> Some (verify_err err, bc)
                      | None \<Rightarrow>
                          if checkGreedy \<and> \<not> veCheckPointRule env block then Some (verify_err ErrBlockNotMeetCheckPoint, bc)
                          else verify_content env block confirms bc)))"

definition VerifyBlock :: "verify_env \<Rightarrow> nat \<Rightarrow> Block \<Rightarrow> bool \<Rightarrow> BlockChain \<Rightarrow> (verify_result \<times> BlockChain) option" where
  "VerifyBlock env fuel block checkGreedy bc =
     (let keccak = veKeccak env
      in if Block_FullHash keccak block = Block_FullHash keccak (bcGenesis bc)
         then Some (\<lparr>vrConfirms = [], vrDepend = 0, vrDepth = 0, vrPackage = 0, vrErr = None\<rparr>, bc)
         else
           case VerifyBlockDepend keccak bc block of
             (depend, Some err) \<Rightarrow>
               (let (depth, bc') = addFutureBlock keccak depend block bc
                in Some (\<lparr>vrConfirms = [], vrDepend = depend, vrDepth = depth, vrPackage = 0, vrErr = Some err\<rparr>, bc'))
           | (_, None) \<Rightarrow>
               (case verifyConfirmBlocks keccak (bcBlocks bc) fuel (veGreedy env) block of
                  None \<Rightarrow> None
                | Some (Inl err) \<Rightarrow> Some (verify_err err, bc)
                | Some (Inr confirms) \<Rightarrow>
                    (case parent_of (bcBlocks bc) block of
                       None \<Rightarrow> None
                     | Some parent \<Rightarrow> verify_header env block checkGreedy confirms parent bc)))"

section \<open>What acceptance means\<close>

lemma signed_small: "0 \<le> a \<Longrightarrow> 0 \<le> b \<Longrightarrow> a < 2 ^ 63 \<Longrightarrow> b < 2 ^ 63 \<Longrightarrow> signed_take_bit 63 (a - b :: int) = a - b"
  by (intro signed_take_bit_int_eq_self) simp_all

lemma sint_small: "uint (x :: u64) < 2 ^ 63 \<Longrightarrow> sint x = uint x"
  using signed_small [OF uint_ge_0 [of x], of 0] by (simp add: sint_uint)

lemma sint_diff:
  assumes "uint (x :: u64) < 2 ^ 62" "uint y < 2 ^ 62"
  shows "sint (x - y) = uint x - uint y"
proof -
  have "sint x = uint x" "sint y = uint y" using assms by (simp_all add: sint_small)
  then have "sint (x - y) = signed_take_bit 63 (uint x - uint y)" by (simp add: sint_word_ariths)
  also have "\<dots> = uint x - uint y"
    using signed_small [OF uint_ge_0 uint_ge_0, of x y] assms by simp
  finally show ?thesis .
qed

lemma uint_sub_le: "uint y \<le> uint (x :: u64) \<Longrightarrow> uint (x - y) = uint x - uint y"
  using uint_sub_lem by blast

lemma abs_diff:
  assumes "uint (x :: u64) < 2 ^ 62" "uint y < 2 ^ 62"
  shows "uint (if sint (x - y) < 0 then - (x - y) else x - y) = \<bar>uint x - uint y\<bar>"
  unfolding sint_diff [OF assms] using uint_sub_le [of y x] uint_sub_le [of x y] by (auto simp: abs_if)

lemma gas_rules_iff:
  assumes "bhGasLimit (bHeader parent) \<le> MaxGasLimit"
  shows "gas_rules parent block = None \<longleftrightarrow>
    MinGasLimit \<le> bhGasLimit (bHeader block) \<and> bhGasLimit (bHeader block) \<le> MaxGasLimit \<and>
    bhGasUsed (bHeader block) \<le> bhGasLimit (bHeader block) \<and>
    \<bar>uint (bhGasLimit (bHeader parent)) - uint (bhGasLimit (bHeader block))\<bar> < uint (bhGasLimit (bHeader parent)) div 1024"
proof (cases "MaxGasLimit < bhGasLimit (bHeader block)")
  case True
  then show ?thesis by (auto simp: gas_rules_def Let_def not_le)
next
  case False
  define pgl where "pgl = bhGasLimit (bHeader parent)"
  define gl where "gl = bhGasLimit (bHeader block)"
  have b: "uint pgl < 2 ^ 62" "uint gl < 2 ^ 62"
    using assms False by (simp_all add: pgl_def gl_def word_le_def not_less MaxGasLimit_def)
  have "pgl div GasLimitBoundDivisor \<le> (if sint (pgl - gl) < 0 then - (pgl - gl) else pgl - gl) \<longleftrightarrow>
      \<not> \<bar>uint pgl - uint gl\<bar> < uint pgl div 1024"
    unfolding abs_diff [OF b, symmetric] word_le_def by (simp add: uint_div GasLimitBoundDivisor_def not_less)
  then show ?thesis using False unfolding gas_rules_def Let_def pgl_def gl_def by (auto simp: not_le not_less)
qed

lemma package_loop_ok:
  assumes "package_loop env block confirms hs bc = (r, bc')" "vrErr r = None"
  shows "bc' = bc \<and> vrConfirms r = confirms \<and>
    (\<forall>h \<in> set hs. \<exists>pkg. bcPackages bc h = Some pkg \<and> ValidatePackage env bc pkg (bhHeight (bHeader block)) = None)"
  using assms by (induction hs) (auto simp: verify_err_def split: option.splits)

definition content_ok :: "verify_env \<Rightarrow> BlockChain \<Rightarrow> Block \<Rightarrow> bool" where
  "content_ok env bc block =
     ((\<forall>tx \<in> set (bbTransactions (bBody block)). \<exists>from. Signer_Sender (veCrypto env) (veSigner env) tx = Inr from) \<and>
      TxHash_of (veKeccak env) (bbTransactions (bBody block)) = Some (bhTxHash (bHeader block)) \<and>
      (\<forall>h \<in> set (bbTxPackageHashes (bBody block)). \<exists>pkg. bcPackages bc h = Some pkg \<and>
         ValidatePackage env bc pkg (bhHeight (bHeader block)) = None))"

lemma verify_content_ok:
  assumes "verify_content env block confirms bc = Some (r, bc')" "vrErr r = None"
  shows "bc' = bc \<and> vrConfirms r = confirms \<and> content_ok env bc block"
proof -
  have s: "\<not> list_ex (\<lambda>tx. isl (Signer_Sender (veCrypto env) (veSigner env) tx)) (bbTransactions (bBody block))"
    using assms by (auto simp: verify_content_def verify_err_def)
  obtain h where h: "TxHash_of (veKeccak env) (bbTransactions (bBody block)) = Some h"
    using assms(1) s by (auto simp: verify_content_def split: option.splits)
  have e: "h = bhTxHash (bHeader block)" using assms s h by (auto simp: verify_content_def verify_err_def split: if_splits)
  have "package_loop env block confirms (bbTxPackageHashes (bBody block)) bc = (r, bc')"
    using assms s h e by (simp add: verify_content_def)
  from package_loop_ok [OF this assms(2)] show ?thesis
    using s h e by (auto simp: content_ok_def list_ex_iff isl_def) (metis sum.exhaust)
qed

definition header_ok :: "verify_env \<Rightarrow> BlockChain \<Rightarrow> bool \<Rightarrow> Block \<Rightarrow> Block \<Rightarrow> bool" where
  "header_ok env bc checkGreedy parent block =
     (Block_SimpleHash (veKeccak env) parent = bhParentHash (bHeader block) \<and>
      gas_rules parent block = None \<and>
      bhHeight (bHeader block) = bhHeight (bHeader parent) + 1 \<and>
      bhRound (bHeader parent) < bhRound (bHeader block) \<and>
      bhDifficulty (bHeader block) =
        CalcDifficulty (bhRound (bHeader block)) (bhRound (bHeader parent)) (bhDifficulty (bHeader parent)) \<and>
      (\<exists>balance pubkey. GetPreBalanceAndPubkey env bc parent (bhCoinbase (bHeader block)) = Some (Inr (balance, pubkey)) \<and>
         uint (Block_SimpleHash (veKeccak env) block) \<le> uint balance * 2 ^ 256 div bhDifficulty (bHeader block) \<and>
         sig_rule env pubkey block = None) \<and>
      (checkGreedy \<longrightarrow> veCheckPointRule env block))"

lemma verify_header_ok:
  assumes v: "verify_header env block checkGreedy confirms parent bc = Some (r, bc')" and e: "vrErr r = None"
  shows "bc' = bc \<and> vrConfirms r = confirms \<and> header_ok env bc checkGreedy parent block \<and> content_ok env bc block"
proof -
  have p: "Block_SimpleHash (veKeccak env) parent = bhParentHash (bHeader block)"
    using v e by (cases "Block_SimpleHash (veKeccak env) parent = bhParentHash (bHeader block)") (auto simp: verify_header_def verify_err_def)
  have g: "gas_rules parent block = None"
    using v e p by (cases "gas_rules parent block") (auto simp: verify_header_def verify_err_def)
  have h: "bhHeight (bHeader block) = bhHeight (bHeader parent) + 1"
    using v e p g by (auto simp: verify_header_def verify_err_def split: if_splits)
  have r: "\<not> bhRound (bHeader block) \<le> bhRound (bHeader parent)"
    using v e p g h by (auto simp: verify_header_def verify_err_def split: if_splits)
  obtain balance pubkey where b: "GetPreBalanceAndPubkey env bc parent (bhCoinbase (bHeader block)) = Some (Inr (balance, pubkey))"
    using v e p g h r by (auto simp: verify_header_def verify_err_def split: option.splits sum.splits)
  have c: "consensus_rule (veKeccak env) parent block balance = Some True"
    using v e p g h r b by (auto simp: verify_header_def verify_err_def split: option.splits bool.splits)
  have s: "sig_rule env pubkey block = None"
    using v e p g h r b c by (cases "sig_rule env pubkey block") (auto simp: verify_header_def verify_err_def)
  have k: "checkGreedy \<longrightarrow> veCheckPointRule env block"
    using v e p g h r b c s by (auto simp: verify_header_def verify_err_def split: if_splits)
  have "verify_content env block confirms bc = Some (r, bc')"
    using v p g h r b c s k by (auto simp: verify_header_def)
  from verify_content_ok [OF this e] have "bc' = bc \<and> vrConfirms r = confirms \<and> content_ok env bc block" .
  moreover have "header_ok env bc checkGreedy parent block" unfolding header_ok_def
    using p g h r b c s k by (auto simp: consensus_rule_def Let_def not_le split: if_splits)
  ultimately show ?thesis by blast
qed

definition confirms_ok :: "(bytes \<Rightarrow> hash) \<Rightarrow> block_source \<Rightarrow> Block \<Rightarrow> Block \<Rightarrow> Block list \<Rightarrow> bool" where
  "confirms_ok keccak src parent block cs =
     (map src (bhConfirms (bHeader block)) = map Some cs \<and> distinct (map (Block_SimpleHash keccak) cs) \<and>
      (\<forall>c \<in> set cs. round_rank keccak c < round_rank keccak parent) \<and>
      (1 < bhHeight (bHeader block) \<longrightarrow>
         (\<exists>g. parent_of src parent = Some g \<and> (\<forall>c \<in> set cs. round_rank keccak g < round_rank keccak c))))"

lemma confirm_loop_ok:
  "confirm_loop keccak src fuel greedy block parent grand hs seen acc = Some (Inr cs) \<Longrightarrow>
   \<exists>new. cs = acc @ new \<and> map src hs = map Some new \<and> distinct (map (Block_SimpleHash keccak) new) \<and>
     set (map (Block_SimpleHash keccak) new) \<inter> set seen = {} \<and>
     (\<forall>c \<in> set new. round_rank keccak c < round_rank keccak parent) \<and>
     (\<forall>g. grand = Some g \<longrightarrow> (\<forall>c \<in> set new. round_rank keccak g < round_rank keccak c))"
proof (induction hs arbitrary: seen acc)
  case (Cons h hs)
  obtain c where c: "src h = Some c" using Cons.prems by (auto split: option.splits)
  have s: "Block_SimpleHash keccak c \<notin> set seen" "\<not> CompareByRoundAndSimpleHash keccak c parent \<ge> 0"
      "\<not> (case grand of None \<Rightarrow> False | Some g \<Rightarrow> CompareByRoundAndSimpleHash keccak c g \<le> 0)"
    using Cons.prems c by (auto split: if_splits)
  have l: "confirm_loop keccak src fuel greedy block parent grand hs (Block_SimpleHash keccak c # seen) (acc @ [c]) = Some (Inr cs)"
    using Cons.prems c s by (auto split: option.splits sum.splits bool.splits)
  obtain new where n: "cs = (acc @ [c]) @ new" "map src hs = map Some new" "distinct (map (Block_SimpleHash keccak) new)"
      "set (map (Block_SimpleHash keccak) new) \<inter> set (Block_SimpleHash keccak c # seen) = {}"
      "\<forall>c \<in> set new. round_rank keccak c < round_rank keccak parent"
      "\<forall>g. grand = Some g \<longrightarrow> (\<forall>c \<in> set new. round_rank keccak g < round_rank keccak c)"
    using Cons.IH [OF l] by blast
  have r: "round_rank keccak c < round_rank keccak parent" "\<forall>g. grand = Some g \<longrightarrow> round_rank keccak g < round_rank keccak c"
    using s(2,3) by (auto simp: compare_round sgn_if split: if_splits)
  show ?case
  proof (intro exI [of _ "c # new"] conjI)
    show "distinct (map (Block_SimpleHash keccak) (c # new))" using n(3,4) by auto
    show "set (map (Block_SimpleHash keccak) (c # new)) \<inter> set seen = {}" using n(4) s(1) by auto
  qed (use n c r in auto)
qed auto

lemma verifyConfirmBlocks_ok:
  assumes "verifyConfirmBlocks keccak src fuel greedy block = Some (Inr cs)"
  shows "\<exists>parent. parent_of src block = Some parent \<and> confirms_ok keccak src parent block cs"
proof -
  obtain parent where p: "parent_of src block = Some parent" using assms by (auto simp: verifyConfirmBlocks_def split: option.splits)
  show ?thesis
  proof (cases "bhHeight (bHeader block) > 1")
    case True
    then obtain g where g: "parent_of src parent = Some g"
        "confirm_loop keccak src fuel (ucast greedy) block parent (Some g) (bhConfirms (bHeader block)) [] [] = Some (Inr cs)"
      using assms p by (auto simp: verifyConfirmBlocks_def split: option.splits)
    from confirm_loop_ok [OF g(2)] show ?thesis using p g(1) by (auto simp: confirms_ok_def)
  next
    case False
    then have "confirm_loop keccak src fuel (ucast greedy) block parent None (bhConfirms (bHeader block)) [] [] = Some (Inr cs)"
      using assms p by (simp add: verifyConfirmBlocks_def)
    from confirm_loop_ok [OF this] show ?thesis using p False by (auto simp: confirms_ok_def)
  qed
qed


text \<open>A chain of two blocks under a hash that counts bytes.\<close>

definition count_hash :: "bytes \<Rightarrow> hash" where
  "count_hash b = of_nat (length b - 100)"

definition sample_header :: BlockHeader where
  "sample_header = \<lparr>bhParentHash = 0, bhRound = 0, bhSig = [], bhCoinbase = 0, bhDifficulty = 1000000000, bhHeight = 0, bhAmount = 0,
     bhGasLimit = 20000000000, bhGasUsed = 0, bhStateHash = 0, bhTxHash = emptyRoot, bhReceiptHash = 0, bhParentFullHash = 0,
     bhConfirms = [], bhFullSig = [], bhMinedTime = 0, bhHopCount = 0\<rparr>"

definition sample_block :: "BlockHeader \<Rightarrow> Block" where
  "sample_block h = \<lparr>bHeader = h, bBody = \<lparr>bbTransactions = [], bbTxPackageHashes = []\<rparr>, bAccHash = 0,
     bStateChecked = NoBlockState, bReceivedPath = BlockNull\<rparr>"

definition sample_genesis :: Block where
  "sample_genesis = sample_block sample_header"

definition sample_child :: Block where
  "sample_child = sample_block (sample_header\<lparr>bhRound := 1, bhSig := [1, 2], bhHeight := 1, bhDifficulty := 1000976562,
     bhParentFullHash := Block_FullHash count_hash sample_genesis\<rparr>)"

definition sample_env :: verify_env where
  "sample_env = \<lparr>veKeccak = count_hash, veCrypto = \<lparr>cSigHash = (\<lambda>_ _. 0), cTxHash = (\<lambda>_. 0), cPackingHash = (\<lambda>_ _. 0), cEcrecover = (\<lambda>_ _. None), cKeccak = count_hash\<rparr>, veSigner = FakeSigner, veGreedy = 4, veBlockSigFake = True,
     veUnmarshalPubKey = (\<lambda>_. True), veVerify = (\<lambda>_ _ _. True), veCheckPointRule = (\<lambda>_. True)\<rparr>"

definition sample_chain :: BlockChain where
  "sample_chain = \<lparr>bcGenesis = sample_genesis, bcCurrentBlock = sample_genesis, bcHeadHash = Block_FullHash count_hash sample_genesis,
     bcBlocks = [Block_FullHash count_hash sample_genesis \<mapsto> sample_genesis], bcChilds = (\<lambda>_. []), bcRoundHashes = (\<lambda>_. []),
     bcStateCheck = (\<lambda>_. BlockStateChecked), bcBlooms = Map.empty, bcReceipts = Map.empty, bcStateCache = empty_db,
     bcPackages = (\<lambda>_. None), bcFutureBlocks = [], bcFutureDepth = [], bcFutureTxPackageBlocks = [], bcFutureBlockTxPackages = []\<rparr>"

lemmas rlp_eval = hash_item_def uint_item_def uint_bytes_def putint_def rlp_string_def Let_def list_head_def str_head_def
  puthead_def nat_bytes.simps

lemma sample_hashes: "Block_FullHash count_hash sample_genesis = 105" "Block_FullHash count_hash sample_child = 107"
  "Block_SimpleHash count_hash sample_genesis = 0" "Block_SimpleHash count_hash sample_child = 0"
  unfolding Block_FullHash_def BlockHeader_FullHash_def RlpHash_def Block_SimpleHash_def BlockHeader_SimpleHash_def
  by (simp_all add: sample_genesis_def sample_child_def sample_block_def sample_header_def Encode_rlp rlp_eval count_hash_def)

lemma sample_fields: "bhParentHash (bHeader sample_child) = 0" "bhHeight (bHeader sample_child) = 1" "bhHeight (bHeader sample_genesis) = 0"
  "bhRound (bHeader sample_child) = 1" "bhRound (bHeader sample_genesis) = 0" "bhCoinbase (bHeader sample_child) = 0"
  "bhDifficulty (bHeader sample_child) = 1000976562" "bhDifficulty (bHeader sample_genesis) = 1000000000"
  "bhGasLimit (bHeader sample_child) = 20000000000" "bhGasLimit (bHeader sample_genesis) = 20000000000"
  "bhGasUsed (bHeader sample_child) = 0" "bhGasUsed (bHeader sample_genesis) = 0"
  "bhTxHash (bHeader sample_child) = emptyRoot" "bBody sample_child = \<lparr>bbTransactions = [], bbTxPackageHashes = []\<rparr>"
  "veCheckPointRule sample_env b" "veBlockSigFake sample_env"
  by (simp_all add: sample_child_def sample_genesis_def sample_block_def sample_header_def sample_env_def)

lemma sample_rules: "gas_rules sample_genesis sample_child = None"
  "GetPreBalanceAndPubkey sample_env sample_chain sample_genesis 0 = Some (Inr (0, []))"
  "consensus_rule count_hash sample_genesis sample_child 0 = Some True"
  "sig_rule sample_env [] sample_child = None"
  "verify_content sample_env sample_child [] sample_chain =
    Some (\<lparr>vrConfirms = [], vrDepend = 0, vrDepth = 0, vrPackage = 0, vrErr = None\<rparr>, sample_chain)"
proof -
  show "gas_rules sample_genesis sample_child = None"
    by (simp add: gas_rules_def sample_fields Let_def GasLimitBoundDivisor_def MinGasLimit_def MaxGasLimit_def)
  show "consensus_rule count_hash sample_genesis sample_child 0 = Some True"
    by (simp add: consensus_rule_def sample_fields sample_hashes CalcDifficulty_def Let_def difficultyBoundDivisor_def minimumDifficulty_def RoundsPerSecond_def)
  show "sig_rule sample_env [] sample_child = None" by (simp add: sig_rule_def sample_fields)
  show "GetPreBalanceAndPubkey sample_env sample_chain sample_genesis 0 = Some (Inr (0, []))"
    by (simp add: GetPreBalanceAndPubkey_def GetStateBeforeCacheHeight_def GetBlockBeforeCacheHeight_def sample_fields
        StakeRegisterHeightDistance_def sample_chain_def StateAt_def StateDB_GetBalance_def StateDB_GetState_def
        StateDB_New_def empty_db_def StateDB_getStateObject_def big_Uint64_def)
  show "verify_content sample_env sample_child [] sample_chain =
    Some (\<lparr>vrConfirms = [], vrDepend = 0, vrDepth = 0, vrPackage = 0, vrErr = None\<rparr>, sample_chain)"
    by (simp add: verify_content_def sample_fields TxHash_of_def DeriveSha_def Trie_Hash_def hashRoot_def)
qed

lemma sample_verified: "VerifyBlock sample_env 5 sample_child True sample_chain =
    Some (\<lparr>vrConfirms = [], vrDepend = 0, vrDepth = 0, vrPackage = 0, vrErr = None\<rparr>, sample_chain)"
proof -
  have e: "veKeccak sample_env = count_hash" "bcGenesis sample_chain = sample_genesis" "veGreedy sample_env = 4"
    by (simp_all add: sample_env_def sample_chain_def)
  have p: "parent_of (bcBlocks sample_chain) sample_child = Some sample_genesis"
    by (simp add: parent_of_def sample_chain_def sample_child_def sample_block_def)
  have c: "verifyConfirmBlocks count_hash (bcBlocks sample_chain) 5 4 sample_child = Some (Inr [])"
    using p by (simp add: verifyConfirmBlocks_def) (simp add: sample_child_def sample_block_def sample_header_def)
  have d: "VerifyBlockDepend count_hash sample_chain sample_child = (0, None)"
    using p e sample_hashes by (simp add: VerifyBlockDepend_def) (simp add: sample_child_def sample_block_def sample_header_def)
  have "verify_header sample_env sample_child True [] sample_genesis sample_chain =
      Some (\<lparr>vrConfirms = [], vrDepend = 0, vrDepth = 0, vrPackage = 0, vrErr = None\<rparr>, sample_chain)"
    unfolding verify_header_def using e sample_hashes sample_rules by (simp add: sample_fields)
  then show ?thesis using e p c d sample_hashes by (simp add: VerifyBlock_def)
qed


text \<open>C38. The gas limit a miner proposes with \<^verbatim>\<open>CalcGasLimit\<close> on an acceptable parent obeys the gas rules of \<^verbatim>\<open>VerifyBlock\<close> except for
  the absolute maximum: the block is refused exactly when the proposal exceeds it.\<close>

theorem mined_gas_limit:
  assumes "MinGasLimit \<le> bhGasLimit (bHeader parent)" "bhGasLimit (bHeader parent) \<le> MaxGasLimit"
    and "bhGasUsed (bHeader parent) \<le> bhGasLimit (bHeader parent)"
    and "bhGasLimit (bHeader block) = CalcGasLimit parent" "bhGasUsed (bHeader block) \<le> bhGasLimit (bHeader block)"
  shows "gas_rules parent block = (if CalcGasLimit parent > MaxGasLimit then Some ErrInvalidGasLimit else None)"
proof (cases "CalcGasLimit parent > MaxGasLimit")
  case True
  then show ?thesis using assms(4) by (simp add: gas_rules_def Let_def)
next
  case False
  let ?g = "gas_step (unat (bhGasLimit (bHeader parent))) (unat (bhGasUsed (bHeader parent)))"
  have n: "unat (CalcGasLimit parent) = ?g" by (rule CalcGasLimit_nat [OF assms(1-3)])
  have b: "10000000000 \<le> unat (bhGasLimit (bHeader parent))" "unat (bhGasUsed (bHeader parent)) \<le> unat (bhGasLimit (bHeader parent))"
    using assms(1,3) by (simp_all add: word_le_nat_alt)
  have u: "uint (CalcGasLimit parent) = int ?g" using n by (metis uint_nat)
  have p: "int (unat (bhGasLimit (bHeader parent))) = uint (bhGasLimit (bHeader parent))" by simp
  have "MinGasLimit \<le> CalcGasLimit parent" using gas_step_bounds(1) [OF b] n by (simp add: word_le_nat_alt)
  moreover have "\<bar>uint (bhGasLimit (bHeader parent)) - uint (CalcGasLimit parent)\<bar> < uint (bhGasLimit (bHeader parent)) div 1024"
    using gas_step_bounds(2) [OF b] unfolding u by (simp add: zdiv_int)
  ultimately have "gas_rules parent block = None"
    using gas_rules_iff [OF assms(2), of block] assms(4,5) False by (simp add: not_less)
  then show ?thesis using False by simp
qed

theorem mined_gas_limit_witness:
  "gas_rules sample_genesis (sample_block (sample_header\<lparr>bhGasLimit := 19980468751\<rparr>)) = None"
  using mined_gas_limit [of sample_genesis "sample_block (sample_header\<lparr>bhGasLimit := 19980468751\<rparr>)"]
  by (simp add: sample_genesis_def sample_block_def sample_header_def MinGasLimit_def MaxGasLimit_def CalcGasLimit_def Let_def GasLimitBoundDivisor_def)

end
