(* ===== verification/Chain_Greedy.thy ===== *)
theory Chain_Greedy
  imports Chain_Verify
begin

text \<open>
  The greedy rule for confirmed blocks (\<^verbatim>\<open>CheckGreedy\<close> in \<^verbatim>\<open>chain/greedy.go\<close>) on a store that satisfies \<^const>\<open>store_ok\<close>: the
  exact condition it decides.
\<close>

section \<open>Common ancestors\<close>

lemma forks_exists:
  assumes "k \<le> height a" "k \<le> height b" "ancestor_at src a k = ancestor_at src b k"
  obtains j where "forks_at src a b j"
proof -
  let ?P = "\<lambda>j. j \<le> height a \<and> j \<le> height b \<and> ancestor_at src a j = ancestor_at src b j"
  have p: "?P k" using assms by auto
  have b: "j \<le> height a" if "?P j" for j using that by simp
  have "forks_at src a b (Greatest ?P)"
    using GreatestI_nat [of ?P, OF p b] Greatest_le_nat [of ?P, OF _ b] unfolding forks_at_def by (meson leD)
  then show ?thesis by (rule that)
qed

lemma hop_sum: "a < 2 ^ 62 \<Longrightarrow> b < 2 ^ 62 \<Longrightarrow> unat (of_nat a + of_nat b :: u64) = a + b"
  by (simp add: unat_of_nat take_bit_nat_eq_self_iff flip: of_nat_add)

lemma uint_lt62: "unat (x :: u64) < 2 ^ 62 \<Longrightarrow> uint x < 2 ^ 62"
  unfolding uint_nat by (metis of_nat_less_iff of_nat_numeral of_nat_power)

lemma abs_lt63: "a < 2 ^ 62 \<Longrightarrow> b < 2 ^ 62 \<Longrightarrow> 0 \<le> a \<Longrightarrow> 0 \<le> b \<Longrightarrow> \<bar>a - b :: int\<bar> < 2 ^ 63"
  by simp

lemma Abs_height:
  assumes "height a < 2 ^ 62" "height b < 2 ^ 62"
  shows "sint (Abs_int64 (bhHeight (bHeader a) - bhHeight (bHeader b))) = \<bar>int (height a) - int (height b)\<bar>"
proof -
  have u: "uint (bhHeight (bHeader a)) < 2 ^ 62" "uint (bhHeight (bHeader b)) < 2 ^ 62"
    using uint_lt62 assms by blast+
  have "\<bar>uint (bhHeight (bHeader a)) - uint (bhHeight (bHeader b))\<bar> < 2 ^ 63"
    by (rule abs_lt63 [OF u uint_ge_0 uint_ge_0])
  moreover have "uint (Abs_int64 (bhHeight (bHeader a) - bhHeight (bHeader b))) = \<bar>uint (bhHeight (bHeader a)) - uint (bhHeight (bHeader b))\<bar>"
    unfolding abs_diff [OF u, symmetric] Abs_int64_def by (simp only: not_less [symmetric] if_not_P if_P split: if_split) simp
  ultimately show ?thesis using sint_small [of "Abs_int64 (bhHeight (bHeader a) - bhHeight (bHeader b))"] by simp
qed

text \<open>The store of the genesis block and its child.\<close>

definition two_chain :: BlockChain where
  "two_chain = sample_chain\<lparr>bcBlocks := [105 \<mapsto> sample_genesis, 107 \<mapsto> sample_child]\<rparr>"

lemma two_chain_facts: "store_ok count_hash (bcBlocks two_chain)" "stored count_hash (bcBlocks two_chain) sample_genesis"
  "stored count_hash (bcBlocks two_chain) sample_child" "parent_of (bcBlocks two_chain) sample_child = Some sample_genesis"
proof -
  have b: "bcBlocks two_chain = [105 \<mapsto> sample_genesis, 107 \<mapsto> sample_child]" by (simp add: two_chain_def)
  show p: "parent_of (bcBlocks two_chain) sample_child = Some sample_genesis"
    by (simp add: b parent_of_def sample_child_def sample_block_def sample_hashes(1))
  show "stored count_hash (bcBlocks two_chain) sample_genesis" "stored count_hash (bcBlocks two_chain) sample_child"
    by (simp_all add: stored_def sample_hashes b)
  show "store_ok count_hash (bcBlocks two_chain)"
    unfolding store_ok_def using p by (auto simp: b sample_hashes sample_fields split: if_splits)
qed

text \<open>C36. On a store of blocks with one genesis, which is not after \<open>b\<close> in the order of rounds, \<^verbatim>\<open>CheckGreedy\<close> always decides:
  it compares \<open>b\<close> with the highest ancestor of the main block that is not after \<open>b\<close>, and accepts exactly when
  their heights differ by at most the greedy parameter and the path between them through their highest common ancestor has at most
  one step more.\<close>

theorem CheckGreedy_decides:
  assumes ok: "store_ok keccak src" and st: "stored keccak src b" "stored keccak src m" and f: "height m < fuel"
    and small: "height b < 2 ^ 62" "height m < 2 ^ 62" "unat greedy < 2 ^ 62"
    and gen: "ancestor_at src b 0 = Some g" "ancestor_at src m 0 = Some g" "round_rank keccak g \<le> round_rank keccak b"
  shows "\<exists>a k. ancestor_at src m (height a) = Some a \<and> round_rank keccak a \<le> round_rank keccak b \<and>
    (\<forall>j c. height a < j \<longrightarrow> ancestor_at src m j = Some c \<longrightarrow> round_rank keccak b < round_rank keccak c) \<and>
    forks_at src b a k \<and>
    CheckGreedy keccak src fuel b m greedy =
      Some (Inr (\<bar>int (height b) - int (height a)\<bar> \<le> int (unat greedy) \<and> (height b - k) + (height a - k) \<le> unat greedy + 1))"
proof -
  obtain a where a: "height a \<le> height m" "ancestor_at src m (height a) = Some a" "round_rank keccak a \<le> round_rank keccak b"
      "\<forall>j c. height a < j \<longrightarrow> j \<le> height m \<longrightarrow> ancestor_at src m j = Some c \<longrightarrow> round_rank keccak b < round_rank keccak c"
      "greedy_main keccak src fuel b m = Some a" "stored keccak src a"
    using greedy_main_ok [OF ok st(2) f, of b] gen by blast
  have "ancestor_at src a 0 = Some g"
    using ancestor_climb [OF ok st(2), of "height m - height a" a 0] a(1,2) gen(2) by (simp add: ancestor_at_def)
  then obtain k where k: "forks_at src b a k" using forks_exists [of 0 b a src] gen(1) by auto
  then have h: "GetHopCount keccak src b a = Some (Inr (of_nat (height b - k) + of_nat (height a - k)))"
    using GetHopCount_ok [OF ok st(1) a(6)] forks_unique [OF k] by blast
  have s: "height a < 2 ^ 62" using a(1) small(2) by simp
  have u: "uint greedy < 2 ^ 62" using uint_lt62 small(3) by blast
  have g: "sint greedy = int (unat greedy)" using sint_small [of greedy] u by simp
  have g1: "unat (greedy + 1) = unat greedy + 1" using hop_sum [of "unat greedy" 1] small(3) by simp
  have n: "unat (of_nat (height b - k) + of_nat (height a - k) :: u64) = (height b - k) + (height a - k)"
    using small(1) s by (intro hop_sum) simp_all
  have "CheckGreedy keccak src fuel b m greedy =
      Some (Inr (\<bar>int (height b) - int (height a)\<bar> \<le> int (unat greedy) \<and> (height b - k) + (height a - k) \<le> unat greedy + 1))"
    unfolding CheckGreedy_def Let_def a(5) option.case Abs_height [OF small(1) s] g h sum.case
    unfolding word_less_nat_alt n g1 by auto
  moreover have "\<forall>j c. height a < j \<longrightarrow> ancestor_at src m j = Some c \<longrightarrow> round_rank keccak b < round_rank keccak c"
    using a(4) by (auto simp: ancestor_at_def split: if_splits)
  ultimately show ?thesis using a(2,3) k by blast
qed

theorem CheckGreedy_decides_witness:
  "\<exists>a k. ancestor_at (bcBlocks two_chain) sample_child (height a) = Some a \<and>
    round_rank count_hash a \<le> round_rank count_hash sample_genesis \<and>
    forks_at (bcBlocks two_chain) sample_genesis a k \<and>
    CheckGreedy count_hash (bcBlocks two_chain) 2 sample_genesis sample_child 4 =
      Some (Inr (\<bar>int (height sample_genesis) - int (height a)\<bar> \<le> 4 \<and> (height sample_genesis - k) + (height a - k) \<le> 5))"
proof -
  have "ancestor_at (bcBlocks two_chain) sample_genesis 0 = Some sample_genesis"
      "ancestor_at (bcBlocks two_chain) sample_child 0 = Some sample_genesis"
    by (simp_all add: ancestor_at_def sample_fields two_chain_facts)
  from CheckGreedy_decides [OF two_chain_facts(1-3) _ _ _ _ this, of 2 4] show ?thesis
    by (simp add: sample_fields) blast
qed

end
