(* ===== verification/Spec2Isabelle.thy ===== *)
theory Spec2Isabelle
  imports Nonce_Set Names Receipts Tx_Runs Rlp_Nesting Trie_Secure Chain_Greedy
begin

text \<open>
  Verification of the fractal blockchain node.
\<close>

end
